(* ===== verification/Prelude.thy ===== *)
theory Prelude
  imports
    Main
    "HOL-Library.Word"
    "HOL-Library.Finite_Map"
    "HOL-Library.Multiset"
    "HOL-Library.List_Lexorder"
    "HOL-Library.Char_ord"
begin

text \<open>
  What the component theories share.

  \<^item> Go's integers at their width: \<open>u64\<close>, \<open>u32\<close> are words and wrap around; an \<open>int64\<close> is a
    \<open>64 word\<close> read by \<^term>\<open>sint\<close>.  A Go \<open>string\<close> and a \<open>[]byte\<close> are both lists of
    \<^typ>\<open>char\<close>, HOL's eight-bit character, ordered bytewise and lexicographically as Go
    orders them.
  \<^item> Go's \<open>map\<close> is a finite map.  A \<open>range\<close> over a map visits its keys in an order the
    language does not fix: an operation with such a loop takes the order as an argument, and
    \<open>iterates ord m\<close> says that \<open>ord\<close> is one of the orders the loop can take.
  \<^item> \<open>sort.Slice\<close> as \<open>sort_slice\<close>: a stable sort by the caller's \<open>less\<close>.  Where the slice was
    collected from a map, the arbitrary iteration order makes the outcomes of the stable sort
    exactly the outcomes an unstable sort may have.
  \<^item> \<open>fmt\<close>'s decimal \<open>%d\<close> and \<open>strconv.ParseUint\<close>, and the separator lemmas that show when a
    formatted record can be read back.
  \<^item> \<open>time.Time\<close> as nanoseconds since Go's zero time.
\<close>

section \<open>Types\<close>

type_synonym u64 = "64 word"
type_synonym u32 = "32 word"
type_synonym i64 = "64 word"
type_synonym bytes = "char list"
type_synonym Height = u64
type_synonym View = u64
type_synonym time = int
type_synonym duration = int

named_theorems codec_simps "round-trip equations of encoders and decoders"
named_theorems inv_intros "an operation keeps the invariant of its component"

section \<open>Maps\<close>

abbreviation mapget :: "('k, 'v) fmap \<Rightarrow> 'k \<Rightarrow> 'v option" where
  "mapget \<equiv> fmlookup"

definition maplen :: "('k, 'v) fmap \<Rightarrow> nat" where
  "maplen m = fcard (fmdom m)"

definition mapget0 :: "'v \<Rightarrow> ('k, 'v) fmap \<Rightarrow> 'k \<Rightarrow> 'v" where
  "mapget0 z m k = (case mapget m k of None \<Rightarrow> z | Some v \<Rightarrow> v)"

definition iterates :: "'k list \<Rightarrow> ('k, 'v) fmap \<Rightarrow> bool" where
  "iterates ord m \<longleftrightarrow> distinct ord \<and> fset_of_list ord = fmdom m"

lemma iterates_set: "iterates ord m \<Longrightarrow> set ord = fmdom' m"
  by (metis fmdom'_alt_def fset_of_list.rep_eq iterates_def)

lemma iterates_distinct: "iterates ord m \<Longrightarrow> distinct ord"
  by (simp add: iterates_def)

lemma iterates_length: "iterates ord m \<Longrightarrow> length ord = maplen m"
  by (metis distinct_card fcard.rep_eq fset_of_list.rep_eq iterates_def maplen_def)

lemma iterates_lookup: "iterates ord m \<Longrightarrow> k \<in> set ord \<longleftrightarrow> (\<exists>v. mapget m k = Some v)"
  by (auto simp: iterates_set fmlookup_dom'_iff)

lemma iterates_sort:
  fixes ord :: "'k::linorder list"
  assumes "iterates ord m"
  shows "sort ord = sorted_list_of_fset (fmdom m)"
proof -
  have "sorted_list_of_fset (fmdom m) = sorted_list_of_set (set ord)"
    using assms by (simp add: iterates_def sorted_list_of_fset.rep_eq flip: fset_of_list.rep_eq)
  also have "\<dots> = sort ord"
    using assms by (simp add: iterates_def sorted_list_of_set_sort_remdups distinct_remdups_id)
  finally show ?thesis by simp
qed

lemma iterates_exists: "\<exists>ord. iterates ord m"
proof -
  obtain xs where "set xs = fset (fmdom m)" "distinct xs"
    using finite_distinct_list [of "fset (fmdom m)"] by (auto simp: finite_fset)
  then have "fset_of_list xs = fmdom m"
    by (simp add: fset_of_list.rep_eq flip: fset_inject)
  with \<open>distinct xs\<close> show ?thesis
    by (auto simp: iterates_def)
qed

lemma mapget0_upd: "mapget0 z (fmupd k v m) k' = (if k' = k then v else mapget0 z m k')"
  by (simp add: mapget0_def)

lemma maplen_empty [simp]: "maplen fmempty = 0"
  by (simp add: maplen_def)

lemma maplen_upd: "maplen (fmupd k v m) = (if mapget m k = None then Suc (maplen m) else maplen m)"
  by (auto simp: maplen_def fcard_finsert_if fmlookup_dom_iff)

lemma maplen_drop: "maplen (fmdrop k m) = (if mapget m k = None then maplen m else maplen m - 1)"
proof (cases "mapget m k")
  case None
  then have "fmdrop k m = m" by (metis fmdom_notI fmdrop_idle)
  with None show ?thesis by simp
next
  case (Some v)
  then have "k |\<in>| fmdom m" by (rule fmdomI)
  with Some show ?thesis by (simp add: maplen_def fcard.rep_eq)
qed

lemma maplen_drop_le: "maplen (fmdrop k m) \<le> maplen m"
  by (simp add: maplen_drop)

lemma maplen_pos: "mapget m k = Some v \<Longrightarrow> 0 < maplen m"
  by (metis fcard_seteq fmdomI fempty_iff fcard_0_eq gr0I maplen_def)

lemma maplen_0_iff [simp]: "maplen m = 0 \<longleftrightarrow> m = fmempty"
proof
  assume "maplen m = 0"
  then have "fmdom m = {||}" by (simp add: maplen_def)
  then show "m = fmempty" by (intro fmap_ext) (metis fmdom_notD fempty_iff fmempty_lookup)
qed simp

section \<open>Interfaces of the stateful components\<close>

text \<open>
  A store with a capacity: an insertion is refused when the store is full, and otherwise sets the
  entry of its key and nothing else.  Then no sequence of insertions makes the store larger than its
  capacity, and an entry stays until its key is inserted again.
\<close>

locale bounded_store =
  fixes content :: "'s \<Rightarrow> ('k, 'v) fmap" and cap :: "'s \<Rightarrow> int" and key :: "'e \<Rightarrow> 'k"
    and put :: "'s \<Rightarrow> 'e \<Rightarrow> 's option"
  assumes put_room: "put s e = Some s' \<Longrightarrow> int (maplen (content s)) < cap s"
    and put_content: "put s e = Some s' \<Longrightarrow> \<exists>v. content s' = fmupd (key e) v (content s)"
    and put_cap: "put s e = Some s' \<Longrightarrow> cap s' = cap s"
begin

fun put_all :: "'s \<Rightarrow> 'e list \<Rightarrow> 's" where
  "put_all s [] = s"
| "put_all s (e # es) = put_all (case put s e of None \<Rightarrow> s | Some s' \<Rightarrow> s') es"

lemma put_bounded:
  assumes "put s e = Some s'"
  shows "int (maplen (content s')) \<le> cap s'"
  using put_room [OF assms] put_content [OF assms] put_cap [OF assms] by (auto simp: maplen_upd)

lemma put_all_bounded:
  "int (maplen (content s)) \<le> cap s \<Longrightarrow>
   int (maplen (content (put_all s es))) \<le> cap (put_all s es) \<and> cap (put_all s es) = cap s"
proof (induction es arbitrary: s)
  case (Cons e es)
  show ?case
  proof (cases "put s e")
    case None
    then show ?thesis using Cons.IH [OF Cons.prems] by (simp del: of_nat_le_iff)
  next
    case (Some s')
    with Cons.IH [OF put_bounded [OF Some]] put_cap [OF Some] show ?thesis by simp
  qed
qed simp

lemma put_all_other:
  "k \<notin> key ` set es \<Longrightarrow> mapget (content (put_all s es)) k = mapget (content s) k"
proof (induction es arbitrary: s)
  case (Cons e es)
  then show ?case
    by (auto split: option.splits dest!: put_content)
qed simp

end

text \<open>
  A component as a transition system: an invariant that holds initially and that each step keeps
  holds in every reachable state.
\<close>

locale invariant_system =
  fixes init :: "'s \<Rightarrow> bool" and step :: "'s \<Rightarrow> 's \<Rightarrow> bool" and inv :: "'s \<Rightarrow> bool"
  assumes init_inv: "init s \<Longrightarrow> inv s"
    and step_inv: "inv s \<Longrightarrow> step s s' \<Longrightarrow> inv s'"
begin

lemma steps_inv: "step\<^sup>*\<^sup>* s s' \<Longrightarrow> inv s \<Longrightarrow> inv s'"
  by (induction rule: rtranclp_induct) (auto intro: step_inv)

lemma reachable_inv: "init s \<Longrightarrow> step\<^sup>*\<^sup>* s s' \<Longrightarrow> inv s'"
  by (blast intro: init_inv steps_inv)

end

section \<open>Sorting: \<open>sort.Slice\<close> and \<open>sort.SliceStable\<close>\<close>

fun insert_by :: "('a \<Rightarrow> 'a \<Rightarrow> bool) \<Rightarrow> 'a \<Rightarrow> 'a list \<Rightarrow> 'a list" where
  "insert_by lt x [] = [x]"
| "insert_by lt x (y # ys) = (if lt y x then y # insert_by lt x ys else x # y # ys)"

definition sort_slice :: "('a \<Rightarrow> 'a \<Rightarrow> bool) \<Rightarrow> 'a list \<Rightarrow> 'a list" where
  "sort_slice lt xs = foldr (insert_by lt) xs []"

lemma sort_slice_Nil [simp]: "sort_slice lt [] = []"
  and sort_slice_Cons [simp]: "sort_slice lt (x # xs) = insert_by lt x (sort_slice lt xs)"
  by (simp_all add: sort_slice_def)

lemma mset_insert_by [simp]: "mset (insert_by lt x xs) = add_mset x (mset xs)"
  by (induction xs) auto

lemma mset_sort_slice [simp]: "mset (sort_slice lt xs) = mset xs"
  by (induction xs) auto

lemma set_insert_by [simp]: "set (insert_by lt x xs) = insert x (set xs)"
  by (induction xs) auto

lemma set_sort_slice [simp]: "set (sort_slice lt xs) = set xs"
  by (induction xs) auto

lemma length_sort_slice [simp]: "length (sort_slice lt xs) = length xs"
  by (metis mset_sort_slice size_mset)

lemma distinct_sort_slice [simp]: "distinct (sort_slice lt xs) = distinct xs"
  by (metis mset_sort_slice mset_eq_imp_distinct_iff)

text \<open>
  The contract of the comparison a caller hands to \<open>sort.Slice\<close>: a strict weak order.  Under
  it the result is in order and equal elements keep their places; each comparison of the
  program is an interpretation.
\<close>

locale slice_less =
  fixes lt :: "'a \<Rightarrow> 'a \<Rightarrow> bool"
  assumes less_asym: "lt x y \<Longrightarrow> \<not> lt y x"
    and less_neg_trans: "\<not> lt x y \<Longrightarrow> \<not> lt y z \<Longrightarrow> \<not> lt x z"
begin

abbreviation in_order :: "'a list \<Rightarrow> bool" where
  "in_order \<equiv> sorted_wrt (\<lambda>x y. \<not> lt y x)"

lemma insert_by_in_order: "in_order xs \<Longrightarrow> in_order (insert_by lt x xs)"
proof (induction xs)
  case (Cons y ys)
  have below: "\<not> lt z x" if "\<not> lt y x" and "z \<in> set ys" for z
  proof -
    from Cons.prems that have "\<not> lt z y" by simp
    then show ?thesis using that(1) by (rule less_neg_trans)
  qed
  show ?case
    using Cons below by (auto dest: less_asym)
qed simp

lemma sort_slice_in_order: "in_order (sort_slice lt xs)"
  by (induction xs) (simp_all add: insert_by_in_order)

lemma insert_by_stable:
  "filter (\<lambda>y. \<not> lt y z \<and> \<not> lt z y) (insert_by lt x xs) =
   filter (\<lambda>y. \<not> lt y z \<and> \<not> lt z y) (x # xs)"
proof (induction xs)
  case (Cons y ys)
  have "\<not> (lt y x \<and> (\<not> lt x z \<and> \<not> lt z x) \<and> (\<not> lt y z \<and> \<not> lt z y))"
    using less_neg_trans by blast
  with Cons show ?case by auto
qed simp

lemma sort_slice_stable:
  "filter (\<lambda>y. \<not> lt y z \<and> \<not> lt z y) (sort_slice lt xs) =
   filter (\<lambda>y. \<not> lt y z \<and> \<not> lt z y) xs"
proof (induction xs)
  case (Cons x xs)
  then show ?case
    using insert_by_stable [of z x "sort_slice lt xs"] by simp
qed simp

lemma insert_by_front: "(\<And>y. y \<in> set xs \<Longrightarrow> \<not> lt y x) \<Longrightarrow> insert_by lt x xs = x # xs"
  by (cases xs) auto

lemma sort_slice_idem: "in_order xs \<Longrightarrow> sort_slice lt xs = xs"
  by (induction xs) (simp_all add: insert_by_front)

end

lemma slice_less_key: "slice_less (\<lambda>x y. (f x :: 'b::linorder) < f y)"
  by unfold_locales auto

lemma slice_less_key_desc: "slice_less (\<lambda>x y. (f x :: 'b::linorder) > f y)"
  by unfold_locales auto

lemma sort_slice_key: "sort_slice (\<lambda>x y. (f x :: 'b::linorder) < f y) xs = sort_key f xs"
proof -
  have ins: "insert_by (\<lambda>x y. f x < f y) x ys = insort_key f x ys" for x ys
    by (induction ys) auto
  then show ?thesis by (induction xs) simp_all
qed

text \<open>Any list in order is what the sort returns for some order of its input.\<close>

lemma sort_slice_all_outcomes:
  "slice_less lt \<Longrightarrow> sorted_wrt (\<lambda>x y. \<not> lt y x) out \<Longrightarrow> sort_slice lt out = out"
  by (rule slice_less.sort_slice_idem)

section \<open>Decimal text\<close>

definition digit :: "int \<Rightarrow> char" where
  "digit d = char_of (48 + d)"

definition digit_val :: "char \<Rightarrow> int" where
  "digit_val c = of_char c - 48"

function dec :: "int \<Rightarrow> string" where
  "dec n = (if n < 10 then [digit n] else dec (n div 10) @ [digit (n mod 10)])"
  by pat_completeness auto
termination
  by (relation "measure nat") auto

declare dec.simps [simp del]

text \<open>\<open>%d\<close> of a Go integer.\<close>

definition fmt_d :: "int \<Rightarrow> string" where
  "fmt_d n = (if n < 0 then ''-'' @ dec (- n) else dec n)"

definition dec_val :: "string \<Rightarrow> int" where
  "dec_val s = foldl (\<lambda>a c. a * 10 + digit_val c) 0 s"

lemma digit_val_digit [simp]: "0 \<le> d \<Longrightarrow> d < 10 \<Longrightarrow> digit_val (digit d) = d"
  by (simp add: digit_val_def digit_def)

lemma dec_val_snoc [simp]: "dec_val (s @ [c]) = dec_val s * 10 + digit_val c"
  by (simp add: dec_val_def)

lemma dec_val_dec: "0 \<le> n \<Longrightarrow> dec_val (dec n) = n"
proof (induction n rule: dec.induct)
  case (1 n)
  show ?case
  proof (cases "n < 10")
    case True
    with 1 show ?thesis by (simp add: dec.simps [of n] dec_val_def)
  next
    case False
    with 1 show ?thesis by (simp add: dec.simps [of n])
  qed
qed

lemma dec_nonempty [simp]: "dec n \<noteq> []"
  by (subst dec.simps) simp

definition is_digit :: "char \<Rightarrow> bool" where
  "is_digit c \<longleftrightarrow> 0 \<le> digit_val c \<and> digit_val c < 10"

lemma is_digit_digit [simp]: "0 \<le> d \<Longrightarrow> d < 10 \<Longrightarrow> is_digit (digit d)"
  by (simp add: is_digit_def)

lemma dec_digits: "0 \<le> n \<Longrightarrow> c \<in> set (dec n) \<Longrightarrow> is_digit c"
proof (induction n rule: dec.induct)
  case (1 n)
  then show ?case
    by (cases "n < 10") (auto simp: dec.simps [of n])
qed

lemma fmt_d_nonempty [simp]: "fmt_d n \<noteq> []"
  by (simp add: fmt_d_def)

lemma fmt_d_chars: "c \<in> set (fmt_d n) \<Longrightarrow> c = CHR ''-'' \<or> is_digit c"
  using dec_digits [of n] dec_digits [of "- n"] by (auto simp: fmt_d_def split: if_splits)

lemma pipe_notin_fmt_d [simp]: "CHR ''|'' \<notin> set (fmt_d n)"
proof
  assume "CHR ''|'' \<in> set (fmt_d n)"
  then have "is_digit CHR ''|''"
    using fmt_d_chars by fastforce
  then show False by (simp add: is_digit_def digit_val_def)
qed

lemma minus_notin_dec: "0 \<le> n \<Longrightarrow> CHR ''-'' \<notin> set (dec n)"
proof
  assume "0 \<le> n" and "CHR ''-'' \<in> set (dec n)"
  then have "is_digit CHR ''-''" by (rule dec_digits)
  then show False by (simp add: is_digit_def digit_val_def)
qed

lemma dec_inj: "0 \<le> m \<Longrightarrow> 0 \<le> n \<Longrightarrow> dec m = dec n \<Longrightarrow> m = n"
  by (metis dec_val_dec)

lemma fmt_d_inj [simp]: "fmt_d m = fmt_d n \<longleftrightarrow> m = n"
proof
  assume eq: "fmt_d m = fmt_d n"
  have "CHR ''-'' \<in> set (fmt_d m) \<longleftrightarrow> m < 0" for m
    by (simp add: fmt_d_def minus_notin_dec)
  with eq have "m < 0 \<longleftrightarrow> n < 0" by metis
  with eq show "m = n"
    using dec_inj [of m n] dec_inj [of "- m" "- n"] by (auto simp: fmt_d_def split: if_splits)
qed simp

text \<open>\<open>strconv.ParseUint(s, 10, 64)\<close>: digits only (base 10 takes no sign and no underscore), at most \<open>2^64 - 1\<close>.\<close>

definition ParseUint :: "string \<Rightarrow> u64 option" where
  "ParseUint s =
     (if s = [] \<or> \<not> list_all is_digit s \<or> dec_val s > 18446744073709551615 then None
      else Some (word_of_int (dec_val s)))"

lemma ParseUint_fmt_d [simp]: "ParseUint (fmt_d (uint (h :: u64))) = Some h"
proof -
  have "uint h \<le> 18446744073709551615"
    using uint_lt2p [of h] by simp
  then show ?thesis
    using dec_digits [of "uint h"] by (auto simp: ParseUint_def fmt_d_def dec_val_dec list_all_iff)
qed

section \<open>\<open>strings.TrimPrefix\<close> and \<open>strings.TrimSuffix\<close>\<close>

definition TrimPrefix :: "string \<Rightarrow> string \<Rightarrow> string" where
  "TrimPrefix s p = (if take (length p) s = p then drop (length p) s else s)"

definition TrimSuffix :: "string \<Rightarrow> string \<Rightarrow> string" where
  "TrimSuffix s p = (if length p \<le> length s \<and> drop (length s - length p) s = p then take (length s - length p) s else s)"

lemma TrimPrefix_append: "TrimPrefix (p @ s) p = s"
  by (simp add: TrimPrefix_def)

lemma TrimSuffix_append: "TrimSuffix (s @ p) p = s"
  by (simp add: TrimSuffix_def)

text \<open>
  \<open>Duration.String\<close>: the largest unit that keeps the leading digit non-zero, the fraction without
  trailing zeros.
\<close>

definition frac_digits :: "int \<Rightarrow> nat \<Rightarrow> string" where
  "frac_digits v prec =
     (let f = dec (v mod 10 ^ prec);
          s = rev (dropWhile (\<lambda>c. c = CHR ''0'') (rev (replicate (prec - length f) CHR ''0'' @ f)))
      in if s = [] then [] else CHR ''.'' # s)"

definition Duration_String :: "duration \<Rightarrow> string" where
  "Duration_String d =
     (let u = \<bar>d\<bar>; secs = u div 1000000000; h = secs div 3600; m = secs div 60 mod 60;
          txt = (if u = 0 then ''0s''
                 else if u < 1000 then dec u @ ''ns''
                 else if u < 1000000 then dec (u div 1000) @ frac_digits u 3 @ [CHR 0xC2, CHR 0xB5, CHR ''s'']
                 else if u < 1000000000 then dec (u div 1000000) @ frac_digits u 6 @ ''ms''
                 else (if h > 0 then dec h @ ''h'' @ dec m @ ''m'' else if m > 0 then dec m @ ''m'' else [])
                      @ dec (secs mod 60) @ frac_digits u 9 @ ''s'')
      in if d < 0 then CHR ''-'' # txt else txt)"

section \<open>Separators\<close>

lemma sep_inj:
  assumes "xs @ c # ys = xs' @ c # ys'" and "c \<notin> set xs" and "c \<notin> set xs'"
  shows "xs = xs' \<and> ys = ys'"
  using assms
proof (induction xs arbitrary: xs')
  case Nil
  then show ?case by (cases xs') auto
next
  case (Cons x xs)
  then show ?case by (cases xs') auto
qed

text \<open>A list of key/value entries, each closed by a separator, can be read back when the keys hold no
  first and the values no second separator.\<close>

definition entry :: "char \<Rightarrow> char \<Rightarrow> string \<times> string \<Rightarrow> string" where
  "entry c d kv = fst kv @ c # snd kv @ [d]"

lemma entry_pair [simp]: "entry c d (k, v) = k @ c # v @ [d]"
  by (simp add: entry_def)

lemma entry_nonempty [simp]: "entry c d kv \<noteq> []"
  by (simp add: entry_def)

lemma entries_inj:
  assumes "concat (map (entry c d) xs) = concat (map (entry c d) ys)"
    and "\<forall>(k, v) \<in> set xs. c \<notin> set k \<and> d \<notin> set v" and "\<forall>(k, v) \<in> set ys. c \<notin> set k \<and> d \<notin> set v"
  shows "xs = ys"
  using assms
proof (induction xs arbitrary: ys)
  case Nil
  then show ?case by (cases ys) auto
next
  case (Cons x xs)
  obtain k v where x: "x = (k, v)" by (cases x)
  from Cons.prems(1) obtain y ys' where ys: "ys = y # ys'" by (cases ys) auto
  obtain k' v' where y: "y = (k', v')" by (cases y)
  have eq: "k @ c # v @ d # concat (map (entry c d) xs) = k' @ c # v' @ d # concat (map (entry c d) ys')"
    using Cons.prems(1) x y ys by simp
  have clean: "c \<notin> set k" "c \<notin> set k'" "d \<notin> set v" "d \<notin> set v'"
    using Cons.prems x y ys by auto
  from sep_inj [OF eq clean(1,2)] have "k = k'"
    and "v @ d # concat (map (entry c d) xs) = v' @ d # concat (map (entry c d) ys')" by simp_all
  from this(1) sep_inj [OF this(2) clean(3,4)] Cons ys x y show ?case by simp
qed

section \<open>Sorted keys of a map\<close>

definition sorted_entries :: "('k::linorder, 'v) fmap \<Rightarrow> ('k \<times> 'v) list" where
  "sorted_entries m = map (\<lambda>k. (k, the (mapget m k))) (sorted_list_of_fset (fmdom m))"


lemma set_sorted_entries: "(k, v) \<in> set (sorted_entries m) \<longleftrightarrow> mapget m k = Some v"
  by (force simp: sorted_entries_def fmlookup_dom_iff)

lemma sorted_entries_inj: "sorted_entries m = sorted_entries m' \<Longrightarrow> m = m'"
  by (intro fmap_ext) (metis not_Some_eq set_sorted_entries)

section \<open>Big-endian bytes: \<open>encoding/binary\<close>\<close>

primrec be_bytes :: "nat \<Rightarrow> int \<Rightarrow> bytes" where
  "be_bytes 0 n = []"
| "be_bytes (Suc k) n = be_bytes k (n div 256) @ [char_of n]"

definition be_value :: "bytes \<Rightarrow> int" where
  "be_value bs = foldl (\<lambda>a b. a * 256 + of_char b) 0 bs"

lemma of_char_int_bounds: "0 \<le> (of_char c :: int)" "(of_char c :: int) < 256"
proof -
  have "(of_char c :: int) = int (of_char c)" by (simp only: of_nat_of_char)
  then show "0 \<le> (of_char c :: int)" "(of_char c :: int) < 256"
    by (simp_all only: of_nat_0_le_iff of_nat_less_numeral_iff nat_of_char_less_256)
qed

lemma length_be_bytes [simp]: "length (be_bytes k n) = k"
  by (induction k arbitrary: n) simp_all

lemma be_value_snoc [simp]: "be_value (bs @ [b]) = be_value bs * 256 + of_char b"
  by (simp add: be_value_def)

lemma be_value_Nil [simp]: "be_value [] = 0"
  by (simp add: be_value_def)

lemma be_value_be_bytes [codec_simps]: "be_value (be_bytes k n) = n mod 256 ^ k"
proof (induction k arbitrary: n)
  case (Suc k)
  have "n mod 256 ^ Suc k = 256 * (n div 256 mod 256 ^ k) + n mod 256"
    by (simp add: zmod_zmult2_eq)
  with Suc show ?case by simp
qed simp

lemma be_value_nonneg: "0 \<le> be_value bs"
  by (induction bs rule: rev_induct) (simp_all add: of_char_int_bounds)

lemma be_value_less: "be_value bs < 256 ^ length bs"
proof (induction bs rule: rev_induct)
  case (snoc b bs)
  then show ?case
    using of_char_int_bounds(2) [of b] by simp
qed simp

lemma char_of_append: "char_of (v * 256 + of_char b :: int) = b"
  by (simp add: char_of_eq_iff take_bit_eq_mod)

lemma be_bytes_be_value [codec_simps]: "be_bytes (length bs) (be_value bs) = bs"
proof (induction bs rule: rev_induct)
  case (snoc b bs)
  have "(be_value bs * 256 + of_char b) div 256 = be_value bs"
    using of_char_int_bounds [of b] by simp
  with snoc show ?case by (simp add: char_of_append)
qed simp

section \<open>Words\<close>

lemma sum_list_unat_fold:
  "unat (foldl (\<lambda>p x. p + f x) (p :: u64) xs) = (unat p + sum_list (map (\<lambda>x. unat (f x)) xs)) mod 2 ^ 64"
proof (induction xs arbitrary: p)
  case Nil
  have "unat p < 2 ^ 64" using unsigned_less [of p, where ?'a = nat] by simp
  then show ?case by simp
next
  case (Cons x xs)
  then show ?case by (simp add: unat_word_ariths mod_simps add.assoc)
qed

lemma unat_max64: "unat (- 1 :: u64) = 2 ^ 64 - 1"
  by (simp add: unsigned_minus_1_eq_mask mask_eq_exp_minus_1)

lemma unat_sub_max: "unat (18446744073709551615 - w :: u64) = 18446744073709551615 - unat w"
proof -
  have "w \<le> 18446744073709551615"
    using unsigned_less [of w, where ?'a = nat] by (simp add: word_le_nat_alt)
  then show ?thesis by (simp add: unat_sub)
qed

lemma unat_sum_exact:
  fixes f :: "'a \<Rightarrow> u64"
  assumes "finite A" and "(\<Sum>a \<in> A. unat (f a)) < 2 ^ 64"
  shows "unat (\<Sum>a \<in> A. f a) = (\<Sum>a \<in> A. unat (f a))"
  using assms
proof (induction A rule: finite_induct)
  case (insert x A)
  then show ?case by (simp add: unat_word_ariths)
qed simp

lemma word_le_iff_unat: "(a :: 'a::len word) \<le> b \<longleftrightarrow> unat a \<le> unat b"
  by (rule word_le_nat_alt)

lemma word_less_iff_unat: "(a :: 'a::len word) < b \<longleftrightarrow> unat a < unat b"
  by (rule word_less_nat_alt)

section \<open>Time\<close>

text \<open>
  Nanoseconds since 1 January of year 1, Go's zero time.  \<open>time.Unix(s, 0)\<close> adds the offset of
  the Unix epoch to the seconds in 64-bit arithmetic, which wraps around for a far future.
\<close>

definition time_IsZero :: "time \<Rightarrow> bool" where
  "time_IsZero t \<longleftrightarrow> t = 0"

definition unixToInternal :: i64 where
  "unixToInternal = 62135596800"

definition time_Unix :: "i64 \<Rightarrow> time" where
  "time_Unix s = sint (s + unixToInternal) * 1000000000"

definition Time_Unix :: "time \<Rightarrow> i64" where
  "Time_Unix t = word_of_int (t div 1000000000) - unixToInternal"

end
