(* ===== verification/Sha256_Vectors.thy ===== *)
theory Sha256_Vectors
  imports Sha256
begin

text \<open>
  A published test vector of SHA-256, computed by the kernel: evidence that the digest of the model
  is the one the program computes.
\<close>

lemma sha256_abc:
  "sha256Hex ''abc'' = ''ba7816bf8f01cfea414140de5dae2223b00361a396177a9cb410ff61f20015ad''"
  by code_simp

end
