(* ===== verification/Merkle.thy ===== *)
theory Merkle
  imports Sha256
begin

text \<open>
  Pairwise hashing of a list of digests, the scheme that \<open>chain_domain.MerkleRoot\<close>,
  \<open>proof.BuildTree\<close> and \<open>proof.Proof\<close> share: one level hashes neighbours together, the last
  digest of an odd level with itself, and levels are built until one digest is left.  The hash
  function is an argument; \<open>fixed_digest\<close> states what is needed of it, a fixed length of the
  digests, and is interpreted on \<^const>\<open>sha256Hex\<close>.
\<close>

section \<open>Levels and their reduction\<close>

fun pair_inputs :: "string list \<Rightarrow> bytes list" where
  "pair_inputs [] = []"
| "pair_inputs [x] = [x @ x]"
| "pair_inputs (x # y # xs) = (x @ y) # pair_inputs xs"

definition level :: "(bytes \<Rightarrow> string) \<Rightarrow> string list \<Rightarrow> string list" where
  "level H xs = map H (pair_inputs xs)"

lemma length_pair_inputs [simp]: "length (pair_inputs xs) = (length xs + 1) div 2"
  by (induction xs rule: pair_inputs.induct) auto

lemma level_Nil_iff [simp]: "level H xs = [] \<longleftrightarrow> xs = []"
  by (cases xs rule: pair_inputs.cases) (simp_all add: level_def)

lemma length_level [simp]: "length (level H xs) = (length xs + 1) div 2"
  by (simp add: level_def)

function reduce :: "(bytes \<Rightarrow> string) \<Rightarrow> string list \<Rightarrow> string list" where
  "reduce H xs = (if length xs > 1 then reduce H (level H xs) else xs)"
  by pat_completeness auto
termination
  by (relation "measure (\<lambda>(H, xs). length xs)") auto

declare reduce.simps [simp del]

text \<open>The byte strings that are hashed on the way.\<close>

function reduce_inputs :: "(bytes \<Rightarrow> string) \<Rightarrow> string list \<Rightarrow> bytes list" where
  "reduce_inputs H xs = (if length xs > 1 then pair_inputs xs @ reduce_inputs H (level H xs) else [])"
  by pat_completeness auto
termination
  by (relation "measure (\<lambda>(H, xs). length xs)") auto

declare reduce_inputs.simps [simp del]

definition collides :: "(bytes \<Rightarrow> string) \<Rightarrow> bytes list \<Rightarrow> bytes list \<Rightarrow> bool" where
  "collides H xs ys \<longleftrightarrow> (\<exists>x \<in> set xs. \<exists>y \<in> set ys. x \<noteq> y \<and> H x = H y)"

lemma collides_mono: "collides H xs ys \<Longrightarrow> set xs \<subseteq> set xs' \<Longrightarrow> set ys \<subseteq> set ys' \<Longrightarrow> collides H xs' ys'"
  by (auto simp: collides_def)

lemma collides_append:
  "collides H xs ys \<Longrightarrow> collides H (xs @ xs') (ys @ ys')"
  "collides H xs ys \<Longrightarrow> collides H (xs' @ xs) (ys' @ ys)"
  by (auto elim: collides_mono)

lemma map_eq_or_collides:
  "map H xs = map H ys \<Longrightarrow> xs = ys \<or> collides H xs ys"
proof (induction xs arbitrary: ys)
  case (Cons x xs)
  then obtain y ys' where "ys = y # ys'" "H x = H y" "map H xs = map H ys'"
    by (auto simp: Cons_eq_map_conv)
  with Cons.IH [of ys'] show ?case
    by (auto simp: collides_def)
qed auto

lemma length_reduce: "xs \<noteq> [] \<Longrightarrow> length (reduce H xs) = 1"
proof (induction H xs rule: reduce.induct)
  case (1 H xs)
  show ?case
  proof (cases "length xs > 1")
    case True
    with 1 show ?thesis by (simp add: reduce.simps [of H xs])
  next
    case False
    with "1.prems" show ?thesis by (cases xs) (simp_all add: reduce.simps)
  qed
qed

lemma reduce_nonempty: "xs \<noteq> [] \<Longrightarrow> reduce H xs \<noteq> []"
  using length_reduce [of xs H] by auto

section \<open>The duplicated last digest\<close>

lemma pair_inputs_dup_last: "odd (length xs) \<Longrightarrow> pair_inputs (xs @ [last xs]) = pair_inputs xs"
proof (induction xs rule: pair_inputs.induct)
  case (3 x y xs)
  then have "xs \<noteq> []" by auto
  with 3 show ?case by simp
qed simp_all

lemma level_dup_last: "odd (length xs) \<Longrightarrow> level H (xs @ [last xs]) = level H xs"
  by (simp add: level_def pair_inputs_dup_last)

lemma reduce_dup_last:
  assumes "odd (length xs)" and "1 < length xs"
  shows "reduce H (xs @ [last xs]) = reduce H xs"
proof -
  from assms(2) have "xs \<noteq> []" by auto
  with assms show ?thesis
    by (simp add: reduce.simps [of H xs] reduce.simps [of H "xs @ [last xs]"] level_dup_last)
qed

section \<open>Binding, for a hash with digests of a fixed length\<close>

lemma pair_inputs_inj:
  assumes "pair_inputs xs = pair_inputs ys" and "length xs = length ys"
    and "\<forall>x \<in> set xs. length x = k" and "\<forall>y \<in> set ys. length y = k"
  shows "xs = ys"
  using assms
proof (induction xs arbitrary: ys rule: pair_inputs.induct)
  case (2 x)
  then obtain y where "ys = [y]" by (cases ys rule: pair_inputs.cases) auto
  with 2 show ?case by simp
next
  case (3 x x' xs)
  then obtain y y' ys' where "ys = y # y' # ys'" by (cases ys rule: pair_inputs.cases) auto
  with 3 show ?case by simp
qed simp

locale fixed_digest =
  fixes H :: "bytes \<Rightarrow> string" and k :: nat
  assumes digest_length: "length (H m) = k"
begin

lemma level_digests: "\<forall>x \<in> set (level H xs). length x = k"
  by (simp add: level_def digest_length)

lemma reduce_hd_length:
  assumes "xs \<noteq> []" and "\<forall>x \<in> set xs. length x = k"
  shows "length (hd (reduce H xs)) = k"
  using assms
proof (induction "length xs" arbitrary: xs rule: less_induct)
  case less
  then show ?case
    using level_digests [of xs] by (cases "length xs > 1") (simp_all add: reduce.simps [of H xs])
qed

lemma reduce_binding:
  assumes "length xs = length ys"
    and "\<forall>x \<in> set xs. length x = k" and "\<forall>y \<in> set ys. length y = k"
    and "reduce H xs = reduce H ys"
  shows "xs = ys \<or> collides H (reduce_inputs H xs) (reduce_inputs H ys)"
  using assms
proof (induction "length xs" arbitrary: xs ys rule: less_induct)
  case less
  show ?case
  proof (cases "length xs > 1")
    case False
    with less.prems show ?thesis
      by (simp add: reduce.simps [of H xs] reduce.simps [of H ys])
  next
    case True
    note inp = reduce_inputs.simps [of H xs] reduce_inputs.simps [of H ys]
    have "level H xs = level H ys \<or> collides H (reduce_inputs H (level H xs)) (reduce_inputs H (level H ys))"
    proof (rule less.hyps)
      show "length (level H xs) < length xs" using True by simp
      show "reduce H (level H xs) = reduce H (level H ys)"
        using less.prems True by (simp add: reduce.simps [of H xs] reduce.simps [of H ys])
    qed (use less.prems level_digests in simp_all)
    then consider "map H (pair_inputs xs) = map H (pair_inputs ys)"
      | "collides H (reduce_inputs H (level H xs)) (reduce_inputs H (level H ys))"
      by (auto simp: level_def)
    then show ?thesis
    proof cases
      case 1
      then have "pair_inputs xs = pair_inputs ys \<or> collides H (pair_inputs xs) (pair_inputs ys)"
        by (rule map_eq_or_collides)
      then show ?thesis
        using pair_inputs_inj [of xs ys k] less.prems True inp
        by (auto simp: collides_append)
    next
      case 2
      then show ?thesis
        using less.prems True inp by (simp add: collides_append)
    qed
  qed
qed

end

interpretation sha: fixed_digest sha256Hex 64
  by unfold_locales simp

end
