(* ===== verification/Chain_Domain.thy ===== *)
theory Chain_Domain
  imports Merkle
begin

text \<open>
  \<open>internal/chain_domain\<close>: the data of the chain (\<open>types.go\<close>), its validation rules
  (\<open>validation.go\<close>); the records of \<open>extra.go\<close> are in \<open>Chain_Records\<close>.  A
  struct is a record whose fields carry the source's names behind a short prefix; an \<open>error\<close>
  result is \<open>None\<close> for \<open>nil\<close> and otherwise the error as a datatype value, whose text is given
  by a message function.
\<close>

section \<open>\<open>types.go\<close>: the data\<close>

record Validator =
  val_Address :: string
  val_Power :: u64
  val_PublicKey :: string

record Network =
  net_ID :: string
  net_Name :: string
  net_ChainID :: string
  net_Version :: u32
  net_Validators :: "Validator list"

record Tx =
  tx_ID :: string
  tx_From :: string
  tx_To :: string
  tx_Nonce :: u64
  tx_Fee :: u64
  tx_Gas :: u64
  tx_Key :: string
  tx_Value :: string
  tx_ExpiresAt :: i64
  tx_Size :: u32
  tx_Signature :: string

record Header =
  hdr_Height :: Height
  hdr_View :: View
  hdr_PrevHash :: string
  hdr_StateRoot :: string
  hdr_TxRoot :: string
  hdr_Proposer :: string
  hdr_Timestamp :: i64
  hdr_Version :: u32

record Vote =
  vote_Validator :: string
  vote_Height :: Height
  vote_View :: View
  vote_Type :: string
  vote_Signature :: string

record Block =
  blk_Header :: Header
  blk_Transactions :: "Tx list"
  blk_Commit :: "Vote list"
  blk_Hash :: string

record Snapshot =
  snap_ID :: string
  snap_Height :: Height
  snap_Root :: string
  snap_Data :: "(string, string) fmap"
  snap_CreatedAt :: time
  snap_Verified :: bool

text \<open>Zero values of the structs, as a missing map entry or a \<open>var\<close> declaration gives them.\<close>

definition zero_Header :: Header where
  "zero_Header = \<lparr>hdr_Height = 0, hdr_View = 0, hdr_PrevHash = '''', hdr_StateRoot = '''',
     hdr_TxRoot = '''', hdr_Proposer = '''', hdr_Timestamp = 0, hdr_Version = 0\<rparr>"

definition zero_Block :: Block where
  "zero_Block = \<lparr>blk_Header = zero_Header, blk_Transactions = [], blk_Commit = [], blk_Hash = ''''\<rparr>"

section \<open>\<open>types.go\<close>: hashes\<close>

definition Header_Bytes :: "Header \<Rightarrow> bytes" where
  "Header_Bytes h =
     fmt_d (uint (hdr_Height h)) @ ''|'' @ fmt_d (uint (hdr_View h)) @ ''|'' @ hdr_PrevHash h @ ''|'' @
     hdr_StateRoot h @ ''|'' @ hdr_TxRoot h @ ''|'' @ hdr_Proposer h @ ''|'' @
     fmt_d (sint (hdr_Timestamp h)) @ ''|'' @ fmt_d (uint (hdr_Version h))"

definition Header_Hash :: "Header \<Rightarrow> string" where
  "Header_Hash h = EncodeToString (Sum256 (Header_Bytes h))"

definition tx_bytes :: "Tx \<Rightarrow> bytes" where
  "tx_bytes t =
     tx_ID t @ ''|'' @ tx_From t @ ''|'' @ tx_To t @ ''|'' @ fmt_d (uint (tx_Nonce t)) @ ''|'' @
     fmt_d (uint (tx_Fee t)) @ ''|'' @ fmt_d (uint (tx_Gas t)) @ ''|'' @ tx_Key t @ ''|'' @ tx_Value t"

definition TxHash :: "Tx \<Rightarrow> string" where
  "TxHash t = EncodeToString (Sum256 (tx_bytes t))"

definition MerkleRoot :: "Tx list \<Rightarrow> string" where
  "MerkleRoot txs =
     (if length txs = 0 then sha256Hex []
      else hd (reduce sha256Hex (map TxHash txs)))"

definition Block_ComputeHash :: "Block \<Rightarrow> string" where
  "Block_ComputeHash b = Header_Hash (blk_Header b)"

section \<open>\<open>types.go\<close>: block validation and validator order\<close>

datatype block_error =
    HeightNotPositive | HeightDiscontinuity | PrevHashMismatch | TxRootMismatch | MissingHash

fun ValidateBlock :: "Block \<Rightarrow> Block option \<Rightarrow> block_error option" where
  "ValidateBlock b prev =
     (if hdr_Height (blk_Header b) = 0 then Some HeightNotPositive
      else case (case prev of
               None \<Rightarrow> None
             | Some p \<Rightarrow>
                 if hdr_Height (blk_Header b) \<noteq> hdr_Height (blk_Header p) + 1 then Some HeightDiscontinuity
                 else if hdr_PrevHash (blk_Header b) \<noteq> blk_Hash p then Some PrevHashMismatch
                 else None) of
        Some e \<Rightarrow> Some e
      | None \<Rightarrow>
          if hdr_TxRoot (blk_Header b) \<noteq> MerkleRoot (blk_Transactions b) then Some TxRootMismatch
          else if blk_Hash b = '''' then Some MissingHash
          else None)"

text \<open>
  \<open>sort.Slice\<close> does not fix the order of validators with equal addresses: the result is the
  stable sort of some rearrangement of the argument, given by \<open>shuf\<close>.
\<close>

definition validator_less :: "Validator \<Rightarrow> Validator \<Rightarrow> bool" where
  "validator_less a b \<longleftrightarrow> val_Address a < val_Address b"

definition SortValidators :: "(Validator list \<Rightarrow> Validator list) \<Rightarrow> Validator list \<Rightarrow> Validator list" where
  "SortValidators shuf v = sort_slice validator_less (shuf v)"

section \<open>\<open>validation.go\<close>\<close>

text \<open>
  \<open>strings.TrimSpace\<close>: the UTF-8 encodings of the characters \<open>unicode.IsSpace\<close> accepts are
  removed at both ends.
\<close>

definition space_runes :: "string list" where
  "space_runes =
     [[CHR 0x09], [CHR 0x0A], [CHR 0x0B], [CHR 0x0C], [CHR 0x0D], [CHR 0x20],
      [CHR 0xC2, CHR 0x85], [CHR 0xC2, CHR 0xA0], [CHR 0xE1, CHR 0x9A, CHR 0x80],
      [CHR 0xE2, CHR 0x80, CHR 0x80], [CHR 0xE2, CHR 0x80, CHR 0x81], [CHR 0xE2, CHR 0x80, CHR 0x82],
      [CHR 0xE2, CHR 0x80, CHR 0x83], [CHR 0xE2, CHR 0x80, CHR 0x84], [CHR 0xE2, CHR 0x80, CHR 0x85],
      [CHR 0xE2, CHR 0x80, CHR 0x86], [CHR 0xE2, CHR 0x80, CHR 0x87], [CHR 0xE2, CHR 0x80, CHR 0x88],
      [CHR 0xE2, CHR 0x80, CHR 0x89], [CHR 0xE2, CHR 0x80, CHR 0x8A], [CHR 0xE2, CHR 0x80, CHR 0xA8],
      [CHR 0xE2, CHR 0x80, CHR 0xA9], [CHR 0xE2, CHR 0x80, CHR 0xAF], [CHR 0xE2, CHR 0x81, CHR 0x9F],
      [CHR 0xE3, CHR 0x80, CHR 0x80]]"

definition strip_prefix :: "string list \<Rightarrow> string \<Rightarrow> string option" where
  "strip_prefix ps s =
     (case List.find (\<lambda>p. p \<noteq> [] \<and> take (length p) s = p) ps of
        None \<Rightarrow> None | Some p \<Rightarrow> Some (drop (length p) s))"

lemma strip_prefix_shorter: "strip_prefix ps s = Some s' \<Longrightarrow> length s' < length s"
  by (auto simp: strip_prefix_def find_Some_iff split: option.splits)
     (metis bot_nat_0.not_eq_extremum diff_less length_0_conv length_greater_0_conv take_eq_Nil)

function trim_left :: "string list \<Rightarrow> string \<Rightarrow> string" where
  "trim_left ps s = (case strip_prefix ps s of None \<Rightarrow> s | Some s' \<Rightarrow> trim_left ps s')"
  by pat_completeness auto
termination
  by (relation "measure (\<lambda>(ps, s). length s)") (auto dest: strip_prefix_shorter)

declare trim_left.simps [simp del]

definition TrimSpace :: "string \<Rightarrow> string" where
  "TrimSpace s = rev (trim_left (map rev space_runes) (rev (trim_left space_runes s)))"

datatype tx_error = FromRequired | ToRequired | InvalidGas | KeyValueTooLarge | NonceOverflow

fun tx_error_msg :: "tx_error \<Rightarrow> string" where
  "tx_error_msg FromRequired = ''from required''"
| "tx_error_msg ToRequired = ''to required''"
| "tx_error_msg InvalidGas = ''invalid gas''"
| "tx_error_msg KeyValueTooLarge = ''key/value too large''"
| "tx_error_msg NonceOverflow = ''nonce overflow''"

definition ValidateTx :: "Tx \<Rightarrow> tx_error option" where
  "ValidateTx t =
     (if TrimSpace (tx_From t) = '''' then Some FromRequired
      else if TrimSpace (tx_To t) = '''' then Some ToRequired
      else if tx_Gas t = 0 \<or> tx_Gas t > 4294967295 then Some InvalidGas
      else if length (tx_Key t) > 256 \<or> length (tx_Value t) > 4096 then Some KeyValueTooLarge
      else if tx_Nonce t = 18446744073709551615 then Some NonceOverflow
      else None)"

datatype network_error = NetworkIdentityRequired | ValidatorSetEmpty | InvalidValidator | PowerOverflow

fun check_powers :: "u64 \<Rightarrow> Validator list \<Rightarrow> network_error option" where
  "check_powers tot [] = None"
| "check_powers tot (v # vs) =
     (if val_Address v = '''' \<or> val_Power v = 0 then Some InvalidValidator
      else if 18446744073709551615 - tot < val_Power v then Some PowerOverflow
      else check_powers (tot + val_Power v) vs)"

definition ValidateNetwork :: "Network \<Rightarrow> network_error option" where
  "ValidateNetwork n =
     (if net_ID n = '''' \<or> net_ChainID n = '''' then Some NetworkIdentityRequired
      else if length (net_Validators n) = 0 then Some ValidatorSetEmpty
      else check_powers 0 (net_Validators n))"

definition total_power :: "Validator list \<Rightarrow> u64" where
  "total_power v = foldl (\<lambda>p x. p + val_Power x) 0 v"

definition Quorum :: "Validator list \<Rightarrow> u64" where
  "Quorum v = (total_power v * 2) div 3 + 1"

definition power_map :: "Validator list \<Rightarrow> (string, u64) fmap" where
  "power_map v = foldl (\<lambda>m x. fmupd (val_Address x) (val_Power x) m) fmempty v"

fun count_votes :: "(string, u64) fmap \<Rightarrow> string fset \<Rightarrow> u64 \<Rightarrow> Vote list \<Rightarrow> u64" where
  "count_votes powers seen got [] = got"
| "count_votes powers seen got (x # xs) =
     (if vote_Validator x |\<notin>| seen
      then count_votes powers (finsert (vote_Validator x) seen)
             (got + mapget0 0 powers (vote_Validator x)) xs
      else count_votes powers seen got xs)"

definition HasQuorum :: "Validator list \<Rightarrow> Vote list \<Rightarrow> bool" where
  "HasQuorum v votes = (count_votes (power_map v) {||} 0 votes \<ge> Quorum v)"

section \<open>What the hashes commit to\<close>

lemma Header_Hash_eq: "Header_Hash h = sha256Hex (Header_Bytes h)"
  by (simp add: Header_Hash_def sha256Hex_def)

lemma TxHash_eq: "TxHash t = sha256Hex (tx_bytes t)"
  by (simp add: TxHash_def sha256Hex_def)

lemma length_TxHash [simp]: "length (TxHash t) = 64"
  by (simp add: TxHash_eq)

lemma map_TxHash: "map TxHash txs = map sha256Hex (map tx_bytes txs)"
  by (simp add: TxHash_eq)

definition merkle_root_inputs :: "Tx list \<Rightarrow> bytes list" where
  "merkle_root_inputs txs = map tx_bytes txs @ reduce_inputs sha256Hex (map TxHash txs)"

lemma MerkleRoot_nonempty [simp]: "MerkleRoot txs \<noteq> []"
proof (cases "txs = []")
  case False
  then have "length (hd (reduce sha256Hex (map TxHash txs))) = 64"
    by (intro sha.reduce_hd_length) auto
  with False show ?thesis by (auto simp: MerkleRoot_def)
qed (simp add: MerkleRoot_def)

lemma hd_reduce_eq:
  assumes "xs \<noteq> []" and "ys \<noteq> []" and "hd (reduce H xs) = hd (reduce H ys)"
  shows "reduce H xs = reduce H ys"
  using assms length_reduce [of xs H] length_reduce [of ys H]
  by (auto simp: length_Suc_conv)

lemma MerkleRoot_committed:
  assumes "length txs = length txs'" and "MerkleRoot txs = MerkleRoot txs'"
  shows "map tx_bytes txs = map tx_bytes txs' \<or>
    collides sha256Hex (merkle_root_inputs txs) (merkle_root_inputs txs')"
proof (cases "txs = []")
  case True
  with assms show ?thesis by simp
next
  case False
  with assms have "txs' \<noteq> []" by auto
  with False assms have "reduce sha256Hex (map TxHash txs) = reduce sha256Hex (map TxHash txs')"
    by (intro hd_reduce_eq) (auto simp: MerkleRoot_def)
  then consider "map TxHash txs = map TxHash txs'"
    | "collides sha256Hex (reduce_inputs sha256Hex (map TxHash txs)) (reduce_inputs sha256Hex (map TxHash txs'))"
    using assms(1) sha.reduce_binding [of "map TxHash txs" "map TxHash txs'"] by auto
  then show ?thesis
  proof cases
    case 1
    then have "map sha256Hex (map tx_bytes txs) = map sha256Hex (map tx_bytes txs')"
      by (simp only: map_TxHash)
    from map_eq_or_collides [OF this] show ?thesis
      unfolding merkle_root_inputs_def by (auto simp: collides_append)
  next
    case 2
    then show ?thesis by (simp add: merkle_root_inputs_def collides_append)
  qed
qed

definition pipe_free :: "string \<Rightarrow> bool" where
  "pipe_free s \<longleftrightarrow> CHR ''|'' \<notin> set s"

lemma pipe_eq:
  "pipe_free xs \<Longrightarrow> pipe_free xs' \<Longrightarrow> xs @ CHR ''|'' # ys = xs' @ CHR ''|'' # ys' \<longleftrightarrow> xs = xs' \<and> ys = ys'"
  unfolding pipe_free_def using sep_inj by metis

lemma pipe_free_simps [simp]: "pipe_free (fmt_d n)" "pipe_free (sha256Hex m)" "pipe_free []"
  by (simp_all add: pipe_free_def)

definition header_pipe_free :: "Header \<Rightarrow> bool" where
  "header_pipe_free h \<longleftrightarrow> pipe_free (hdr_PrevHash h) \<and> pipe_free (hdr_StateRoot h) \<and>
     pipe_free (hdr_TxRoot h) \<and> pipe_free (hdr_Proposer h)"

lemma Header_Bytes_inj:
  assumes "header_pipe_free h" and "header_pipe_free h'" and "Header_Bytes h = Header_Bytes h'"
  shows "h = h'"
  using assms
  by (intro Header.equality)
     (auto simp: Header_Bytes_def header_pipe_free_def pipe_eq intro: signed_word_eqI unsigned_word_eqI)

section \<open>Voting power\<close>

definition power_sum :: "Validator list \<Rightarrow> nat" where
  "power_sum v = sum_list (map (\<lambda>x. unat (val_Power x)) v)"

lemma unat_total_power: "unat (total_power v) = power_sum v mod 2 ^ 64"
  by (simp add: total_power_def power_sum_def sum_list_unat_fold)

lemma check_powers_None_iff:
  "check_powers tot vs = None \<longleftrightarrow>
     (\<forall>v \<in> set vs. val_Address v \<noteq> '''' \<and> val_Power v \<noteq> 0) \<and> unat tot + power_sum vs < 2 ^ 64"
proof (induction vs arbitrary: tot)
  case Nil
  then show ?case using unsigned_less [of tot, where ?'a = nat] by (simp add: power_sum_def)
next
  case (Cons v vs)
  have fits: "\<not> 18446744073709551615 - tot < val_Power v \<longleftrightarrow> unat tot + unat (val_Power v) < 2 ^ 64"
    unfolding word_less_nat_alt using unat_sub_max [of tot] unsigned_less [of tot, where ?'a = nat] by auto
  then have "unat (tot + val_Power v) = unat tot + unat (val_Power v)"
    if "\<not> 18446744073709551615 - tot < val_Power v"
    using that by (simp add: unat_word_ariths)
  with Cons fits show ?case by (auto simp: power_sum_def)
qed

lemma unat_Quorum:
  assumes "2 * power_sum v < 2 ^ 64"
  shows "unat (Quorum v) = 2 * power_sum v div 3 + 1"
proof -
  have "unat (total_power v) = power_sum v"
    using assms by (simp add: unat_total_power)
  then have "unat (total_power v * 2) = 2 * power_sum v"
    using assms by (simp add: unat_word_ariths)
  with assms show ?thesis
    by (simp add: Quorum_def unat_word_ariths unat_div)
qed

lemma count_votes_sum:
  "count_votes powers seen got votes =
     got + (\<Sum>a \<in> vote_Validator ` set votes - fset seen. mapget0 0 powers a)"
proof (induction votes arbitrary: seen got)
  case (Cons x xs)
  let ?v = "vote_Validator x"
  show ?case
  proof (cases "?v |\<in>| seen")
    case True
    then have "vote_Validator ` set (x # xs) - fset seen = vote_Validator ` set xs - fset seen"
      by auto
    with True Cons show ?thesis by simp
  next
    case False
    then have "vote_Validator ` set (x # xs) - fset seen =
        insert ?v (vote_Validator ` set xs - fset (finsert ?v seen))"
      by auto
    with False Cons show ?thesis by (simp add: add.assoc)
  qed
qed simp

lemma mapget_power_fold_stranger:
  "a \<notin> val_Address ` set v \<Longrightarrow>
   mapget (foldl (\<lambda>m x. fmupd (val_Address x) (val_Power x) m) m v) a = mapget m a"
  by (induction v arbitrary: m) auto

lemma mapget_power_fold_member:
  "distinct (map val_Address v) \<Longrightarrow> x \<in> set v \<Longrightarrow>
   mapget (foldl (\<lambda>m x. fmupd (val_Address x) (val_Power x) m) m v) (val_Address x) = Some (val_Power x)"
  by (induction v arbitrary: m) (auto simp: mapget_power_fold_stranger)

definition vote_weight :: "Validator list \<Rightarrow> string \<Rightarrow> nat" where
  "vote_weight v a = unat (mapget0 0 (power_map v) a)"

lemma vote_weight_member:
  "distinct (map val_Address v) \<Longrightarrow> x \<in> set v \<Longrightarrow> vote_weight v (val_Address x) = unat (val_Power x)"
  by (simp add: vote_weight_def mapget0_def power_map_def mapget_power_fold_member)

lemma vote_weight_stranger: "a \<notin> val_Address ` set v \<Longrightarrow> vote_weight v a = 0"
  by (simp add: vote_weight_def mapget0_def power_map_def mapget_power_fold_stranger)

lemma sum_vote_weight:
  assumes "distinct (map val_Address v)"
  shows "(\<Sum>a \<in> val_Address ` set v \<inter> S. vote_weight v a) = power_sum (filter (\<lambda>x. val_Address x \<in> S) v)"
proof -
  let ?f = "filter (\<lambda>x. val_Address x \<in> S) v"
  have dist: "distinct (map val_Address ?f)" "distinct ?f"
    using assms by (simp_all add: distinct_map inj_on_def)
  have "val_Address ` set v \<inter> S = val_Address ` set ?f" by auto
  then have "(\<Sum>a \<in> val_Address ` set v \<inter> S. vote_weight v a) = (\<Sum>x \<in> set ?f. vote_weight v (val_Address x))"
    using dist(1) by (simp add: sum.reindex distinct_map del: set_filter)
  also have "\<dots> = (\<Sum>x \<in> set ?f. unat (val_Power x))"
    using assms by (intro sum.cong) (auto simp: vote_weight_member)
  also have "\<dots> = power_sum ?f"
    unfolding power_sum_def using dist(2) by (simp only: sum_list_distinct_conv_sum_set)
  finally show ?thesis .
qed

lemma power_sum_filter_le: "power_sum (filter P v) \<le> power_sum v"
  unfolding power_sum_def by (induction v) auto

text \<open>
  The voters of a list of votes reach the quorum exactly when their exact power does.
\<close>

lemma HasQuorum_exact:
  assumes dist: "distinct (map val_Address v)" and fits: "2 * power_sum v < 2 ^ 64"
  shows "HasQuorum v votes \<longleftrightarrow>
    2 * power_sum v < 3 * power_sum (filter (\<lambda>x. val_Address x \<in> vote_Validator ` set votes) v)"
proof -
  let ?S = "vote_Validator ` set votes"
  let ?got = "power_sum (filter (\<lambda>x. val_Address x \<in> ?S) v)"
  have zero: "\<forall>a \<in> ?S - val_Address ` set v \<inter> ?S. vote_weight v a = 0"
  proof
    fix a assume "a \<in> ?S - val_Address ` set v \<inter> ?S"
    then show "vote_weight v a = 0" by (intro vote_weight_stranger) blast
  qed
  have "(\<Sum>a \<in> ?S. vote_weight v a) = (\<Sum>a \<in> val_Address ` set v \<inter> ?S. vote_weight v a)"
    by (rule sum.mono_neutral_right [OF _ _ zero]) simp_all
  then have sum: "(\<Sum>a \<in> ?S. unat (mapget0 0 (power_map v) a)) = ?got"
    unfolding sum_vote_weight [OF dist] by (simp add: vote_weight_def)
  have "?got < 2 ^ 64"
    using fits power_sum_filter_le [of "\<lambda>x. val_Address x \<in> ?S" v] by linarith
  then have "unat (count_votes (power_map v) {||} 0 votes) = ?got"
    using sum by (simp add: count_votes_sum unat_sum_exact)
  then show ?thesis
    unfolding HasQuorum_def word_le_nat_alt unat_Quorum [OF fits] by linarith
qed

section \<open>The quorum contract\<close>

text \<open>
  What a client of a voting rule relies on: an accepted set of voters holds more than two
  thirds of the weight.  Then any two accepted sets share more than a third of it.
\<close>

locale quorum_rule =
  fixes valid :: "'c \<Rightarrow> bool" and members :: "'c \<Rightarrow> 'v set" and weight :: "'c \<Rightarrow> 'v \<Rightarrow> nat"
    and accepted :: "'c \<Rightarrow> 'v set \<Rightarrow> bool"
  assumes finite_members: "finite (members c)"
    and two_thirds: "valid c \<Longrightarrow> accepted c S \<Longrightarrow>
      2 * (\<Sum>a \<in> members c. weight c a) < 3 * (\<Sum>a \<in> members c \<inter> S. weight c a)"
begin

lemma overlap:
  assumes "valid c" and "accepted c S" and "accepted c T"
  shows "(\<Sum>a \<in> members c. weight c a) < 3 * (\<Sum>a \<in> members c \<inter> (S \<inter> T). weight c a)"
proof -
  let ?w = "\<lambda>A. \<Sum>a \<in> A. weight c a"
  let ?M = "members c"
  have "?w (?M \<inter> S) + ?w (?M \<inter> T) = ?w (?M \<inter> S \<union> ?M \<inter> T) + ?w (?M \<inter> S \<inter> (?M \<inter> T))"
    by (rule sum.union_inter [symmetric]) (simp_all add: finite_members)
  moreover have "?w (?M \<inter> S \<union> ?M \<inter> T) \<le> ?w ?M"
    by (rule sum_mono2) (auto simp: finite_members)
  moreover have "?M \<inter> S \<inter> (?M \<inter> T) = ?M \<inter> (S \<inter> T)"
    by auto
  ultimately show ?thesis
    using two_thirds [OF assms(1,2)] two_thirds [OF assms(1,3)] by simp
qed

end

definition quorum_safe :: "Validator list \<Rightarrow> bool" where
  "quorum_safe v \<longleftrightarrow> distinct (map val_Address v) \<and> 2 * power_sum v < 2 ^ 64"

interpretation has_quorum: quorum_rule quorum_safe "\<lambda>v. val_Address ` set v" vote_weight
  "\<lambda>v S. \<exists>votes. S = vote_Validator ` set votes \<and> HasQuorum v votes"
proof
  fix v S
  assume v: "quorum_safe v" and "\<exists>votes. S = vote_Validator ` set votes \<and> HasQuorum v votes"
  then obtain votes where "S = vote_Validator ` set votes" and "HasQuorum v votes" by blast
  then show "2 * (\<Sum>a \<in> val_Address ` set v. vote_weight v a)
      < 3 * (\<Sum>a \<in> val_Address ` set v \<inter> S. vote_weight v a)"
    using v sum_vote_weight [of v UNIV] sum_vote_weight [of v S] HasQuorum_exact [of v votes]
    by (simp add: quorum_safe_def)
qed simp

section \<open>The order of validators\<close>

interpretation validator_order: slice_less validator_less
  unfolding validator_less_def by (rule slice_less_key)

lemma validator_less_key: "validator_less = (\<lambda>a b. val_Address a < val_Address b)"
  by (auto simp: validator_less_def fun_eq_iff)

lemma sorted_distinct_key_unique:
  fixes f :: "'a \<Rightarrow> 'b::linorder"
  assumes "mset xs = mset ys" and "distinct (map f xs)"
  shows "sort_key f xs = sort_key f ys"
proof -
  have eq: "set xs = set ys" using assms(1) by (metis set_mset_mset)
  have "distinct (map f (sort_key f xs))" "distinct (map f (sort_key f ys))"
    using assms by (metis mset_map mset_sort mset_eq_imp_distinct_iff)+
  then have "map f (sort_key f xs) = map f (sort_key f ys)"
    by (intro sorted_distinct_set_unique) (simp_all add: eq)
  then show ?thesis
    using assms(2) by (auto intro: map_inj_on simp: distinct_map eq)
qed

section \<open>Properties\<close>

text \<open>C7: Quorum safety. If the addresses are distinct and twice the total power fits in 64 bits, two
  lists of votes that both satisfy \<open>HasQuorum\<close> have voters in common who hold more than a third of
  the power, counted exactly.\<close>

theorem HasQuorum_overlap:
  assumes "distinct (map val_Address v)" and "2 * power_sum v < 2 ^ 64"
    and "HasQuorum v A" and "HasQuorum v B"
  shows "power_sum v <
    3 * power_sum (filter (\<lambda>x. val_Address x \<in> vote_Validator ` set A \<inter> vote_Validator ` set B) v)"
proof -
  have "quorum_safe v" using assms by (simp add: quorum_safe_def)
  from has_quorum.overlap [OF this, of "vote_Validator ` set A" "vote_Validator ` set B"] show ?thesis
    using assms(3,4) sum_vote_weight [OF assms(1), of UNIV]
      sum_vote_weight [OF assms(1), of "vote_Validator ` set A \<inter> vote_Validator ` set B"]
    by auto
qed

definition example_validators :: "Validator list" where
  "example_validators = map (\<lambda>a. \<lparr>val_Address = a, val_Power = 1, val_PublicKey = ''''\<rparr>) [''a'', ''b'', ''c'']"

definition example_vote :: "string \<Rightarrow> Vote" where
  "example_vote a = \<lparr>vote_Validator = a, vote_Height = 1, vote_View = 0, vote_Type = ''commit'', vote_Signature = ''s''\<rparr>"

theorem HasQuorum_overlap_witness:
  "HasQuorum example_validators (map example_vote [''a'', ''b'', ''c'']) \<and>
   power_sum example_validators < 3 * power_sum (filter (\<lambda>x. val_Address x \<in>
     vote_Validator ` set (map example_vote [''a'', ''b'', ''c'']) \<inter>
     vote_Validator ` set (map example_vote [''a'', ''b'', ''c''])) example_validators)"
proof -
  let ?A = "map example_vote [''a'', ''b'', ''c'']"
  have q: "HasQuorum example_validators ?A"
    by (simp add: HasQuorum_def Quorum_def total_power_def power_map_def mapget0_def
        example_validators_def example_vote_def)
  have "distinct (map val_Address example_validators)" "2 * power_sum example_validators < 2 ^ 64"
    by (simp_all add: example_validators_def power_sum_def)
  from HasQuorum_overlap [OF this q q] q show ?thesis by simp
qed

text \<open>The quorum threshold is computed in 64-bit arithmetic and wraps around. There is a network that
  \<open>ValidateNetwork\<close> accepts, with distinct addresses, whose quorum is 1, so that two validators
  without any voter in common each satisfy \<open>HasQuorum\<close> alone.\<close>

theorem Quorum_wraps_around:
  "\<exists>n votes votes'. ValidateNetwork n = None \<and> distinct (map val_Address (net_Validators n)) \<and>
     Quorum (net_Validators n) = 1 \<and>
     HasQuorum (net_Validators n) votes \<and> HasQuorum (net_Validators n) votes' \<and>
     vote_Validator ` set votes \<inter> vote_Validator ` set votes' = {}"
proof (intro exI conjI)
  let ?v = "[\<lparr>val_Address = ''a'', val_Power = 9223372036854775807, val_PublicKey = ''''\<rparr>,
             \<lparr>val_Address = ''b'', val_Power = 1, val_PublicKey = ''''\<rparr>]"
  let ?n = "\<lparr>net_ID = ''n'', net_Name = '''', net_ChainID = ''c'', net_Version = 1, net_Validators = ?v\<rparr>"
  show "ValidateNetwork ?n = None" by (simp add: ValidateNetwork_def)
  show "distinct (map val_Address (net_Validators ?n))" by simp
  show "Quorum (net_Validators ?n) = 1" by (simp add: Quorum_def total_power_def)
  show "HasQuorum (net_Validators ?n) [example_vote ''a'']"
    and "HasQuorum (net_Validators ?n) [example_vote ''b'']"
    by (simp_all add: HasQuorum_def Quorum_def total_power_def power_map_def mapget0_def example_vote_def)
  show "vote_Validator ` set [example_vote ''a''] \<inter> vote_Validator ` set [example_vote ''b''] = {}"
    by (simp add: example_vote_def)
qed

text \<open>C38: \<open>ValidateNetwork\<close> accepts a network exactly when it is named, has validators, each with an address
  and power, and the exact sum of the powers fits in 64 bits, so that the overflow check of its loop
  misses no overflow and raises no false one.\<close>

theorem ValidateNetwork_accepts_iff:
  "ValidateNetwork n = None \<longleftrightarrow>
     net_ID n \<noteq> '''' \<and> net_ChainID n \<noteq> '''' \<and> net_Validators n \<noteq> [] \<and>
     (\<forall>v \<in> set (net_Validators n). val_Address v \<noteq> '''' \<and> val_Power v \<noteq> 0) \<and>
     power_sum (net_Validators n) < 2 ^ 64"
  by (simp add: ValidateNetwork_def check_powers_None_iff)

theorem ValidateNetwork_accepts_iff_witness:
  "ValidateNetwork \<lparr>net_ID = ''n'', net_Name = '''', net_ChainID = ''c'', net_Version = 1,
     net_Validators = example_validators\<rparr> = None"
  unfolding ValidateNetwork_accepts_iff by (simp add: example_validators_def power_sum_def)

text \<open>C17: The transaction root commits to the transactions. Two lists of the same length with the same
  \<open>MerkleRoot\<close> agree on everything \<open>TxHash\<close> hashes, or two of the byte strings hashed on the way
  are different and have the same SHA-256 digest.\<close>

theorem MerkleRoot_binding:
  assumes "length txs = length txs'" and "MerkleRoot txs = MerkleRoot txs'"
  shows "map tx_bytes txs = map tx_bytes txs' \<or>
    (\<exists>x \<in> set (merkle_root_inputs txs). \<exists>y \<in> set (merkle_root_inputs txs').
       x \<noteq> y \<and> sha256Hex x = sha256Hex y)"
  using MerkleRoot_committed [OF assms] unfolding collides_def .

definition example_tx :: Tx where
  "example_tx = \<lparr>tx_ID = ''t1'', tx_From = ''alice'', tx_To = ''state'', tx_Nonce = 1, tx_Fee = 2, tx_Gas = 1000,
     tx_Key = ''demo'', tx_Value = ''ok'', tx_ExpiresAt = 0, tx_Size = 10, tx_Signature = ''sig''\<rparr>"

lemma tx_bytes_unsigned: "tx_bytes (t\<lparr>tx_Signature := s\<rparr>) = tx_bytes t"
  by (simp add: tx_bytes_def)

theorem MerkleRoot_binding_witness:
  "length [example_tx] = length [example_tx\<lparr>tx_Signature := ''forged''\<rparr>] \<and>
   (map tx_bytes [example_tx] = map tx_bytes [example_tx\<lparr>tx_Signature := ''forged''\<rparr>] \<or>
    (\<exists>x \<in> set (merkle_root_inputs [example_tx]).
       \<exists>y \<in> set (merkle_root_inputs [example_tx\<lparr>tx_Signature := ''forged''\<rparr>]).
         x \<noteq> y \<and> sha256Hex x = sha256Hex y))"
proof -
  have "MerkleRoot [example_tx] = MerkleRoot [example_tx\<lparr>tx_Signature := ''forged''\<rparr>]"
    by (simp add: MerkleRoot_def TxHash_eq tx_bytes_unsigned)
  from MerkleRoot_binding [OF _ this] show ?thesis by simp
qed

text \<open>The transaction root does not commit to the number of transactions: repeating the last one of an
  odd list of at least three leaves \<open>MerkleRoot\<close> unchanged.\<close>

theorem MerkleRoot_repeated_last:
  assumes "odd (length txs)" and "1 < length txs"
  shows "MerkleRoot (txs @ [last txs]) = MerkleRoot txs"
proof -
  from assms(2) have "txs \<noteq> []" by auto
  then have "map TxHash (txs @ [last txs]) = map TxHash txs @ [last (map TxHash txs)]"
    by (simp add: last_map)
  with \<open>txs \<noteq> []\<close> show ?thesis
    using assms reduce_dup_last [of "map TxHash txs" sha256Hex] by (simp add: MerkleRoot_def)
qed

theorem MerkleRoot_repeated_last_witness:
  "MerkleRoot ([example_tx, example_tx, example_tx] @ [last [example_tx, example_tx, example_tx]]) =
   MerkleRoot [example_tx, example_tx, example_tx]"
  by (rule MerkleRoot_repeated_last) simp_all

text \<open>C18: A block hash commits to the header. If two headers whose text fields hold no \<open>|\<close> have the same
  hash, they are equal or their encodings are a SHA-256 collision.\<close>

theorem Header_Hash_binding:
  assumes "header_pipe_free h" and "header_pipe_free h'" and "Header_Hash h = Header_Hash h'"
  shows "h = h' \<or> (Header_Bytes h \<noteq> Header_Bytes h' \<and> sha256Hex (Header_Bytes h) = sha256Hex (Header_Bytes h'))"
  using assms Header_Bytes_inj [of h h'] by (auto simp: Header_Hash_eq)

theorem Header_Hash_binding_witness:
  "header_pipe_free zero_Header \<and> (zero_Header = zero_Header \<or>
     (Header_Bytes zero_Header \<noteq> Header_Bytes zero_Header \<and>
      sha256Hex (Header_Bytes zero_Header) = sha256Hex (Header_Bytes zero_Header)))"
proof -
  have p: "header_pipe_free zero_Header" by (simp add: header_pipe_free_def zero_Header_def)
  from Header_Hash_binding [OF p p refl] p show ?thesis by simp
qed

text \<open>\<open>SortValidators\<close> returns a rearrangement of its argument in ascending order of address; where the
  addresses are distinct the result does not depend on how the sort treats its input.\<close>

theorem SortValidators_sorted:
  assumes "mset (shuf v) = mset v"
  shows "mset (SortValidators shuf v) = mset v \<and> sorted (map val_Address (SortValidators shuf v)) \<and>
    (distinct (map val_Address v) \<longrightarrow> SortValidators shuf v = SortValidators id v)"
proof (intro conjI impI)
  show "mset (SortValidators shuf v) = mset v"
    using assms by (simp add: SortValidators_def)
  show "sorted (map val_Address (SortValidators shuf v))"
    by (simp add: SortValidators_def validator_less_key sort_slice_key)
  assume "distinct (map val_Address v)"
  then show "SortValidators shuf v = SortValidators id v"
    using sorted_distinct_key_unique [of v "shuf v" val_Address] assms
    by (simp add: SortValidators_def validator_less_key sort_slice_key)
qed

theorem SortValidators_sorted_witness:
  "mset (rev example_validators) = mset example_validators \<and>
   SortValidators rev example_validators = SortValidators id example_validators"
proof -
  have "distinct (map val_Address example_validators)" by (simp add: example_validators_def)
  with SortValidators_sorted [of rev example_validators] show ?thesis by simp
qed

end
