(* ===== verification/Chain_Records.thy ===== *)
theory Chain_Records
  imports Chain_Domain
begin

text \<open>
  \<open>internal/chain_domain/extra.go\<close>: the protocol limits, the chain configuration and the records
  for accounts, peers, synchronisation, rollback, upgrades, key rotation, auditing and events, with
  their validity checks.  A check that calls \<open>time.Now()\<close> takes the current time as an argument.
\<close>

section \<open>Limits and records\<close>

definition MaxValidators :: int where "MaxValidators = 128"
definition MaxTxPerBlock :: int where "MaxTxPerBlock = 4096"
definition MaxKeyBytes :: int where "MaxKeyBytes = 256"
definition MaxValueBytes :: int where "MaxValueBytes = 4096"
definition MaxPeers :: int where "MaxPeers = 1024"
definition MaxSnapshotEntries :: int where "MaxSnapshotEntries = 1000000"

record ChainConfig =
  cc_Version :: u32
  cc_BlockTime :: duration
  cc_MaxBlockBytes :: int
  cc_MaxGas :: u64
  cc_MinFee :: u64
  cc_EpochLength :: Height
  cc_EnableProofs :: bool
  cc_EnableSnapshots :: bool

definition DefaultChainConfig :: ChainConfig where
  "DefaultChainConfig = \<lparr>cc_Version = 1, cc_BlockTime = 2 * 1000000000, cc_MaxBlockBytes = 2 * 2 ^ 20,
     cc_MaxGas = 10000000, cc_MinFee = 1, cc_EpochLength = 100, cc_EnableProofs = True, cc_EnableSnapshots = True\<rparr>"

record Account =
  acct_Address :: string
  acct_Balance :: u64
  acct_Nonce :: u64
  acct_CodeHash :: string
  acct_StorageRoot :: string
  acct_Frozen :: bool
  acct_UpdatedAt :: time

record StateRoot =
  sr_Height :: Height
  sr_Hash :: string
  sr_Algorithm :: string
  sr_Version :: u32
  sr_EntryCount :: u64
  sr_CreatedAt :: time

record Checkpoint =
  cp_Height :: Height
  cp_BlockHash :: string
  cp_StateRoot :: string
  cp_Validators :: "Validator list"
  cp_Signature :: string
  cp_CreatedAt :: time

record PeerRecord =
  pr_ID :: string
  pr_Address :: string
  pr_Version :: string
  pr_Capabilities :: "string list"
  pr_Score :: i64
  pr_Failures :: u32
  pr_ConnectedAt :: time
  pr_LastSeen :: time
  pr_BannedUntil :: time

record SyncPlan =
  sp_PeerID :: string
  sp_From :: Height
  sp_To :: Height
  sp_ChunkSize :: u64
  sp_MaxBytes :: u64
  sp_VerifyHeaders :: bool
  sp_VerifyTransactions :: bool
  sp_VerifyStateRoots :: bool

record RollbackPlan =
  rp_Target :: Height
  rp_Current :: Height
  rp_Reason :: string
  rp_RequiredVotes :: u64
  rp_PreparedBy :: string
  rp_PreparedAt :: time
  rp_Approved :: bool

record UpgradeMarker =
  um_FromVersion :: u32
  um_ToVersion :: u32
  um_ActivationHeight :: Height
  um_Digest :: string
  um_Migrated :: bool
  um_AppliedAt :: time

record KeyRotation =
  kr_Validator :: string
  kr_OldKey :: string
  kr_NewKey :: string
  kr_EffectiveHeight :: Height
  kr_Proof :: string
  kr_Revoked :: bool

record AuditRecord =
  ar_Sequence :: u64
  ar_Action :: string
  ar_Actor :: string
  ar_Resource :: string
  ar_PayloadHash :: string
  ar_PreviousHash :: string
  ar_Hash :: string
  ar_At :: time

section \<open>Validity checks\<close>

definition ChainConfig_Valid :: "ChainConfig \<Rightarrow> bool" where
  "ChainConfig_Valid c =
     (if cc_Version c = 0 then False
      else if cc_BlockTime c \<le> 0 then False
      else if cc_MaxBlockBytes c \<le> 0 \<or> cc_MaxBlockBytes c > 64 * 2 ^ 20 then False
      else if cc_MaxGas c = 0 \<or> cc_EpochLength c = 0 then False
      else True)"

definition Account_Valid :: "Account \<Rightarrow> bool" where
  "Account_Valid a =
     (if acct_Address a = '''' \<or> length (acct_Address a) > 128 then False
      else if length (acct_CodeHash a) > 128 \<or> length (acct_StorageRoot a) > 128 then False
      else True)"

definition PeerRecord_IsBanned :: "PeerRecord \<Rightarrow> time \<Rightarrow> bool" where
  "PeerRecord_IsBanned p now \<longleftrightarrow> \<not> time_IsZero (pr_BannedUntil p) \<and> pr_BannedUntil p > now"

definition PeerRecord_Healthy :: "time \<Rightarrow> PeerRecord \<Rightarrow> bool" where
  "PeerRecord_Healthy now p \<longleftrightarrow> sint (pr_Score p) \<ge> - 10 \<and> pr_Failures p < 5 \<and> \<not> PeerRecord_IsBanned p now"

definition SyncPlan_Valid :: "SyncPlan \<Rightarrow> bool" where
  "SyncPlan_Valid s =
     (if sp_PeerID s = '''' \<or> sp_To s < sp_From s then False
      else if sp_ChunkSize s = 0 \<or> sp_ChunkSize s > 10000 then False
      else if sp_MaxBytes s = 0 then False
      else True)"

definition RollbackPlan_Valid :: "RollbackPlan \<Rightarrow> bool" where
  "RollbackPlan_Valid r \<longleftrightarrow> rp_Target r < rp_Current r \<and> rp_Reason r \<noteq> '''' \<and> rp_RequiredVotes r > 0"

definition UpgradeMarker_Ready :: "UpgradeMarker \<Rightarrow> Height \<Rightarrow> bool" where
  "UpgradeMarker_Ready m h \<longleftrightarrow> um_FromVersion m > 0 \<and> um_ToVersion m > um_FromVersion m \<and> h \<ge> um_ActivationHeight m"

definition KeyRotation_Ready :: "KeyRotation \<Rightarrow> Height \<Rightarrow> bool" where
  "KeyRotation_Ready k h \<longleftrightarrow> kr_Validator k \<noteq> '''' \<and> kr_OldKey k \<noteq> '''' \<and> kr_NewKey k \<noteq> '''' \<and>
     h \<ge> kr_EffectiveHeight k \<and> \<not> kr_Revoked k"

definition AuditRecord_Valid :: "AuditRecord \<Rightarrow> bool" where
  "AuditRecord_Valid a \<longleftrightarrow> ar_Sequence a > 0 \<and> ar_Action a \<noteq> '''' \<and> ar_Hash a \<noteq> '''' \<and> time_IsZero (ar_At a) = False"

section \<open>Events\<close>

definition EventBlockProposed :: string where "EventBlockProposed = ''block.proposed''"
definition EventBlockCommitted :: string where "EventBlockCommitted = ''block.committed''"
definition EventBlockRejected :: string where "EventBlockRejected = ''block.rejected''"
definition EventTxAccepted :: string where "EventTxAccepted = ''transaction.accepted''"
definition EventTxRejected :: string where "EventTxRejected = ''transaction.rejected''"
definition EventPeerConnected :: string where "EventPeerConnected = ''peer.connected''"
definition EventPeerBanned :: string where "EventPeerBanned = ''peer.banned''"
definition EventSnapshotCreated :: string where "EventSnapshotCreated = ''snapshot.created''"
definition EventSnapshotVerified :: string where "EventSnapshotVerified = ''snapshot.verified''"
definition EventRollbackPrepared :: string where "EventRollbackPrepared = ''rollback.prepared''"
definition EventUpgradeActivated :: string where "EventUpgradeActivated = ''upgrade.activated''"
definition EventKeyRotated :: string where "EventKeyRotated = ''key.rotated''"

lemmas event_name_defs =
  EventBlockProposed_def EventBlockCommitted_def EventBlockRejected_def EventTxAccepted_def EventTxRejected_def
  EventPeerConnected_def EventPeerBanned_def EventSnapshotCreated_def EventSnapshotVerified_def
  EventRollbackPrepared_def EventUpgradeActivated_def EventKeyRotated_def

text \<open>A nil data map is \<open>None\<close>: reading it finds nothing, writing to it needs an allocation first.\<close>

record Event =
  ev_Name :: string
  ev_Height :: Height
  ev_Data :: "(string, string) fmap option"
  ev_At :: time

definition NewEvent :: "time \<Rightarrow> string \<Rightarrow> Height \<Rightarrow> Event" where
  "NewEvent now name h = \<lparr>ev_Name = name, ev_Height = h, ev_Data = Some fmempty, ev_At = now\<rparr>"

definition Event_Put :: "Event \<Rightarrow> string \<Rightarrow> string \<Rightarrow> Event" where
  "Event_Put e k v =
     (let d = (case ev_Data e of None \<Rightarrow> fmempty | Some d \<Rightarrow> d)
      in e\<lparr>ev_Data := Some (fmupd k v d)\<rparr>)"

definition Event_Get :: "Event \<Rightarrow> string \<Rightarrow> string" where
  "Event_Get e k = (case ev_Data e of None \<Rightarrow> '''' | Some d \<Rightarrow> mapget0 '''' d k)"

definition Event_Valid :: "Event \<Rightarrow> bool" where
  "Event_Valid e \<longleftrightarrow> ev_Name e \<noteq> '''' \<and> \<not> time_IsZero (ev_At e)"

section \<open>Lemmas\<close>

lemma DefaultChainConfig_Valid: "ChainConfig_Valid DefaultChainConfig"
  by (simp add: ChainConfig_Valid_def DefaultChainConfig_def)

lemma Event_Get_Put: "Event_Get (Event_Put e k v) k' = (if k' = k then v else Event_Get e k')"
  by (simp add: Event_Get_def Event_Put_def mapget0_def split: option.splits)

lemma Event_Put_frame:
  "ev_Name (Event_Put e k v) = ev_Name e \<and> ev_Height (Event_Put e k v) = ev_Height e \<and> ev_At (Event_Put e k v) = ev_At e"
  by (simp add: Event_Put_def)

lemma NewEvent_Get: "Event_Get (NewEvent now name h) k = ''''"
  by (simp add: Event_Get_def NewEvent_def mapget0_def)

text \<open>Subscribers can tell the events apart by name, and every named event at a time is valid.\<close>

lemma event_names_distinct:
  "distinct [EventBlockProposed, EventBlockCommitted, EventBlockRejected, EventTxAccepted, EventTxRejected,
     EventPeerConnected, EventPeerBanned, EventSnapshotCreated, EventSnapshotVerified, EventRollbackPrepared,
     EventUpgradeActivated, EventKeyRotated]"
  by (simp add: event_name_defs)

lemma NewEvent_Valid: "name \<noteq> '''' \<Longrightarrow> \<not> time_IsZero now \<Longrightarrow> Event_Valid (NewEvent now name h)"
  by (simp add: Event_Valid_def NewEvent_def)

text \<open>An upgrade or a rotation that is ready stays ready at every later height.\<close>

lemma Ready_mono:
  "UpgradeMarker_Ready m h \<Longrightarrow> h \<le> h' \<Longrightarrow> UpgradeMarker_Ready m h'"
  "KeyRotation_Ready k h \<Longrightarrow> h \<le> h' \<Longrightarrow> KeyRotation_Ready k h'"
  by (auto simp: UpgradeMarker_Ready_def KeyRotation_Ready_def)

end
