(* ===== verification/Codec.thy ===== *)
theory Codec
  imports Chain_Domain
begin

text \<open>
  \<open>internal/codec\<close>: the binary encoding of transactions and blocks (\<open>canonical.go\<close>), and the
  size limits, checked arithmetic, version negotiation, checksum and framing (\<open>limits.go\<close>).  A
  \<open>bytes.Buffer\<close> is the list written so far, a \<open>bytes.Reader\<close> the list not yet read.
\<close>

unbundle bit_operations_syntax

datatype codec_error =
    ErrMalformed | BlockTooLarge | StringLimit | ByteLimit | ListLimit | DepthLimit | MapLimit | IntegerOverflow

section \<open>\<open>canonical.go\<close>\<close>

definition MaxBlockBytes :: nat where
  "MaxBlockBytes = 2 * 2 ^ 20"

definition put :: "bytes \<Rightarrow> string \<Rightarrow> codec_error + bytes" where
  "put w s = (if length s > 65535 then Inl ErrMalformed else Inr (w @ be_bytes 2 (int (length s)) @ s))"

definition get :: "bytes \<Rightarrow> codec_error + string \<times> bytes" where
  "get r =
     (if length r < 2 then Inl ErrMalformed
      else let x = nat (be_value (take 2 r)); r' = drop 2 r
           in if x > length r' then Inl ErrMalformed else Inr (take x r', drop x r'))"

fun put_all :: "bytes \<Rightarrow> string list \<Rightarrow> codec_error + bytes" where
  "put_all w [] = Inr w"
| "put_all w (s # ss) = (case put w s of Inl e \<Rightarrow> Inl e | Inr w' \<Rightarrow> put_all w' ss)"

definition put_u64s :: "bytes \<Rightarrow> u64 list \<Rightarrow> bytes" where
  "put_u64s w ns = foldl (\<lambda>b n. b @ be_bytes 8 (uint n)) w ns"

definition EncodeTx :: "Tx \<Rightarrow> codec_error + bytes" where
  "EncodeTx t =
     (case put_all [] [tx_ID t, tx_From t, tx_To t, tx_Key t, tx_Value t, tx_Signature t] of
        Inl e \<Rightarrow> Inl e
      | Inr b \<Rightarrow>
          (let b' = put_u64s b [tx_Nonce t, tx_Fee t, tx_Gas t, tx_ExpiresAt t, ucast (tx_Size t)]
           in if length b' > MaxBlockBytes then Inl ErrMalformed else Inr b'))"

fun get_all :: "nat \<Rightarrow> bytes \<Rightarrow> codec_error + string list \<times> bytes" where
  "get_all 0 r = Inr ([], r)"
| "get_all (Suc n) r =
     (case get r of Inl e \<Rightarrow> Inl e
      | Inr (s, r') \<Rightarrow> (case get_all n r' of Inl e \<Rightarrow> Inl e | Inr (ss, r'') \<Rightarrow> Inr (s # ss, r'')))"

fun get_u64s :: "nat \<Rightarrow> bytes \<Rightarrow> codec_error + u64 list \<times> bytes" where
  "get_u64s 0 r = Inr ([], r)"
| "get_u64s (Suc n) r =
     (if length r < 8 then Inl ErrMalformed
      else case get_u64s n (drop 8 r) of Inl e \<Rightarrow> Inl e
           | Inr (ns, r') \<Rightarrow> Inr (word_of_int (be_value (take 8 r)) # ns, r'))"

definition DecodeTx :: "bytes \<Rightarrow> codec_error + Tx" where
  "DecodeTx data =
     (if length data > MaxBlockBytes then Inl ErrMalformed
      else case get_all 6 data of
        Inl e \<Rightarrow> Inl e
      | Inr (vals, r) \<Rightarrow>
          (case get_u64s 5 r of
             Inl e \<Rightarrow> Inl e
           | Inr (nums, _) \<Rightarrow>
               Inr \<lparr>tx_ID = vals ! 0, tx_From = vals ! 1, tx_To = vals ! 2, tx_Nonce = nums ! 0, tx_Fee = nums ! 1,
                 tx_Gas = nums ! 2, tx_Key = vals ! 3, tx_Value = vals ! 4, tx_ExpiresAt = nums ! 3,
                 tx_Size = ucast (nums ! 4), tx_Signature = vals ! 5\<rparr>))"

fun put_txs :: "bytes \<Rightarrow> Tx list \<Rightarrow> codec_error + bytes" where
  "put_txs w [] = Inr w"
| "put_txs w (t # ts) =
     (case EncodeTx t of Inl e \<Rightarrow> Inl e
      | Inr d \<Rightarrow> put_txs (w @ be_bytes 4 (int (length d)) @ d) ts)"

definition EncodeBlock :: "Block \<Rightarrow> codec_error + bytes" where
  "EncodeBlock b =
     (let h = blk_Header b in
      case put_all [] [blk_Hash b, hdr_PrevHash h, hdr_StateRoot h, hdr_TxRoot h, hdr_Proposer h] of
        Inl e \<Rightarrow> Inl e
      | Inr w \<Rightarrow>
          (case put_txs (put_u64s w [hdr_Height h, hdr_View h, hdr_Timestamp h, ucast (hdr_Version h),
                                     word_of_nat (length (blk_Transactions b))]) (blk_Transactions b) of
             Inl e \<Rightarrow> Inl e
           | Inr out \<Rightarrow> if length out > MaxBlockBytes then Inl BlockTooLarge else Inr out))"

section \<open>\<open>limits.go\<close>\<close>

record Limits =
  lim_MaxBytes :: int
  lim_MaxString :: int
  lim_MaxList :: int
  lim_MaxDepth :: int
  lim_MaxMap :: int

definition DefaultLimits :: Limits where
  "DefaultLimits = \<lparr>lim_MaxBytes = 2 * 2 ^ 20, lim_MaxString = 65535, lim_MaxList = 4096, lim_MaxDepth = 64, lim_MaxMap = 100000\<rparr>"

definition CheckString :: "Limits \<Rightarrow> string \<Rightarrow> codec_error option" where
  "CheckString l s = (if int (length s) > lim_MaxString l then Some StringLimit else None)"

definition CheckBytes :: "Limits \<Rightarrow> bytes \<Rightarrow> codec_error option" where
  "CheckBytes l b = (if int (length b) > lim_MaxBytes l then Some ByteLimit else None)"

definition CheckList :: "Limits \<Rightarrow> int \<Rightarrow> codec_error option" where
  "CheckList l n = (if n < 0 \<or> n > lim_MaxList l then Some ListLimit else None)"

definition CheckDepth :: "Limits \<Rightarrow> int \<Rightarrow> codec_error option" where
  "CheckDepth l n = (if n < 0 \<or> n > lim_MaxDepth l then Some DepthLimit else None)"

definition CheckMap :: "Limits \<Rightarrow> int \<Rightarrow> codec_error option" where
  "CheckMap l n = (if n < 0 \<or> n > lim_MaxMap l then Some MapLimit else None)"

definition safeAdd :: "u64 \<Rightarrow> u64 \<Rightarrow> codec_error + u64" where
  "safeAdd a b = (if 18446744073709551615 - a < b then Inl IntegerOverflow else Inr (a + b))"

definition safeMul :: "u64 \<Rightarrow> u64 \<Rightarrow> codec_error + u64" where
  "safeMul a b = (if a \<noteq> 0 \<and> b > 18446744073709551615 div a then Inl IntegerOverflow else Inr (a * b))"

definition encodeVersion :: "u32 \<Rightarrow> string" where
  "encodeVersion v = ''v'' @ fmt_d (uint v)"

text \<open>The loop of \<open>negotiate\<close> runs over \<open>local\<close> from its end.\<close>

fun negotiate_from :: "u32 list \<Rightarrow> u32 list \<Rightarrow> u32" where
  "negotiate_from [] remote = 0"
| "negotiate_from (x # xs) remote =
     (case List.find (\<lambda>r. x = r) remote of Some r \<Rightarrow> r | None \<Rightarrow> negotiate_from xs remote)"

definition negotiate :: "u32 list \<Rightarrow> u32 list \<Rightarrow> u32" where
  "negotiate loc remote = negotiate_from (rev loc) remote"

definition versionAllowed :: "u32 \<Rightarrow> u32 list \<Rightarrow> bool" where
  "versionAllowed v allowed = list_ex (\<lambda>x. x = v) allowed"

definition checksum :: "bytes \<Rightarrow> u32" where
  "checksum data = foldl (\<lambda>h b. (h XOR of_char b) * 16777619) 2166136261 data"

definition frame :: "bytes \<Rightarrow> Limits \<Rightarrow> codec_error + bytes" where
  "frame payload l =
     (case CheckBytes l payload of
        Some e \<Rightarrow> Inl e
      | None \<Rightarrow> Inr (be_bytes 4 (int (length payload)) @ payload))"

definition unframe :: "bytes \<Rightarrow> Limits \<Rightarrow> codec_error + bytes" where
  "unframe data l =
     (if length data < 4 then Inl ErrMalformed
      else let n = be_value (take 4 data)
           in if n \<noteq> int (length data) - 4 then Inl ErrMalformed
              else case CheckBytes l (drop 4 data) of
                Some e \<Rightarrow> Inl e
              | None \<Rightarrow> Inr (drop 4 data))"

section \<open>Strings and numbers read back\<close>

definition enc_str :: "string \<Rightarrow> bytes" where
  "enc_str s = be_bytes 2 (int (length s)) @ s"

definition enc_u64 :: "u64 \<Rightarrow> bytes" where
  "enc_u64 n = be_bytes 8 (uint n)"

lemma length_enc_str [simp]: "length (enc_str s) = 2 + length s"
  by (simp add: enc_str_def)

lemma length_enc_u64 [simp]: "length (enc_u64 n) = 8"
  by (simp add: enc_u64_def)

lemma get_enc_str [codec_simps]: "length s \<le> 65535 \<Longrightarrow> get (enc_str s @ r) = Inr (s, r)"
  by (simp add: get_def enc_str_def codec_simps)

lemma put_all_eq:
  "put_all w ss = (if \<forall>s \<in> set ss. length s \<le> 65535 then Inr (w @ concat (map enc_str ss)) else Inl ErrMalformed)"
  by (induction ss arbitrary: w) (auto simp: put_def enc_str_def)

lemma get_all_enc [codec_simps]:
  "\<forall>s \<in> set ss. length s \<le> 65535 \<Longrightarrow> get_all (length ss) (concat (map enc_str ss) @ r) = Inr (ss, r)"
  by (induction ss) (simp_all add: codec_simps)

lemma put_u64s_eq: "put_u64s w ns = w @ concat (map enc_u64 ns)"
  unfolding put_u64s_def enc_u64_def by (induction ns arbitrary: w) simp_all

lemma take_enc_u64 [codec_simps]: "(word_of_int (be_value (enc_u64 n)) :: u64) = n"
proof -
  have "be_value (enc_u64 n) = uint n"
    using uint_lt2p [of n] by (simp add: enc_u64_def be_value_be_bytes)
  then show ?thesis by simp
qed

lemma get_u64s_enc [codec_simps]: "get_u64s (length ns) (concat (map enc_u64 ns) @ r) = Inr (ns, r)"
  by (induction ns) (simp_all add: codec_simps)

section \<open>Transactions\<close>

definition tx_strings :: "Tx \<Rightarrow> string list" where
  "tx_strings t = [tx_ID t, tx_From t, tx_To t, tx_Key t, tx_Value t, tx_Signature t]"

definition tx_numbers :: "Tx \<Rightarrow> u64 list" where
  "tx_numbers t = [tx_Nonce t, tx_Fee t, tx_Gas t, tx_ExpiresAt t, ucast (tx_Size t)]"

definition enc_tx :: "Tx \<Rightarrow> bytes" where
  "enc_tx t = concat (map enc_str (tx_strings t)) @ concat (map enc_u64 (tx_numbers t))"

lemma length_enc_tx: "length (enc_tx t) = sum_list (map length (tx_strings t)) + 52"
  by (simp add: enc_tx_def tx_strings_def tx_numbers_def)

lemma enc_tx_small: "\<forall>s \<in> set (tx_strings t). length s \<le> 65535 \<Longrightarrow> length (enc_tx t) \<le> MaxBlockBytes"
  by (simp add: length_enc_tx tx_strings_def MaxBlockBytes_def)

lemma EncodeTx_eq:
  "EncodeTx t = (if \<forall>s \<in> set (tx_strings t). length s \<le> 65535 then Inr (enc_tx t) else Inl ErrMalformed)"
proof -
  have "EncodeTx t = (case put_all [] (tx_strings t) of
        Inl e \<Rightarrow> Inl e
      | Inr b \<Rightarrow> let b' = put_u64s b (tx_numbers t)
                 in if length b' > MaxBlockBytes then Inl ErrMalformed else Inr b')"
    unfolding EncodeTx_def tx_strings_def tx_numbers_def by (rule refl)
  then show ?thesis
    using enc_tx_small [of t] by (auto simp: put_all_eq put_u64s_eq enc_tx_def Let_def)
qed

lemma ucast_ucast_size [simp]: "ucast (ucast (s :: u32) :: u64) = s"
  by (rule ucast_up_ucast_id) (simp add: is_up)

lemma length_tx_fields [simp]: "length (tx_strings t) = 6" "length (tx_numbers t) = 5"
  by (simp_all add: tx_strings_def tx_numbers_def)

lemma DecodeTx_enc_tx:
  assumes "\<forall>s \<in> set (tx_strings t). length s \<le> 65535" and "length (enc_tx t @ r) \<le> MaxBlockBytes"
  shows "DecodeTx (enc_tx t @ r) = Inr t"
proof -
  have "get_all 6 (enc_tx t @ r) = Inr (tx_strings t, concat (map enc_u64 (tx_numbers t)) @ r)"
    using get_all_enc [OF assms(1), of "concat (map enc_u64 (tx_numbers t)) @ r"]
    by (simp add: enc_tx_def)
  moreover have "get_u64s 5 (concat (map enc_u64 (tx_numbers t)) @ r) = Inr (tx_numbers t, r)"
    using get_u64s_enc [of "tx_numbers t" r] by simp
  ultimately show ?thesis
    using assms(2) by (simp add: DecodeTx_def tx_strings_def tx_numbers_def)
qed

section \<open>Blocks\<close>

definition enc_txs :: "Tx list \<Rightarrow> bytes" where
  "enc_txs ts = concat (map (\<lambda>t. be_bytes 4 (int (length (enc_tx t))) @ enc_tx t) ts)"

definition tx_fits :: "Tx \<Rightarrow> bool" where
  "tx_fits t \<longleftrightarrow> (\<forall>s \<in> set (tx_strings t). length s \<le> 65535)"

lemma put_txs_eq: "put_txs w ts = (if list_all tx_fits ts then Inr (w @ enc_txs ts) else Inl ErrMalformed)"
  by (induction ts arbitrary: w) (auto simp: EncodeTx_eq tx_fits_def enc_txs_def)

definition block_strings :: "Block \<Rightarrow> string list" where
  "block_strings b = (let h = blk_Header b in [blk_Hash b, hdr_PrevHash h, hdr_StateRoot h, hdr_TxRoot h, hdr_Proposer h])"

definition block_numbers :: "Block \<Rightarrow> u64 list" where
  "block_numbers b = (let h = blk_Header b in
     [hdr_Height h, hdr_View h, hdr_Timestamp h, ucast (hdr_Version h), word_of_nat (length (blk_Transactions b))])"

definition enc_block :: "Block \<Rightarrow> bytes" where
  "enc_block b = concat (map enc_str (block_strings b)) @ concat (map enc_u64 (block_numbers b)) @ enc_txs (blk_Transactions b)"

lemma EncodeBlock_Inr_iff:
  "EncodeBlock b = Inr d \<longleftrightarrow>
     (\<forall>s \<in> set (block_strings b). length s \<le> 65535) \<and> list_all tx_fits (blk_Transactions b) \<and>
     length d \<le> MaxBlockBytes \<and> d = enc_block b"
proof -
  have "EncodeBlock b =
     (case put_all [] (block_strings b) of
        Inl e \<Rightarrow> Inl e
      | Inr w \<Rightarrow> (case put_txs (put_u64s w (block_numbers b)) (blk_Transactions b) of
             Inl e \<Rightarrow> Inl e
           | Inr out \<Rightarrow> if length out > MaxBlockBytes then Inl BlockTooLarge else Inr out))"
    unfolding EncodeBlock_def block_strings_def block_numbers_def Let_def by (rule refl)
  then show ?thesis
    by (auto simp: put_all_eq put_txs_eq put_u64s_eq enc_block_def)
qed

text \<open>Reading a block's encoding back determines everything but the commit votes.\<close>

lemma length_enc_txs_ge: "length ts \<le> length (enc_txs ts)"
  by (induction ts) (simp_all add: enc_txs_def)

lemma enc_txs_inj:
  assumes "enc_txs ts = enc_txs ts'" and "length ts = length ts'"
    and "list_all tx_fits ts" and "list_all tx_fits ts'"
  shows "ts = ts'"
  using assms
proof (induction ts arbitrary: ts')
  case (Cons t ts)
  then obtain t' us where ts': "ts' = t' # us" by (cases ts') auto
  let ?n = "\<lambda>t. be_bytes 4 (int (length (enc_tx t)))"
  have eq: "?n t @ enc_tx t @ enc_txs ts = ?n t' @ enc_tx t' @ enc_txs us"
    using Cons.prems(1) ts' by (simp add: enc_txs_def)
  have fits: "tx_fits t" "tx_fits t'" using Cons.prems ts' by simp_all
  have split: "?n t = ?n t'" "enc_tx t @ enc_txs ts = enc_tx t' @ enc_txs us"
    using eq append_eq_append_conv [of "?n t" "?n t'"] by simp_all
  have "be_value (?n x) = int (length (enc_tx x))" if "tx_fits x" for x
    using enc_tx_small [of x] that by (simp add: tx_fits_def MaxBlockBytes_def be_value_be_bytes)
  with fits split(1) have "length (enc_tx t) = length (enc_tx t')" by (metis of_nat_eq_iff)
  with split(2) have same: "enc_tx t = enc_tx t'" "enc_txs ts = enc_txs us" by simp_all
  have "DecodeTx (enc_tx x) = Inr x" if "tx_fits x" for x
    using DecodeTx_enc_tx [of x "[]"] enc_tx_small [of x] that by (simp add: tx_fits_def)
  with fits same(1) have "t = t'" by (metis Inr_inject)
  moreover have "ts = us"
    using Cons.IH [OF same(2)] Cons.prems ts' by simp
  ultimately show ?case using ts' by simp
qed simp

lemma enc_block_inj:
  assumes "EncodeBlock b = Inr d" and "EncodeBlock b' = Inr d"
  shows "b\<lparr>blk_Commit := []\<rparr> = b'\<lparr>blk_Commit := []\<rparr>"
proof -
  from assms have eq: "enc_block b = enc_block b'"
    and size: "length (enc_block b) \<le> MaxBlockBytes" "length (enc_block b') \<le> MaxBlockBytes"
    and fit: "\<forall>s \<in> set (block_strings b). length s \<le> 65535" "\<forall>s \<in> set (block_strings b'). length s \<le> 65535"
    and txs: "list_all tx_fits (blk_Transactions b)" "list_all tx_fits (blk_Transactions b')"
    by (auto simp: EncodeBlock_Inr_iff)
  let ?r = "\<lambda>b. concat (map enc_u64 (block_numbers b)) @ enc_txs (blk_Transactions b)"
  have len: "length (block_strings b) = 5" "length (block_numbers b) = 5" for b
    by (simp_all add: block_strings_def block_numbers_def Let_def)
  have "get_all 5 (enc_block b) = Inr (block_strings b, ?r b)"
       "get_all 5 (enc_block b') = Inr (block_strings b', ?r b')"
    using get_all_enc [OF fit(1), of "?r b"] get_all_enc [OF fit(2), of "?r b'"]
    by (simp_all add: enc_block_def len)
  with eq have strs: "block_strings b = block_strings b'" and rest: "?r b = ?r b'" by simp_all
  have nums: "block_numbers b = block_numbers b'" and txe: "enc_txs (blk_Transactions b) = enc_txs (blk_Transactions b')"
    using rest get_u64s_enc [of "block_numbers b" "enc_txs (blk_Transactions b)"]
      get_u64s_enc [of "block_numbers b'" "enc_txs (blk_Transactions b')"]
    by (simp_all add: len)
  have small: "length (blk_Transactions b) < 2 ^ 64" "length (blk_Transactions b') < 2 ^ 64"
    using size length_enc_txs_ge [of "blk_Transactions b"] length_enc_txs_ge [of "blk_Transactions b'"]
    by (simp_all add: enc_block_def MaxBlockBytes_def)
  from nums have "(word_of_nat (length (blk_Transactions b)) :: u64) = word_of_nat (length (blk_Transactions b'))"
    by (simp add: block_numbers_def Let_def)
  then have "length (blk_Transactions b) = length (blk_Transactions b')"
    using small by (simp add: word_of_nat_eq_iff take_bit_eq_mod)
  then have "blk_Transactions b = blk_Transactions b'"
    using txe txs by (intro enc_txs_inj)
  moreover have "blk_Header b = blk_Header b'"
    using strs nums by (intro Header.equality) (auto simp: block_strings_def block_numbers_def Let_def
        dest: arg_cong [where f = "ucast :: u64 \<Rightarrow> u32"])
  ultimately show ?thesis
    using strs by (intro Block.equality) (auto simp: block_strings_def Let_def)
qed

section \<open>Checked arithmetic\<close>

lemma unat_mult_exact: "unat a * unat b < 2 ^ 64 \<Longrightarrow> unat (a * b :: u64) = unat a * unat b"
  by (simp add: unat_word_ariths)

lemma safeMul_guard:
  assumes "a \<noteq> 0"
  shows "b > 18446744073709551615 div a \<longleftrightarrow> 2 ^ 64 \<le> unat a * unat (b :: u64)"
proof -
  have pos: "0 < unat a" using assms by (simp add: unat_gt_0)
  have "b > 18446744073709551615 div a \<longleftrightarrow> 18446744073709551615 div unat a < unat b"
    by (simp add: word_less_nat_alt unat_div)
  also have "\<dots> \<longleftrightarrow> 18446744073709551615 < unat b * unat a"
    using pos by (rule div_less_iff_less_mult)
  finally show ?thesis by (auto simp: mult.commute)
qed

section \<open>Version negotiation\<close>

lemma negotiate_from_spec:
  "negotiate_from xs remote = v \<Longrightarrow> v \<noteq> 0 \<Longrightarrow>
     \<exists>i < length xs. xs ! i = v \<and> v \<in> set remote \<and> (\<forall>j < i. xs ! j \<notin> set remote)"
proof (induction xs)
  case (Cons x xs)
  show ?case
  proof (cases "x \<in> set remote")
    case True
    then have "negotiate_from (x # xs) remote = x"
      by (auto simp: find_Some_iff find_None_iff split: option.splits)
    with True Cons.prems show ?thesis by (intro exI [of _ 0]) auto
  next
    case False
    then have none: "List.find (\<lambda>r. x = r) remote = None" by (auto simp: find_None_iff)
    with Cons obtain i where "i < length xs" "xs ! i = v" "v \<in> set remote" "\<forall>j < i. xs ! j \<notin> set remote"
      by auto
    with False show ?thesis by (intro exI [of _ "Suc i"]) (auto simp: less_Suc_eq_0_disj)
  qed
qed simp

section \<open>Properties\<close>

text \<open>C10: Round trip of transactions: whatever \<open>EncodeTx\<close> produces, \<open>DecodeTx\<close> reads back as the same
  transaction.\<close>

theorem DecodeTx_EncodeTx:
  assumes "EncodeTx t = Inr d"
  shows "DecodeTx d = Inr t"
proof -
  from assms have fits: "\<forall>s \<in> set (tx_strings t). length s \<le> 65535" and "d = enc_tx t"
    by (auto simp: EncodeTx_eq split: if_splits)
  then show ?thesis
    using DecodeTx_enc_tx [OF fits, of "[]"] enc_tx_small [OF fits] by simp
qed

theorem DecodeTx_EncodeTx_witness:
  "EncodeTx example_tx = Inr (enc_tx example_tx) \<and> DecodeTx (enc_tx example_tx) = Inr example_tx"
proof -
  have e: "EncodeTx example_tx = Inr (enc_tx example_tx)"
    by (simp add: EncodeTx_eq tx_strings_def example_tx_def)
  from DecodeTx_EncodeTx [OF e] e show ?thesis by simp
qed

text \<open>\<open>EncodeTx\<close> fails exactly when one of its six strings is longer than 65535 bytes: the block size
  check behind the strings can never be the reason.\<close>

theorem EncodeTx_total:
  "(\<exists>d. EncodeTx t = Inr d) \<longleftrightarrow>
     length (tx_ID t) \<le> 65535 \<and> length (tx_From t) \<le> 65535 \<and> length (tx_To t) \<le> 65535 \<and>
     length (tx_Key t) \<le> 65535 \<and> length (tx_Value t) \<le> 65535 \<and> length (tx_Signature t) \<le> 65535"
  by (auto simp: EncodeTx_eq tx_strings_def)

text \<open>The encoding of a transaction is not canonical on the reading side: bytes appended to a valid
  encoding, up to the size limit, do not make \<open>DecodeTx\<close> fail and do not change its result.\<close>

theorem DecodeTx_ignores_trailing:
  assumes "EncodeTx t = Inr d" and "length (d @ junk) \<le> MaxBlockBytes"
  shows "DecodeTx (d @ junk) = Inr t"
  using assms DecodeTx_enc_tx [of t junk] by (auto simp: EncodeTx_eq split: if_splits)

theorem DecodeTx_ignores_trailing_witness:
  "DecodeTx (enc_tx example_tx @ ''junk'') = Inr example_tx"
proof (rule DecodeTx_ignores_trailing)
  show "EncodeTx example_tx = Inr (enc_tx example_tx)"
    by (simp add: EncodeTx_eq tx_strings_def example_tx_def)
  show "length (enc_tx example_tx @ ''junk'') \<le> MaxBlockBytes"
    by (simp add: length_enc_tx tx_strings_def example_tx_def MaxBlockBytes_def)
qed

text \<open>C29: The encoding of a block determines the block, its header, hash and transactions, up to the commit
  votes, which \<open>EncodeBlock\<close> leaves out.\<close>

theorem EncodeBlock_injective:
  assumes "EncodeBlock b = Inr d" and "EncodeBlock b' = Inr d"
  shows "b\<lparr>blk_Commit := []\<rparr> = b'\<lparr>blk_Commit := []\<rparr>"
  by (rule enc_block_inj [OF assms])

theorem EncodeBlock_injective_witness:
  "EncodeBlock zero_Block = Inr (enc_block zero_Block) \<and>
   EncodeBlock (zero_Block\<lparr>blk_Commit := [example_vote ''a'']\<rparr>) = Inr (enc_block zero_Block) \<and>
   zero_Block\<lparr>blk_Commit := []\<rparr> = zero_Block\<lparr>blk_Commit := [example_vote ''a'']\<rparr>\<lparr>blk_Commit := []\<rparr>"
proof -
  have "EncodeBlock zero_Block = Inr (enc_block zero_Block)"
       "EncodeBlock (zero_Block\<lparr>blk_Commit := [example_vote ''a'']\<rparr>) = Inr (enc_block zero_Block)"
    by (simp_all add: EncodeBlock_Inr_iff zero_Block_def zero_Header_def block_strings_def block_numbers_def
        enc_block_def MaxBlockBytes_def enc_txs_def Let_def)
  from this EncodeBlock_injective [OF this] show ?thesis by blast
qed

text \<open>C28: for a byte limit below \<open>2^32\<close>, the range of the length prefix, framing is a bijection between the
  payloads within the limit and the frames \<open>unframe\<close> accepts: a framed payload is unframed to itself, and
  an accepted frame is the frame of what it holds.\<close>

theorem frame_unframe_iff:
  assumes "lim_MaxBytes l < 2 ^ 32"
  shows "frame p l = Inr d \<longleftrightarrow> unframe d l = Inr p"
proof
  assume "frame p l = Inr d"
  then have "int (length p) \<le> lim_MaxBytes l" and d: "d = be_bytes 4 (int (length p)) @ p"
    by (auto simp: frame_def CheckBytes_def split: if_splits option.splits)
  with assms show "unframe d l = Inr p"
    by (simp add: unframe_def CheckBytes_def be_value_be_bytes)
next
  assume un: "unframe d l = Inr p"
  then have len: "4 \<le> length d" and n: "be_value (take 4 d) = int (length d) - 4" and p: "p = drop 4 d"
    and "int (length p) \<le> lim_MaxBytes l"
    by (auto simp: unframe_def CheckBytes_def Let_def split: if_splits option.splits)
  moreover have "be_bytes 4 (int (length p)) = take 4 d"
    using len n p be_bytes_be_value [of "take 4 d"] by (simp add: of_nat_diff)
  ultimately show "frame p l = Inr d"
    by (simp add: frame_def CheckBytes_def)
qed

theorem frame_unframe_iff_witness:
  "lim_MaxBytes DefaultLimits < 2 ^ 32 \<and>
   (frame ''hi'' DefaultLimits = Inr (be_bytes 4 2 @ ''hi'') \<longleftrightarrow> unframe (be_bytes 4 2 @ ''hi'') DefaultLimits = Inr ''hi'')"
proof -
  have "lim_MaxBytes DefaultLimits < 2 ^ 32" by (simp add: DefaultLimits_def)
  from frame_unframe_iff [OF this] this show ?thesis by blast
qed

text \<open>C40: \<open>safeAdd\<close> and \<open>safeMul\<close> return the exact sum and product, and an error exactly when the exact
  result does not fit in 64 bits.\<close>

theorem safe_arithmetic_exact:
  "(safeAdd a b = Inr c \<longleftrightarrow> unat a + unat b < 2 ^ 64 \<and> unat c = unat a + unat b) \<and>
   (safeMul a b = Inr c' \<longleftrightarrow> unat a * unat b < 2 ^ 64 \<and> unat c' = unat a * unat b)"
proof
  have guard: "18446744073709551615 - a < b \<longleftrightarrow> 2 ^ 64 \<le> unat a + unat b"
    unfolding word_less_nat_alt unat_sub_max using unsigned_less [of a, where ?'a = nat] by auto
  have "unat (a + b) = unat a + unat b" if "unat a + unat b < 2 ^ 64"
    using that by (simp add: unat_word_ariths)
  then show "safeAdd a b = Inr c \<longleftrightarrow> unat a + unat b < 2 ^ 64 \<and> unat c = unat a + unat b"
    unfolding safeAdd_def guard by (auto simp: word_unat_eq_iff)
  show "safeMul a b = Inr c' \<longleftrightarrow> unat a * unat b < 2 ^ 64 \<and> unat c' = unat a * unat b"
  proof (cases "a = 0")
    case True
    then show ?thesis by (auto simp: safeMul_def unat_eq_zero)
  next
    case False
    then show ?thesis
      using unat_mult_exact [of a b] safeMul_guard [OF False, of b]
      by (auto simp: safeMul_def word_unat_eq_iff)
  qed
qed

text \<open>\<open>negotiate\<close> picks the last local version that the remote side also has.\<close>

theorem negotiate_picks_latest:
  assumes "negotiate loc remote = v" and "v \<noteq> 0"
  shows "\<exists>i < length loc. loc ! i = v \<and> v \<in> set remote \<and> (\<forall>j. i < j \<longrightarrow> j < length loc \<longrightarrow> loc ! j \<notin> set remote)"
proof -
  from negotiate_from_spec [of "rev loc"] assms obtain i where
    i: "i < length loc" "rev loc ! i = v" "v \<in> set remote" "\<forall>j < i. rev loc ! j \<notin> set remote"
    by (auto simp: negotiate_def)
  show ?thesis
  proof (intro exI conjI allI impI)
    show "length loc - Suc i < length loc" "loc ! (length loc - Suc i) = v" "v \<in> set remote"
      using i by (simp_all add: rev_nth)
    fix j assume j: "length loc - Suc i < j" "j < length loc"
    then have "rev loc ! (length loc - Suc j) = loc ! j" by (simp add: rev_nth)
    moreover have "length loc - Suc j < i" using i(1) j by arith
    ultimately show "loc ! j \<notin> set remote" using i(4) by metis
  qed
qed

theorem negotiate_picks_latest_witness:
  "negotiate [1, 2, 3] [3, 2] = 3 \<and> (\<exists>i < length [1, 2, 3 :: u32]. [1, 2, 3] ! i = (3 :: u32) \<and> 3 \<in> set [3, 2 :: u32] \<and>
     (\<forall>j. i < j \<longrightarrow> j < length [1, 2, 3 :: u32] \<longrightarrow> [1, 2, 3 :: u32] ! j \<notin> set [3, 2]))"
proof -
  have "negotiate [1, 2, 3] [3, 2] = 3" by (simp add: negotiate_def)
  from this negotiate_picks_latest [OF this] show ?thesis by simp
qed

end
