(* ===== verification/Mempool.thy ===== *)
theory Mempool
  imports Chain_Domain
begin

text \<open>
  \<open>internal/mempool\<close>: the pool of pending transactions, indexed by identifier and by sender and
  nonce (\<open>pool.go\<close>), its policy functions and the reservation table (\<open>policy.go\<close>).  Every method
  holds the pool's mutex, so a method is one step; a method that can change the pool on an error path
  returns the error beside the new pool.
\<close>

section \<open>\<open>pool.go\<close>\<close>

record Pool =
  pl_max :: int
  pl_tx :: "(string, Tx) fmap"
  pl_byAcct :: "(string, (u64, string) fmap) fmap"

datatype pool_error = MempoolFull | ErrDuplicate | ErrNonce

fun pool_error_msg :: "pool_error \<Rightarrow> string" where
  "pool_error_msg MempoolFull = ''mempool full''"
| "pool_error_msg ErrDuplicate = ''duplicate transaction''"
| "pool_error_msg ErrNonce = ''nonce conflict''"

definition Pool_New :: "int \<Rightarrow> Pool" where
  "Pool_New mx = \<lparr>pl_max = mx, pl_tx = fmempty, pl_byAcct = fmempty\<rparr>"

definition fee_of :: "(string, Tx) fmap \<Rightarrow> string \<Rightarrow> u64" where
  "fee_of txs i = (case mapget txs i of None \<Rightarrow> 0 | Some t \<Rightarrow> tx_Fee t)"

definition with_id :: "Tx \<Rightarrow> Tx" where
  "with_id t = (if tx_ID t = '''' then t\<lparr>tx_ID := TxHash t\<rparr> else t)"

definition Pool_Add :: "Pool \<Rightarrow> Tx \<Rightarrow> pool_error option \<times> Pool" where
  "Pool_Add p t0 =
     (if int (maplen (pl_tx p)) \<ge> pl_max p then (Some MempoolFull, p)
      else let t = with_id t0 in
        if mapget (pl_tx p) (tx_ID t) \<noteq> None then (Some ErrDuplicate, p)
        else let p1 = (if mapget (pl_byAcct p) (tx_From t) = None
                       then p\<lparr>pl_byAcct := fmupd (tx_From t) fmempty (pl_byAcct p)\<rparr> else p);
                 acct = mapget0 fmempty (pl_byAcct p1) (tx_From t);
                 put = (\<lambda>p2. p2\<lparr>pl_tx := fmupd (tx_ID t) t (pl_tx p2),
                                pl_byAcct := fmupd (tx_From t) (fmupd (tx_Nonce t) (tx_ID t) acct) (pl_byAcct p2)\<rparr>)
             in case mapget acct (tx_Nonce t) of
                  None \<Rightarrow> (None, put p1)
                | Some old \<Rightarrow>
                    if tx_Fee t \<le> fee_of (pl_tx p1) old then (Some ErrNonce, p1)
                    else (None, put (p1\<lparr>pl_tx := fmdrop old (pl_tx p1)\<rparr>)))"

text \<open>\<open>List\<close> reads the clock once for each transaction it visits; \<open>now i\<close> is the reading at \<open>i\<close>.\<close>

definition expired_unix :: "i64 \<Rightarrow> Tx \<Rightarrow> bool" where
  "expired_unix now t \<longleftrightarrow> sint (tx_ExpiresAt t) > 0 \<and> sint (tx_ExpiresAt t) < sint now"

definition fee_greater :: "Tx \<Rightarrow> Tx \<Rightarrow> bool" where
  "fee_greater a b \<longleftrightarrow> tx_Fee a > tx_Fee b"

definition Pool_List :: "string list \<Rightarrow> (string \<Rightarrow> time) \<Rightarrow> Pool \<Rightarrow> Tx list" where
  "Pool_List ord now p =
     sort_slice fee_greater
       (map (\<lambda>i. the (mapget (pl_tx p) i))
         (filter (\<lambda>i. \<not> expired_unix (Time_Unix (now i)) (the (mapget (pl_tx p) i))) ord))"

definition drop_nonce :: "Tx \<Rightarrow> (string, (u64, string) fmap) fmap \<Rightarrow> (string, (u64, string) fmap) fmap" where
  "drop_nonce t m =
     (case mapget m (tx_From t) of
        None \<Rightarrow> m
      | Some acct \<Rightarrow> fmupd (tx_From t) (fmdrop (tx_Nonce t) acct) m)"

definition remove_one :: "Pool \<Rightarrow> string \<Rightarrow> Pool" where
  "remove_one p i =
     (case mapget (pl_tx p) i of
        None \<Rightarrow> p
      | Some t \<Rightarrow> p\<lparr>pl_tx := fmdrop i (pl_tx p), pl_byAcct := drop_nonce t (pl_byAcct p)\<rparr>)"

definition Pool_Remove :: "Pool \<Rightarrow> string list \<Rightarrow> Pool" where
  "Pool_Remove p ids = foldl remove_one p ids"

section \<open>\<open>policy.go\<close>\<close>

record Policy =
  pol_MaxBytes :: int
  pol_MaxTx :: int
  pol_TTL :: duration
  pol_MinFee :: u64
  pol_AllowReplace :: bool

definition DefaultPolicy :: Policy where
  "DefaultPolicy = \<lparr>pol_MaxBytes = 64 * 2 ^ 20, pol_MaxTx = 10000, pol_TTL = 30 * 60 * 1000000000, pol_MinFee = 1, pol_AllowReplace = True\<rparr>"

record Stats =
  stats_Count :: nat
  stats_Bytes :: i64
  stats_Accounts :: nat
  stats_Expired :: nat
  stats_Replaced :: nat

definition Pool_Stats :: "string list \<Rightarrow> Pool \<Rightarrow> Stats" where
  "Pool_Stats ord p =
     \<lparr>stats_Count = maplen (pl_tx p),
      stats_Bytes = foldl (\<lambda>b i. b + ucast (tx_Size (the (mapget (pl_tx p) i)))) 0 ord,
      stats_Accounts = maplen (pl_byAcct p), stats_Expired = 0, stats_Replaced = 0\<rparr>"

definition expired_at :: "time \<Rightarrow> Tx \<Rightarrow> bool" where
  "expired_at now t \<longleftrightarrow> sint (tx_ExpiresAt t) > 0 \<and> time_Unix (tx_ExpiresAt t) < now"

definition drop_nonce_account :: "Tx \<Rightarrow> (string, (u64, string) fmap) fmap \<Rightarrow> (string, (u64, string) fmap) fmap" where
  "drop_nonce_account t m =
     (case mapget m (tx_From t) of
        None \<Rightarrow> m
      | Some acct \<Rightarrow>
          (let acct' = fmdrop (tx_Nonce t) acct
           in if maplen acct' = 0 then fmdrop (tx_From t) (fmupd (tx_From t) acct' m)
              else fmupd (tx_From t) acct' m))"

definition expire_one :: "time \<Rightarrow> nat \<times> Pool \<Rightarrow> string \<Rightarrow> nat \<times> Pool" where
  "expire_one now np i =
     (case np of (n, p) \<Rightarrow>
        (case mapget (pl_tx p) i of
           None \<Rightarrow> (n, p)
         | Some t \<Rightarrow>
             if expired_at now t
             then (n + 1, p\<lparr>pl_tx := fmdrop i (pl_tx p), pl_byAcct := drop_nonce_account t (pl_byAcct p)\<rparr>)
             else (n, p)))"

definition Pool_Expire :: "string list \<Rightarrow> Pool \<Rightarrow> time \<Rightarrow> nat \<times> Pool" where
  "Pool_Expire ord p now = foldl (expire_one now) (0, p) ord"

definition select_less :: "Tx \<Rightarrow> Tx \<Rightarrow> bool" where
  "select_less a b = (if tx_Fee a = tx_Fee b then tx_Nonce a < tx_Nonce b else tx_Fee a > tx_Fee b)"

text \<open>Slicing with a negative limit panics: the result \<open>None\<close>.\<close>

definition Select :: "Tx list \<Rightarrow> int \<Rightarrow> Tx list option" where
  "Select txs limit =
     (let out = sort_slice select_less txs
      in if int (length out) > limit
         then (if limit < 0 then None else Some (take (nat limit) out))
         else Some out)"

datatype replacement_error = ReplacementIdentityMismatch | ReplacementFeeTooLow

definition CheckReplacement :: "Tx \<Rightarrow> Tx \<Rightarrow> replacement_error option" where
  "CheckReplacement old new =
     (if tx_From old \<noteq> tx_From new \<or> tx_Nonce old \<noteq> tx_Nonce new then Some ReplacementIdentityMismatch
      else if tx_Fee new \<le> tx_Fee old then Some ReplacementFeeTooLow
      else None)"

datatype nonce_error = NonceTooLow | NonceGapTooLarge

definition ValidateNonce :: "u64 \<Rightarrow> Tx \<Rightarrow> nonce_error option" where
  "ValidateNonce expected t =
     (if tx_Nonce t < expected then Some NonceTooLow
      else if tx_Nonce t > expected + 100 then Some NonceGapTooLarge
      else None)"

record Reservation =
  rs_owner :: "(string, string) fmap"

definition NewReservation :: Reservation where
  "NewReservation = \<lparr>rs_owner = fmempty\<rparr>"

definition Reservation_Acquire :: "Reservation \<Rightarrow> string \<Rightarrow> string \<Rightarrow> bool \<times> Reservation" where
  "Reservation_Acquire r key i =
     (let x = mapget0 '''' (rs_owner r) key
      in if x \<noteq> '''' \<and> x \<noteq> i then (False, r)
         else (True, r\<lparr>rs_owner := fmupd key i (rs_owner r)\<rparr>))"

definition Reservation_Release :: "Reservation \<Rightarrow> string \<Rightarrow> string \<Rightarrow> Reservation" where
  "Reservation_Release r key i =
     (if mapget0 '''' (rs_owner r) key = i then r\<lparr>rs_owner := fmdrop key (rs_owner r)\<rparr> else r)"

section \<open>The index of senders and nonces\<close>

definition acct_lookup :: "(string, (u64, string) fmap) fmap \<Rightarrow> string \<Rightarrow> u64 \<Rightarrow> string option" where
  "acct_lookup m a n = mapget (mapget0 fmempty m a) n"

lemma acct_lookup_upd:
  "acct_lookup (fmupd a acct m) a' n = (if a' = a then mapget acct n else acct_lookup m a' n)"
  by (simp add: acct_lookup_def mapget0_def)

lemma acct_lookup_drop_nonce:
  "acct_lookup (drop_nonce t m) a n = (if a = tx_From t \<and> n = tx_Nonce t then None else acct_lookup m a n)"
  by (auto simp: drop_nonce_def acct_lookup_def mapget0_def split: option.splits)

lemma acct_lookup_drop_nonce_account:
  "acct_lookup (drop_nonce_account t m) a n = (if a = tx_From t \<and> n = tx_Nonce t then None else acct_lookup m a n)"
proof (cases "mapget m (tx_From t)")
  case None
  then show ?thesis by (auto simp: drop_nonce_account_def acct_lookup_def mapget0_def)
next
  case (Some acct)
  have "mapget acct n = None" if "fmdrop (tx_Nonce t) acct = fmempty" and "n \<noteq> tx_Nonce t" for n
    using that by (metis fmempty_lookup fmlookup_drop)
  with Some show ?thesis
    by (auto simp: drop_nonce_account_def acct_lookup_def mapget0_def Let_def split: if_splits)
qed

text \<open>
  The invariant: a transaction is stored under its identifier and indexed by its sender and nonce,
  the index points to stored transactions only, and the pool is within its size.
\<close>

definition pool_inv :: "Pool \<Rightarrow> bool" where
  "pool_inv p \<longleftrightarrow>
     (\<forall>i t. mapget (pl_tx p) i = Some t \<longrightarrow>
        tx_ID t = i \<and> acct_lookup (pl_byAcct p) (tx_From t) (tx_Nonce t) = Some i) \<and>
     (\<forall>a n i. acct_lookup (pl_byAcct p) a n = Some i \<longrightarrow>
        (\<exists>t. mapget (pl_tx p) i = Some t \<and> tx_From t = a \<and> tx_Nonce t = n)) \<and>
     int (maplen (pl_tx p)) \<le> max 0 (pl_max p)"

lemma pool_invD:
  assumes "pool_inv p"
  shows "mapget (pl_tx p) i = Some t \<Longrightarrow> tx_ID t = i"
    and "mapget (pl_tx p) i = Some t \<Longrightarrow> acct_lookup (pl_byAcct p) (tx_From t) (tx_Nonce t) = Some i"
    and "acct_lookup (pl_byAcct p) a n = Some i \<Longrightarrow>
           \<exists>t. mapget (pl_tx p) i = Some t \<and> tx_From t = a \<and> tx_Nonce t = n"
    and "int (maplen (pl_tx p)) \<le> max 0 (pl_max p)"
  using assms by (auto simp: pool_inv_def)

lemma pool_inv_New [inv_intros]: "pool_inv (Pool_New mx)"
  by (simp add: pool_inv_def Pool_New_def acct_lookup_def mapget0_def)

lemma pool_inv_drop:
  assumes inv: "pool_inv p" and t: "mapget (pl_tx p) i = Some t"
    and m: "\<And>a n. acct_lookup m a n =
              (if a = tx_From t \<and> n = tx_Nonce t then None else acct_lookup (pl_byAcct p) a n)"
  shows "pool_inv (p\<lparr>pl_tx := fmdrop i (pl_tx p), pl_byAcct := m\<rparr>)"
proof -
  note D = pool_invD [OF inv]
  have other: "\<not> (tx_From u = tx_From t \<and> tx_Nonce u = tx_Nonce t)"
    if "mapget (pl_tx p) j = Some u" and "j \<noteq> i" for j u
    using D(2) [OF that(1)] D(2) [OF t] that(2) by auto
  have still: "j \<noteq> i" if "acct_lookup m a n = Some j" for a n j
  proof
    assume "j = i"
    with that m have "acct_lookup (pl_byAcct p) a n = Some i" and "\<not> (a = tx_From t \<and> n = tx_Nonce t)"
      by (auto split: if_splits)
    from D(3) [OF this(1)] this(2) t show False by auto
  qed
  have "int (maplen (fmdrop i (pl_tx p))) \<le> max 0 (pl_max p)"
    using maplen_drop_le [of i "pl_tx p"] D(4) by simp
  moreover have "\<exists>u. mapget (fmdrop i (pl_tx p)) j = Some u \<and> tx_From u = a \<and> tx_Nonce u = n"
    if "acct_lookup m a n = Some j" for a n j
    using D(3) [of a n j] still [OF that] that by (auto simp: m split: if_splits)
  ultimately show ?thesis
    unfolding pool_inv_def using D(1,2) other by (auto simp: m split: if_splits)
qed

lemma pool_inv_remove_one: "pool_inv p \<Longrightarrow> pool_inv (remove_one p i)"
  by (auto simp: remove_one_def acct_lookup_drop_nonce intro: pool_inv_drop split: option.splits)

lemma pool_inv_Remove [inv_intros]: "pool_inv p \<Longrightarrow> pool_inv (Pool_Remove p ids)"
  unfolding Pool_Remove_def by (induction ids arbitrary: p) (simp_all add: pool_inv_remove_one)

lemma pool_inv_expire_one: "pool_inv (snd np) \<Longrightarrow> pool_inv (snd (expire_one now np i))"
  by (auto simp: expire_one_def acct_lookup_drop_nonce_account intro!: pool_inv_drop split: option.splits prod.splits)

lemma pool_inv_Expire [inv_intros]: "pool_inv p \<Longrightarrow> pool_inv (snd (Pool_Expire ord p now))"
proof -
  have "pool_inv (snd np) \<Longrightarrow> pool_inv (snd (foldl (expire_one now) np ord))" for np
    by (induction ord arbitrary: np) (simp_all add: pool_inv_expire_one)
  then show "pool_inv p \<Longrightarrow> pool_inv (snd (Pool_Expire ord p now))"
    by (simp add: Pool_Expire_def)
qed

section \<open>The pool as a set of transactions\<close>

text \<open>
  What the pool promises, without its index: a set of transactions in which a sender's nonce
  belongs to one transaction, which a higher fee replaces.
\<close>

definition contents :: "Pool \<Rightarrow> Tx set" where
  "contents p = {t. \<exists>i. mapget (pl_tx p) i = Some t}"

definition same_slot :: "Tx \<Rightarrow> Tx \<Rightarrow> bool" where
  "same_slot a b \<longleftrightarrow> tx_From a = tx_From b \<and> tx_Nonce a = tx_Nonce b"

definition spec_Add :: "int \<Rightarrow> Tx set \<Rightarrow> Tx \<Rightarrow> pool_error option \<times> Tx set" where
  "spec_Add mx S t =
     (if int (card S) \<ge> mx then (Some MempoolFull, S)
      else if \<exists>u \<in> S. tx_ID u = tx_ID t then (Some ErrDuplicate, S)
      else if \<exists>u \<in> S. same_slot u t \<and> tx_Fee t \<le> tx_Fee u then (Some ErrNonce, S)
      else (None, insert t {u \<in> S. \<not> same_slot u t}))"

lemma contents_iff: "pool_inv p \<Longrightarrow> t \<in> contents p \<longleftrightarrow> mapget (pl_tx p) (tx_ID t) = Some t"
  using pool_invD(1) by (auto simp: contents_def)

lemma contents_image: "contents p = (\<lambda>i. the (mapget (pl_tx p) i)) ` fset (fmdom (pl_tx p))"
  by (force simp: contents_def fmlookup_dom_iff)

lemma card_contents: "pool_inv p \<Longrightarrow> card (contents p) = maplen (pl_tx p)"
proof -
  assume "pool_inv p"
  then have "inj_on (\<lambda>i. the (mapget (pl_tx p) i)) (fset (fmdom (pl_tx p)))"
    by (intro inj_onI) (metis fmlookup_dom_iff option.sel pool_invD(1))
  then show ?thesis
    by (simp add: contents_image card_image maplen_def fcard.rep_eq)
qed

lemma finite_contents [simp]: "finite (contents p)"
  by (simp add: contents_image)

lemma slot_unique:
  assumes "pool_inv p" and "t \<in> contents p" and "u \<in> contents p" and "same_slot t u"
  shows "t = u"
  using assms pool_invD(2) [OF assms(1)] by (auto simp: contents_def same_slot_def) (metis option.inject)

lemma slot_lookup:
  assumes "pool_inv p"
  shows "acct_lookup (pl_byAcct p) (tx_From t) (tx_Nonce t) = Some i \<longleftrightarrow>
         (\<exists>u \<in> contents p. same_slot u t \<and> tx_ID u = i)"
proof
  assume "acct_lookup (pl_byAcct p) (tx_From t) (tx_Nonce t) = Some i"
  from pool_invD(3) [OF assms this] obtain u where u: "mapget (pl_tx p) i = Some u" "same_slot u t"
    by (auto simp: same_slot_def)
  with pool_invD(1) [OF assms u(1)] show "\<exists>u \<in> contents p. same_slot u t \<and> tx_ID u = i"
    by (auto simp: contents_def)
next
  assume "\<exists>u \<in> contents p. same_slot u t \<and> tx_ID u = i"
  then obtain u where u: "u \<in> contents p" "same_slot u t" "tx_ID u = i" by blast
  then have "mapget (pl_tx p) i = Some u" using contents_iff [OF assms, of u] by simp
  from pool_invD(2) [OF assms this] u(2) show "acct_lookup (pl_byAcct p) (tx_From t) (tx_Nonce t) = Some i"
    by (simp add: same_slot_def)
qed

text \<open>\<open>Add\<close> by the slot of the transaction, with the index read through \<^const>\<open>acct_lookup\<close>.\<close>

definition touch :: "Pool \<Rightarrow> Tx \<Rightarrow> Pool" where
  "touch p t = (if mapget (pl_byAcct p) (tx_From t) = None
                then p\<lparr>pl_byAcct := fmupd (tx_From t) fmempty (pl_byAcct p)\<rparr> else p)"

definition store :: "Pool \<Rightarrow> Tx \<Rightarrow> Pool" where
  "store p t = p\<lparr>pl_tx := fmupd (tx_ID t) t (pl_tx p),
                 pl_byAcct := fmupd (tx_From t) (fmupd (tx_Nonce t) (tx_ID t) (mapget0 fmempty (pl_byAcct p) (tx_From t))) (pl_byAcct p)\<rparr>"

lemma touch_simps [simp]:
  "pl_tx (touch p t) = pl_tx p" "pl_max (touch p t) = pl_max p"
  "acct_lookup (pl_byAcct (touch p t)) a n = acct_lookup (pl_byAcct p) a n"
  by (auto simp: touch_def acct_lookup_def mapget0_def)

lemma store_simps [simp]:
  "pl_tx (store p t) = fmupd (tx_ID t) t (pl_tx p)" "pl_max (store p t) = pl_max p"
  "acct_lookup (pl_byAcct (store p t)) a n =
     (if a = tx_From t \<and> n = tx_Nonce t then Some (tx_ID t) else acct_lookup (pl_byAcct p) a n)"
  by (auto simp: store_def acct_lookup_def mapget0_def)

lemma Pool_Add_cases:
  "Pool_Add p t0 =
     (let t = with_id t0; old = acct_lookup (pl_byAcct p) (tx_From t) (tx_Nonce t)
      in if int (maplen (pl_tx p)) \<ge> pl_max p then (Some MempoolFull, p)
         else if mapget (pl_tx p) (tx_ID t) \<noteq> None then (Some ErrDuplicate, p)
         else (case old of
                 None \<Rightarrow> (None, store (touch p t) t)
               | Some i \<Rightarrow> if tx_Fee t \<le> fee_of (pl_tx p) i then (Some ErrNonce, touch p t)
                           else (None, store ((touch p t)\<lparr>pl_tx := fmdrop i (pl_tx p)\<rparr>) t)))"
  by (auto simp: Pool_Add_def touch_def store_def acct_lookup_def mapget0_def Let_def split: option.splits)

lemma pool_inv_touch: "pool_inv p \<Longrightarrow> pool_inv (touch p t)"
  by (simp add: pool_inv_def)

text \<open>Storing a new transaction in a free slot, after the transaction \<open>out\<close> of that slot was deleted.\<close>

lemma pool_inv_store:
  assumes inv: "pool_inv p" and new: "mapget (pl_tx p) (tx_ID t) = None"
    and room: "int (maplen (pl_tx p)) < pl_max p"
    and old: "acct_lookup (pl_byAcct p) (tx_From t) (tx_Nonce t) = old"
    and txs: "\<And>j. mapget txs j = (if old = Some j then None else mapget (pl_tx p) j)"
    and size: "maplen txs \<le> maplen (pl_tx p)"
  shows "pool_inv (store (p\<lparr>pl_tx := txs\<rparr>) t)"
proof -
  note D = pool_invD [OF inv]
  have other: "\<not> (tx_From u = tx_From t \<and> tx_Nonce u = tx_Nonce t)"
    if "mapget (pl_tx p) j = Some u" and "old \<noteq> Some j" for j u
    using D(2) [OF that(1)] old that(2) by auto
  have kept: "old \<noteq> Some j"
    if "acct_lookup (pl_byAcct p) a n = Some j" and "\<not> (a = tx_From t \<and> n = tx_Nonce t)" for a n j
    using D(3) [OF that(1)] D(3) [of "tx_From t" "tx_Nonce t" j] that(2) old by auto
  let ?s = "store (p\<lparr>pl_tx := txs\<rparr>) t"
  have "tx_ID u = j \<and> acct_lookup (pl_byAcct ?s) (tx_From u) (tx_Nonce u) = Some j"
    if "mapget (pl_tx ?s) j = Some u" for j u
  proof (cases "j = tx_ID t")
    case False
    with that have u: "mapget (pl_tx p) j = Some u" "old \<noteq> Some j"
      by (auto simp: txs split: if_splits)
    show ?thesis using D(1,2) [OF u(1)] other [OF u] by auto
  qed (use that in auto)
  moreover have "\<exists>u. mapget (pl_tx ?s) j = Some u \<and> tx_From u = a \<and> tx_Nonce u = n"
    if "acct_lookup (pl_byAcct ?s) a n = Some j" for a n j
  proof (cases "a = tx_From t \<and> n = tx_Nonce t")
    case False
    with that have j: "acct_lookup (pl_byAcct p) a n = Some j" by simp
    show ?thesis using D(3) [OF j] kept [OF j False] new by (auto simp: txs)
  qed (use that in auto)
  moreover have "int (maplen (pl_tx ?s)) \<le> max 0 (pl_max ?s)"
    using room size by (simp add: maplen_upd)
  ultimately show ?thesis unfolding pool_inv_def by blast
qed

lemma Pool_Add_error:
  "Pool_Add p t = (Some e, p') \<Longrightarrow> p' = p \<or> (e = ErrNonce \<and> p' = touch p (with_id t))"
  by (auto simp: Pool_Add_cases Let_def split: if_splits option.splits)

lemma Pool_Add_ok:
  assumes inv: "pool_inv p" and ok: "Pool_Add p t0 = (None, p')"
  defines "t \<equiv> with_id t0"
  shows "pool_inv p' \<and> contents p' = insert t {u \<in> contents p. \<not> same_slot u t}"
proof -
  define old where "old = acct_lookup (pl_byAcct p) (tx_From t) (tx_Nonce t)"
  define txs where "txs = (case old of None \<Rightarrow> pl_tx p | Some i \<Rightarrow> fmdrop i (pl_tx p))"
  have room: "int (maplen (pl_tx p)) < pl_max p" and new: "mapget (pl_tx p) (tx_ID t) = None"
    and p': "p' = store ((touch p t)\<lparr>pl_tx := txs\<rparr>) t"
    using ok by (auto simp: Pool_Add_cases Let_def t_def txs_def old_def touch_def split: if_splits option.splits)
  have txs: "mapget txs j = (if old = Some j then None else mapget (pl_tx p) j)" for j
    by (auto simp: txs_def split: option.splits)
  have "maplen txs \<le> maplen (pl_tx p)"
    by (auto simp: txs_def maplen_drop_le split: option.splits)
  then have "pool_inv p'"
    unfolding p' using pool_inv_touch [OF inv] room new
    by (intro pool_inv_store [where old = old]) (simp_all add: old_def txs)
  moreover have "u \<in> contents p' \<longleftrightarrow> u = t \<or> u \<in> contents p \<and> \<not> same_slot u t" for u
  proof -
    have "old = Some (tx_ID u) \<longleftrightarrow> same_slot u t" if "mapget (pl_tx p) (tx_ID u) = Some u"
      using pool_invD(2) [OF inv that] pool_invD(3) [OF inv, of "tx_From t" "tx_Nonce t" "tx_ID u"] that
      by (auto simp: old_def same_slot_def)
    then show ?thesis
      using new unfolding contents_iff [OF \<open>pool_inv p'\<close>] contents_iff [OF inv] by (auto simp: p' txs)
  qed
  ultimately show ?thesis by blast
qed

lemma pool_inv_Add [inv_intros]: "pool_inv p \<Longrightarrow> pool_inv (snd (Pool_Add p t))"
proof (cases "Pool_Add p t")
  case (Pair e p')
  moreover assume "pool_inv p"
  ultimately show ?thesis
    using Pool_Add_ok [of p t p'] Pool_Add_error [of p t _ p'] by (cases e) (auto intro: pool_inv_touch)
qed

lemma spec_Add_guards:
  assumes inv: "pool_inv p"
  shows "(\<exists>u \<in> contents p. tx_ID u = i) \<longleftrightarrow> mapget (pl_tx p) i \<noteq> None"
    and "(\<exists>u \<in> contents p. same_slot u t \<and> f \<le> tx_Fee u) \<longleftrightarrow>
         (\<exists>i. acct_lookup (pl_byAcct p) (tx_From t) (tx_Nonce t) = Some i \<and> f \<le> fee_of (pl_tx p) i)"
proof -
  show "(\<exists>u \<in> contents p. tx_ID u = i) \<longleftrightarrow> mapget (pl_tx p) i \<noteq> None"
    using pool_invD(1) [OF inv] by (auto simp: contents_def)
  have "fee_of (pl_tx p) (tx_ID u) = tx_Fee u" if "u \<in> contents p" for u
    using that by (simp add: contents_iff [OF inv] fee_of_def)
  then show "(\<exists>u \<in> contents p. same_slot u t \<and> f \<le> tx_Fee u) \<longleftrightarrow>
      (\<exists>i. acct_lookup (pl_byAcct p) (tx_From t) (tx_Nonce t) = Some i \<and> f \<le> fee_of (pl_tx p) i)"
    unfolding slot_lookup [OF inv] by auto
qed

lemma contents_touch [simp]: "contents (touch p t) = contents p"
  by (simp add: contents_def)

lemma Pool_Add_spec:
  assumes "pool_inv p"
  shows "map_prod id contents (Pool_Add p t) = spec_Add (pl_max p) (contents p) (with_id t)"
proof (cases "fst (Pool_Add p t)")
  case None
  then obtain p' where p': "Pool_Add p t = (None, p')" by (cases "Pool_Add p t") auto
  with Pool_Add_ok [OF assms p'] show ?thesis
    unfolding spec_Add_def spec_Add_guards [OF assms] card_contents [OF assms]
    by (auto simp: Pool_Add_cases Let_def split: if_splits option.splits)
next
  case (Some e)
  then show ?thesis
    unfolding spec_Add_def spec_Add_guards [OF assms] card_contents [OF assms]
    by (auto simp: Pool_Add_cases Let_def split: if_splits option.splits)
qed

text \<open>C8: \<open>Pool.Add\<close> implements the set specification: it refuses when the pool is full, when the
  identifier is known, or when a transaction of the same sender and nonce pays at least the fee, and
  leaves the set as it was; otherwise it adds the transaction, in place of the one of the same sender
  and nonce if there is one.\<close>

theorem Pool_Add_refines:
  assumes "pool_inv p"
  shows "map_prod id contents (Pool_Add p t) = spec_Add (pl_max p) (contents p) (with_id t)"
  using assms by (rule Pool_Add_spec)

definition pool_tx :: "string \<Rightarrow> string \<Rightarrow> u64 \<Rightarrow> u64 \<Rightarrow> Tx" where
  "pool_tx i a n f = example_tx\<lparr>tx_ID := i, tx_From := a, tx_Nonce := n, tx_Fee := f\<rparr>"

definition example_pool :: Pool where
  "example_pool = snd (Pool_Add (snd (Pool_Add (Pool_New 4) (pool_tx ''a'' ''alice'' 1 5))) (pool_tx ''b'' ''bob'' 1 7))"

lemma pool_inv_example: "pool_inv example_pool"
  unfolding example_pool_def by (intro inv_intros)

theorem Pool_Add_refines_witness:
  "fst (Pool_Add example_pool (pool_tx ''c'' ''alice'' 1 9)) = None \<and>
   map_prod id contents (Pool_Add example_pool (pool_tx ''c'' ''alice'' 1 9)) =
   spec_Add (pl_max example_pool) (contents example_pool) (with_id (pool_tx ''c'' ''alice'' 1 9))"
proof
  show "fst (Pool_Add example_pool (pool_tx ''c'' ''alice'' 1 9)) = None"
    by (simp add: Pool_Add_def example_pool_def Pool_New_def pool_tx_def with_id_def fee_of_def mapget0_def maplen_upd Let_def)
qed (rule Pool_Add_refines [OF pool_inv_example])

section \<open>Removing, expiring and listing\<close>

lemma contents_drop:
  assumes "pool_inv p"
  shows "contents (p\<lparr>pl_tx := fmdrop i (pl_tx p), pl_byAcct := m\<rparr>) = {t \<in> contents p. tx_ID t \<noteq> i}"
  using pool_invD(1) [OF assms] by (auto simp: contents_def)

lemma contents_remove_one:
  assumes "pool_inv p"
  shows "contents (remove_one p i) = {t \<in> contents p. tx_ID t \<noteq> i}"
proof (cases "mapget (pl_tx p) i")
  case None
  then have "\<forall>t \<in> contents p. tx_ID t \<noteq> i" by (metis assms contents_iff option.distinct(1))
  with None show ?thesis by (auto simp: remove_one_def)
qed (simp add: remove_one_def contents_drop [OF assms])

lemma contents_Remove: "pool_inv p \<Longrightarrow> contents (Pool_Remove p ids) = {t \<in> contents p. tx_ID t \<notin> set ids}"
  unfolding Pool_Remove_def
proof (induction ids arbitrary: p)
  case (Cons i ids)
  then show ?case by (auto simp: pool_inv_remove_one contents_remove_one)
qed simp

lemma pl_max_Remove: "pl_max (Pool_Remove p ids) = pl_max p"
proof -
  have "pl_max (remove_one p i) = pl_max p" for p i by (simp add: remove_one_def split: option.splits)
  then show ?thesis unfolding Pool_Remove_def by (induction ids arbitrary: p) simp_all
qed

lemma expire_one_effect:
  assumes "pool_inv p" and "i \<in> fset (fmdom (pl_tx p))"
  shows "contents (snd (expire_one now (n, p) i)) = {t \<in> contents p. \<not> (tx_ID t = i \<and> expired_at now t)}"
    and "fst (expire_one now (n, p) i) = n + card {t \<in> contents p. tx_ID t = i \<and> expired_at now t}"
proof -
  from assms(2) obtain t where t: "mapget (pl_tx p) i = Some t" by (auto simp: fmlookup_dom_iff)
  then have only: "u \<in> contents p \<and> tx_ID u = i \<longleftrightarrow> u = t" for u
    by (metis assms(1) contents_iff option.inject pool_invD(1))
  have "{u \<in> contents p. tx_ID u = i \<and> expired_at now u} = {u. (u \<in> contents p \<and> tx_ID u = i) \<and> expired_at now u}"
    by simp
  also have "\<dots> = (if expired_at now t then {t} else {})" unfolding only by auto
  finally have "{u \<in> contents p. tx_ID u = i \<and> expired_at now u} = (if expired_at now t then {t} else {})" .
  then show "fst (expire_one now (n, p) i) = n + card {t \<in> contents p. tx_ID t = i \<and> expired_at now t}"
    by (simp add: expire_one_def t)
  show "contents (snd (expire_one now (n, p) i)) = {t \<in> contents p. \<not> (tx_ID t = i \<and> expired_at now t)}"
  proof (cases "expired_at now t")
    case True
    have "\<not> (tx_ID u = i \<and> expired_at now u) \<longleftrightarrow> tx_ID u \<noteq> i" if "u \<in> contents p" for u
      using True only [of u] that by auto
    with True show ?thesis by (auto simp: expire_one_def t contents_drop [OF assms(1)])
  next
    case False
    have "\<not> (tx_ID u = i \<and> expired_at now u)" if "u \<in> contents p" for u
      using False only [of u] that by auto
    with False show ?thesis by (auto simp: expire_one_def t)
  qed
qed

lemma expire_one_others: "mapget (pl_tx (snd (expire_one now (n, p) i))) j = (if j = i \<and> (\<exists>t. mapget (pl_tx p) i = Some t \<and> expired_at now t) then None else mapget (pl_tx p) j)"
  by (auto simp: expire_one_def split: option.splits)

lemma expire_loop:
  "pool_inv p \<Longrightarrow> distinct ord \<Longrightarrow> set ord \<subseteq> fset (fmdom (pl_tx p)) \<Longrightarrow>
   contents (snd (foldl (expire_one now) (n, p) ord)) = {t \<in> contents p. \<not> (tx_ID t \<in> set ord \<and> expired_at now t)} \<and>
   fst (foldl (expire_one now) (n, p) ord) = n + card {t \<in> contents p. tx_ID t \<in> set ord \<and> expired_at now t}"
proof (induction ord arbitrary: n p)
  case (Cons i ord)
  obtain n' p' where np: "expire_one now (n, p) i = (n', p')" by (cases "expire_one now (n, p) i")
  have i: "i \<in> fset (fmdom (pl_tx p))" using Cons.prems(3) by simp
  have inv': "pool_inv p'"
    using pool_inv_expire_one [of "(n, p)" now i] Cons.prems(1) np by simp
  have sub: "set ord \<subseteq> fset (fmdom (pl_tx p'))"
    using Cons.prems(2,3) expire_one_others [of now n p i] np by (auto simp: fmlookup_dom_iff subset_iff)
  have eff: "contents p' = {t \<in> contents p. \<not> (tx_ID t = i \<and> expired_at now t)}"
    "n' = n + card {t \<in> contents p. tx_ID t = i \<and> expired_at now t}"
    using expire_one_effect [OF Cons.prems(1) i, of now n] np by simp_all
  have split: "{t \<in> contents p. tx_ID t \<in> set (i # ord) \<and> expired_at now t} =
      {t \<in> contents p. tx_ID t = i \<and> expired_at now t} \<union> {t \<in> contents p'. tx_ID t \<in> set ord \<and> expired_at now t}"
    using Cons.prems(2) by (auto simp: eff)
  have "card {t \<in> contents p. tx_ID t \<in> set (i # ord) \<and> expired_at now t} =
      card {t \<in> contents p. tx_ID t = i \<and> expired_at now t} + card {t \<in> contents p'. tx_ID t \<in> set ord \<and> expired_at now t}"
    unfolding split by (rule card_Un_disjoint) (auto simp: eff)
  moreover have "{t \<in> contents p'. \<not> (tx_ID t \<in> set ord \<and> expired_at now t)} =
      {t \<in> contents p. \<not> (tx_ID t \<in> set (i # ord) \<and> expired_at now t)}"
    by (auto simp: eff(1))
  moreover have "distinct ord" using Cons.prems(2) by simp
  note Cons.IH [OF inv' this sub, of n']
  ultimately show ?case by (simp only: foldl.simps np eff(2) add.assoc)
qed simp

lemma iterates_contents: "pool_inv p \<Longrightarrow> iterates ord (pl_tx p) \<Longrightarrow> t \<in> contents p \<Longrightarrow> tx_ID t \<in> set ord"
  by (auto simp: contents_iff iterates_lookup)

text \<open>C24: \<open>Expire\<close>, whatever order its loop visits the map in and although the loop deletes from the
  map it ranges over, removes exactly the expired transactions, returns their number and keeps the
  pool's invariant.\<close>

theorem Expire_removes_expired:
  assumes "pool_inv p" and "iterates ord (pl_tx p)"
  shows "pool_inv (snd (Pool_Expire ord p now)) \<and>
         contents (snd (Pool_Expire ord p now)) = {t \<in> contents p. \<not> expired_at now t} \<and>
         fst (Pool_Expire ord p now) = card {t \<in> contents p. expired_at now t}"
proof -
  have "set ord \<subseteq> fset (fmdom (pl_tx p))"
    using assms(2) by (metis fset_of_list.rep_eq iterates_def subset_refl)
  note loop = expire_loop [OF assms(1) iterates_distinct [OF assms(2)] this, of now 0]
  have "{t \<in> contents p. \<not> (tx_ID t \<in> set ord \<and> expired_at now t)} = {t \<in> contents p. \<not> expired_at now t}"
    and "{t \<in> contents p. tx_ID t \<in> set ord \<and> expired_at now t} = {t \<in> contents p. expired_at now t}"
    using iterates_contents [OF assms] by blast+
  with loop pool_inv_Expire [OF assms(1)] show ?thesis
    by (simp add: Pool_Expire_def)
qed

definition expiring_pool :: Pool where
  "expiring_pool = snd (Pool_Add (snd (Pool_Add (Pool_New 4) (pool_tx ''a'' ''alice'' 1 5))) ((pool_tx ''b'' ''bob'' 1 7)\<lparr>tx_ExpiresAt := 1\<rparr>))"

lemma pool_inv_expiring: "pool_inv expiring_pool"
  unfolding expiring_pool_def by (intro inv_intros)

lemma pl_tx_expiring:
  "pl_tx expiring_pool = fmupd ''b'' ((pool_tx ''b'' ''bob'' 1 7)\<lparr>tx_ExpiresAt := 1\<rparr>) (fmupd ''a'' (pool_tx ''a'' ''alice'' 1 5) fmempty)"
  by (simp add: expiring_pool_def Pool_Add_def Pool_New_def pool_tx_def with_id_def mapget0_def maplen_upd Let_def)

lemma iterates_expiring: "iterates [''b'', ''a''] (pl_tx expiring_pool)"
  by (auto simp: pl_tx_expiring iterates_def fset_of_list.rep_eq)

theorem Expire_removes_expired_witness:
  "card (contents expiring_pool) = 2 \<and>
   contents (snd (Pool_Expire [''b'', ''a''] expiring_pool (time_Unix 9))) =
     {t \<in> contents expiring_pool. \<not> expired_at (time_Unix 9) t}"
  using Expire_removes_expired [OF pool_inv_expiring iterates_expiring, of "time_Unix 9"]
  by (simp add: card_contents pool_inv_expiring pl_tx_expiring maplen_upd)

interpretation by_fee: slice_less fee_greater
  by unfold_locales (auto simp: fee_greater_def)

interpretation by_fee_and_nonce: slice_less select_less
  by unfold_locales (auto simp: select_less_def split: if_splits)

lemma List_listed_sorted:
  assumes "pool_inv p" and "iterates ord (pl_tx p)"
  shows "sorted_wrt (\<lambda>a b. tx_Fee a \<ge> tx_Fee b) (Pool_List ord now p) \<and> distinct (Pool_List ord now p) \<and>
         set (Pool_List ord now p) = {t \<in> contents p. \<not> expired_unix (Time_Unix (now (tx_ID t))) t}"
proof -
  let ?get = "\<lambda>i. the (mapget (pl_tx p) i)"
  have get: "mapget (pl_tx p) i = Some (?get i) \<and> tx_ID (?get i) = i" if "i \<in> set ord" for i
    using that assms(1) iterates_lookup [OF assms(2), of i] by (metis option.sel pool_invD(1))
  then have "inj_on ?get (set ord)" by (intro inj_on_inverseI [where g = tx_ID]) blast
  then have "inj_on ?get (set (filter (\<lambda>i. \<not> expired_unix (Time_Unix (now i)) (?get i)) ord))"
    by (rule inj_on_subset) simp
  then have "distinct (map ?get (filter (\<lambda>i. \<not> expired_unix (Time_Unix (now i)) (?get i)) ord))"
    using iterates_distinct [OF assms(2)] by (simp add: distinct_map)
  moreover have "sorted_wrt (\<lambda>a b. tx_Fee a \<ge> tx_Fee b) (Pool_List ord now p)"
    using by_fee.sort_slice_in_order by (simp add: Pool_List_def fee_greater_def not_less)
  moreover have "?get ` {i \<in> set ord. \<not> expired_unix (Time_Unix (now i)) (?get i)} =
      {t \<in> contents p. \<not> expired_unix (Time_Unix (now (tx_ID t))) t}"
  proof (intro equalityI subsetI)
    fix t assume "t \<in> ?get ` {i \<in> set ord. \<not> expired_unix (Time_Unix (now i)) (?get i)}"
    then obtain i where i: "i \<in> set ord" "\<not> expired_unix (Time_Unix (now i)) (?get i)" "t = ?get i" by blast
    with get [OF i(1)] show "t \<in> {t \<in> contents p. \<not> expired_unix (Time_Unix (now (tx_ID t))) t}"
      by (metis (mono_tags, lifting) assms(1) contents_iff mem_Collect_eq)
  next
    fix t assume t: "t \<in> {t \<in> contents p. \<not> expired_unix (Time_Unix (now (tx_ID t))) t}"
    then have "tx_ID t \<in> set ord" "?get (tx_ID t) = t"
      using iterates_contents [OF assms] contents_iff [OF assms(1), of t] by auto
    with t show "t \<in> ?get ` {i \<in> set ord. \<not> expired_unix (Time_Unix (now i)) (?get i)}"
      by (intro image_eqI [where x = "tx_ID t"]) auto
  qed
  ultimately show ?thesis by (simp add: Pool_List_def)
qed

lemmas List_listed = List_listed_sorted [THEN conjunct2, THEN conjunct2]

text \<open>C25: \<open>List\<close> returns every transaction of the pool that has not expired, each once, the highest
  fee first, whatever order the map is visited in.\<close>

theorem List_sorted_unexpired:
  assumes "pool_inv p" and "iterates ord (pl_tx p)"
  shows "sorted_wrt (\<lambda>a b. tx_Fee a \<ge> tx_Fee b) (Pool_List ord now p) \<and> distinct (Pool_List ord now p) \<and>
         set (Pool_List ord now p) = {t \<in> contents p. \<not> expired_unix (Time_Unix (now (tx_ID t))) t}"
  using assms by (rule List_listed_sorted)

theorem List_sorted_unexpired_witness:
  "iterates [''b'', ''a''] (pl_tx expiring_pool) \<and>
   set (Pool_List [''b'', ''a''] (\<lambda>i. 0) expiring_pool) =
     {t \<in> contents expiring_pool. \<not> expired_unix (Time_Unix 0) t}"
  using List_sorted_unexpired [OF pool_inv_expiring iterates_expiring, of "\<lambda>i. 0"] iterates_expiring by simp

text \<open>C26: for a limit that is not negative \<open>Select\<close> returns the best \<open>limit\<close> transactions: what it returns
  followed by what it leaves out is a reordering of its input in which every transaction has a higher fee
  than any later one, or the same fee and a nonce that is not higher, and transactions with equal fee and
  nonce keep their order.\<close>

theorem Select_best:
  assumes "0 \<le> limit"
  shows "\<exists>out rest. Select txs limit = Some out \<and> length out = min (nat limit) (length txs) \<and>
           mset (out @ rest) = mset txs \<and>
           sorted_wrt (\<lambda>a b. tx_Fee a > tx_Fee b \<or> tx_Fee a = tx_Fee b \<and> tx_Nonce a \<le> tx_Nonce b) (out @ rest) \<and>
           filter (\<lambda>b. tx_Fee b = f \<and> tx_Nonce b = n) (out @ rest) = filter (\<lambda>b. tx_Fee b = f \<and> tx_Nonce b = n) txs"
proof -
  let ?s = "sort_slice select_less txs"
  have "Select txs limit = Some (take (nat limit) ?s)"
    using assms by (auto simp: Select_def Let_def)
  moreover have "(\<not> select_less y (pool_tx [] [] n f) \<and> \<not> select_less (pool_tx [] [] n f) y) = (tx_Fee y = f \<and> tx_Nonce y = n)" for y
    by (auto simp: select_less_def pool_tx_def)
  then have "filter (\<lambda>b. tx_Fee b = f \<and> tx_Nonce b = n) ?s = filter (\<lambda>b. tx_Fee b = f \<and> tx_Nonce b = n) txs"
    using by_fee_and_nonce.sort_slice_stable [of "pool_tx [] [] n f" txs] by simp
  moreover have "sorted_wrt (\<lambda>a b. tx_Fee a > tx_Fee b \<or> tx_Fee a = tx_Fee b \<and> tx_Nonce a \<le> tx_Nonce b) ?s"
    by (rule sorted_wrt_mono_rel [OF _ by_fee_and_nonce.sort_slice_in_order]) (auto simp: select_less_def split: if_splits)
  ultimately show ?thesis
    by (intro exI [of _ "take (nat limit) ?s"] exI [of _ "drop (nat limit) ?s"]) (simp add: min.commute)
qed

theorem Select_best_witness:
  "\<exists>out rest. Select [pool_tx ''a'' ''x'' 2 5, pool_tx ''b'' ''y'' 1 5] 1 = Some out \<and> length out = 1 \<and>
     mset (out @ rest) = {#pool_tx ''a'' ''x'' 2 5, pool_tx ''b'' ''y'' 1 5#} \<and>
     sorted_wrt (\<lambda>a b. tx_Fee a > tx_Fee b \<or> tx_Fee a = tx_Fee b \<and> tx_Nonce a \<le> tx_Nonce b) (out @ rest)"
proof -
  let ?a = "pool_tx ''a'' ''x'' 2 5" and ?b = "pool_tx ''b'' ''y'' 1 5"
  from Select_best [of 1 "[?a, ?b]" 0 0] obtain out rest where
    "Select [?a, ?b] 1 = Some out" "length out = min (nat 1) (length [?a, ?b])"
    "mset (out @ rest) = mset [?a, ?b]"
    "sorted_wrt (\<lambda>a b. tx_Fee a > tx_Fee b \<or> tx_Fee a = tx_Fee b \<and> tx_Nonce a \<le> tx_Nonce b) (out @ rest)"
    by auto
  then show ?thesis by (intro exI [of _ out] exI [of _ rest]) simp
qed

section \<open>Every state of the pool\<close>

inductive pool_step :: "Pool \<Rightarrow> Pool \<Rightarrow> bool" where
  step_Add: "Pool_Add p t = (e, p') \<Longrightarrow> pool_step p p'"
| step_Remove: "pool_step p (Pool_Remove p ids)"
| step_Expire: "iterates ord (pl_tx p) \<Longrightarrow> Pool_Expire ord p now = (n, p') \<Longrightarrow> pool_step p p'"

inductive_cases pool_stepE: "pool_step p p'"

interpretation pool: invariant_system "\<lambda>p. \<exists>mx. p = Pool_New mx" pool_step pool_inv
proof
  fix p p' assume "pool_inv p" and "pool_step p p'"
  then show "pool_inv p'"
    by (auto elim!: pool_stepE intro: inv_intros) (metis pool_inv_Add pool_inv_Expire snd_conv)+
qed (auto intro: inv_intros)

text \<open>C9: in every state a sequence of \<open>Add\<close>, \<open>Remove\<close> and \<open>Expire\<close> calls can reach from an empty pool,
  in any interleaving, no two transactions share a sender and nonce or an identifier, each can be
  looked up by its identifier and by its sender and nonce, and the pool is within its size.\<close>

theorem reachable_pool_consistent:
  assumes "pool_step\<^sup>*\<^sup>* (Pool_New mx) p" and "t \<in> contents p" and "u \<in> contents p"
  shows "(same_slot t u \<or> tx_ID t = tx_ID u \<longrightarrow> t = u) \<and>
         mapget (pl_tx p) (tx_ID t) = Some t \<and> acct_lookup (pl_byAcct p) (tx_From t) (tx_Nonce t) = Some (tx_ID t) \<and>
         int (card (contents p)) \<le> pl_max p"
proof -
  have inv: "pool_inv p" by (rule pool.reachable_inv [OF _ assms(1)]) blast
  have "0 < card (contents p)" using assms(2) by (auto simp: card_gt_0_iff)
  with pool_invD(4) [OF inv] have "int (card (contents p)) \<le> pl_max p"
    by (simp add: card_contents [OF inv])
  moreover have t: "mapget (pl_tx p) (tx_ID t) = Some t" using assms(2) by (simp add: contents_iff [OF inv])
  moreover have "mapget (pl_tx p) (tx_ID u) = Some u" using assms(3) by (simp add: contents_iff [OF inv])
  ultimately show ?thesis
    using slot_unique [OF inv assms(2,3)] pool_invD(2) [OF inv t] by (metis option.inject)
qed

lemma example_pool_reachable: "pool_step\<^sup>*\<^sup>* (Pool_New 4) example_pool"
  unfolding example_pool_def
  by (rule rtranclp_trans; rule r_into_rtranclp; rule step_Add; rule surjective_pairing)

theorem reachable_pool_consistent_witness:
  "pool_tx ''a'' ''alice'' 1 5 \<in> contents example_pool \<and> int (card (contents example_pool)) \<le> 4"
proof -
  have a: "pool_tx ''a'' ''alice'' 1 5 \<in> contents example_pool"
    by (simp add: contents_iff pool_inv_example)
      (simp add: example_pool_def Pool_Add_def Pool_New_def pool_tx_def with_id_def mapget0_def maplen_upd Let_def)
  have "pl_max example_pool = 4"
    by (simp add: example_pool_def Pool_Add_def Pool_New_def pool_tx_def with_id_def mapget0_def maplen_upd Let_def)
  with reachable_pool_consistent [OF example_pool_reachable a a] a show ?thesis by simp
qed

section \<open>Reservations and nonces\<close>

inductive others_step :: "string \<Rightarrow> Reservation \<Rightarrow> Reservation \<Rightarrow> bool" for i where
  others_Acquire: "j \<noteq> i \<Longrightarrow> Reservation_Acquire r k j = (b, r') \<Longrightarrow> others_step i r r'"
| others_Release: "j \<noteq> i \<Longrightarrow> others_step i r (Reservation_Release r k j)"

inductive_cases others_stepE: "others_step i r r'"

definition held_by :: "string \<Rightarrow> string \<Rightarrow> Reservation \<Rightarrow> bool" where
  "held_by key i r \<longleftrightarrow> i \<noteq> '''' \<and> mapget (rs_owner r) key = Some i"

lemma held_by_Acquire: "held_by key i r \<Longrightarrow> j \<noteq> i \<Longrightarrow> Reservation_Acquire r k j = (b, r') \<Longrightarrow> held_by key i r'"
  by (auto simp: held_by_def Reservation_Acquire_def mapget0_def Let_def split: if_splits)

lemma held_by_Release: "held_by key i r \<Longrightarrow> j \<noteq> i \<Longrightarrow> held_by key i (Reservation_Release r k j)"
  by (auto simp: held_by_def Reservation_Release_def mapget0_def)

interpretation reservation: invariant_system "held_by key i" "others_step i" "held_by key i" for key i
  by unfold_locales (auto elim!: others_stepE intro: held_by_Acquire held_by_Release)

text \<open>after \<open>Acquire(key, i)\<close> succeeded for a non-empty \<open>i\<close>, nobody else acquires the key,
  whatever other owners acquire and release in between, until \<open>i\<close> releases it; then it is free.\<close>

theorem Reservation_exclusive:
  assumes "i \<noteq> ''''" and "Reservation_Acquire r key i = (True, r1)" and "(others_step i)\<^sup>*\<^sup>* r1 r2" and "j \<noteq> i"
  shows "Reservation_Acquire r2 key j = (False, r2) \<and>
         fst (Reservation_Acquire (Reservation_Release r2 key i) key j)"
proof -
  have "held_by key i r1"
    using assms(1,2) by (auto simp: held_by_def Reservation_Acquire_def Let_def split: if_splits)
  then have "held_by key i r2" using assms(3) by (rule reservation.reachable_inv)
  then show ?thesis
    using assms(4) by (simp add: held_by_def Reservation_Acquire_def Reservation_Release_def mapget0_def)
qed

theorem Reservation_exclusive_witness:
  "\<not> fst (Reservation_Acquire \<lparr>rs_owner = fmupd ''k'' ''a'' fmempty\<rparr> ''k'' ''b'')"
proof -
  have "Reservation_Acquire NewReservation ''k'' ''a'' = (True, \<lparr>rs_owner = fmupd ''k'' ''a'' fmempty\<rparr>)"
    by (simp add: Reservation_Acquire_def NewReservation_def mapget0_def)
  from Reservation_exclusive [OF _ this rtranclp.rtrancl_refl, of "''b''"] show ?thesis by simp
qed

text \<open>\<open>ValidateNonce\<close> accepts the window of 101 nonces from the expected one while the window does not
  run over the largest nonce; beyond that the bound wraps around and the expected nonce is refused.\<close>

lemma ValidateNonce_window:
  assumes "unat expected + 100 < 2 ^ 64"
  shows "ValidateNonce expected t = None \<longleftrightarrow> unat expected \<le> unat (tx_Nonce t) \<and> unat (tx_Nonce t) \<le> unat expected + 100"
  using assms by (auto simp: ValidateNonce_def word_less_nat_alt unat_word_ariths)

lemma ValidateNonce_wraps_around:
  assumes "2 ^ 64 \<le> unat expected + 100" and "tx_Nonce t = expected"
  shows "ValidateNonce expected t = Some NonceGapTooLarge"
proof -
  have "unat expected < 2 ^ 64" using unsigned_less [of expected, where ?'a = nat] by simp
  with assms show ?thesis
    by (simp add: ValidateNonce_def word_less_nat_alt unat_word_ariths mod_if)
qed

text \<open>\<open>Expire\<close> and \<open>List\<close> differ: \<open>time.Unix\<close> wraps around for an expiry time past the year 292277024627,
  so \<open>Expire\<close> deletes at once a transaction \<open>List\<close> still offers.\<close>

lemma Expire_drops_far_future:
  assumes "2 ^ 63 - 62135596800 \<le> sint (tx_ExpiresAt t)" and "0 \<le> now" and "sint seconds < 2 ^ 60"
  shows "expired_at now t \<and> \<not> expired_unix seconds t"
proof -
  have b: "sint (tx_ExpiresAt t) < 2 ^ 63" using sint_lt [of "tx_ExpiresAt t"] by simp
  have "sint (tx_ExpiresAt t + unixToInternal) = sint (tx_ExpiresAt t) + 62135596800 - 2 ^ 64"
  proof -
    define y where "y = sint (tx_ExpiresAt t) + 62135596800 - 2 ^ 63"
    have "0 \<le> y" "y < 2 ^ 64" using assms(1) b by (simp_all add: y_def)
    then have "(y + 2 ^ 64) mod 2 ^ 64 = y" by simp
    moreover have "sint (tx_ExpiresAt t) + 62135596800 + 2 ^ 63 = y + 2 ^ 64" by (simp add: y_def)
    ultimately have "signed_take_bit 63 (sint (tx_ExpiresAt t) + 62135596800) = y - 2 ^ 63"
      by (simp only: signed_take_bit_eq_take_bit_shift take_bit_eq_mod) simp
    then show ?thesis by (simp add: unixToInternal_def sint_word_ariths y_def)
  qed
  with assms b show ?thesis
    by (simp add: expired_at_def expired_unix_def time_Unix_def)
qed

end
