(* ===== verification/Repository.thy ===== *)
theory Repository
  imports Chain_Domain
begin

text \<open>
  \<open>internal/repository\<close>: the block and snapshot store (\<open>repo.go\<close>), its range queries, chain
  verification and truncation (\<open>retention.go\<close>), and the secondary indexes (\<open>index.go\<close>).  Every method
  holds the store's lock.  The copies \<open>cloneBlock\<close> and \<open>cloneSnapshot\<close> make are what lets the model
  treat stored blocks as values: no caller shares a slice or a map with the store.
\<close>

section \<open>\<open>repo.go\<close>\<close>

record Repo =
  rp_blocks :: "(Height, Block) fmap"
  rp_snaps :: "(string, Snapshot) fmap"

definition Repo_New :: Repo where
  "Repo_New = \<lparr>rp_blocks = fmempty, rp_snaps = fmempty\<rparr>"

definition zero_Snapshot :: Snapshot where
  "zero_Snapshot = \<lparr>snap_ID = '''', snap_Height = 0, snap_Root = '''', snap_Data = fmempty,
     snap_CreatedAt = 0, snap_Verified = False\<rparr>"

definition cloneBlock :: "Block \<Rightarrow> Block" where
  "cloneBlock b = b\<lparr>blk_Transactions := [] @ blk_Transactions b, blk_Commit := [] @ blk_Commit b\<rparr>"

text \<open>The loop that copies a map inserts each entry once; the order does not matter, the keys are distinct.\<close>

definition copy_map :: "(string, string) fmap \<Rightarrow> (string, string) fmap" where
  "copy_map m = foldl (\<lambda>d (k, v). fmupd k v d) fmempty (sorted_entries m)"

definition cloneSnapshot :: "Snapshot \<Rightarrow> Snapshot" where
  "cloneSnapshot s = s\<lparr>snap_Data := copy_map (snap_Data s)\<rparr>"

datatype repo_error = BlockExists

definition Repo_PutBlock :: "Repo \<Rightarrow> Block \<Rightarrow> repo_error option \<times> Repo" where
  "Repo_PutBlock r b =
     (if mapget (rp_blocks r) (hdr_Height (blk_Header b)) \<noteq> None then (Some BlockExists, r)
      else (None, r\<lparr>rp_blocks := fmupd (hdr_Height (blk_Header b)) (cloneBlock b) (rp_blocks r)\<rparr>))"

definition Repo_Block :: "Repo \<Rightarrow> Height \<Rightarrow> Block \<times> bool" where
  "Repo_Block r h = (cloneBlock (mapget0 zero_Block (rp_blocks r) h), mapget (rp_blocks r) h \<noteq> None)"

definition higher :: "Block \<Rightarrow> Block \<Rightarrow> Block" where
  "higher b x = (if hdr_Height (blk_Header x) > hdr_Height (blk_Header b) then x else b)"

definition Repo_Latest :: "Height list \<Rightarrow> Repo \<Rightarrow> Block" where
  "Repo_Latest ord r = cloneBlock (foldl higher zero_Block (map (\<lambda>h. the (mapget (rp_blocks r) h)) ord))"

definition Repo_PutSnapshot :: "Repo \<Rightarrow> Snapshot \<Rightarrow> Repo" where
  "Repo_PutSnapshot r s = r\<lparr>rp_snaps := fmupd (snap_ID s) (cloneSnapshot s) (rp_snaps r)\<rparr>"

definition Repo_Snapshot :: "Repo \<Rightarrow> string \<Rightarrow> Snapshot \<times> bool" where
  "Repo_Snapshot r i = (cloneSnapshot (mapget0 zero_Snapshot (rp_snaps r) i), mapget (rp_snaps r) i \<noteq> None)"

definition Repo_Snapshots :: "string list \<Rightarrow> Repo \<Rightarrow> Snapshot list" where
  "Repo_Snapshots ord r = map (\<lambda>i. cloneSnapshot (the (mapget (rp_snaps r) i))) ord"

section \<open>\<open>retention.go\<close>\<close>

text \<open>The loop of \<open>Range\<close> counts a \<open>uint64\<close> up to \<open>to\<close>; not returning is \<^const>\<open>None\<close>.\<close>

partial_function (option) range_loop :: "(Height, Block) fmap \<Rightarrow> Height \<Rightarrow> Height \<Rightarrow> Block list \<Rightarrow> Block list option" where
  "range_loop blocks h to acc =
     (if h \<le> to
      then range_loop blocks (h + 1) to
             (case mapget blocks h of Some b \<Rightarrow> acc @ [cloneBlock b] | None \<Rightarrow> acc)
      else Some acc)"

definition height_less :: "Block \<Rightarrow> Block \<Rightarrow> bool" where
  "height_less a b \<longleftrightarrow> hdr_Height (blk_Header a) < hdr_Height (blk_Header b)"

definition Repo_Range :: "Repo \<Rightarrow> Height \<Rightarrow> Height \<Rightarrow> Block list option" where
  "Repo_Range r from to = map_option (sort_slice height_less) (range_loop (rp_blocks r) from to [])"

datatype chain_error = ChainGap | InvalidBlock block_error

fun verify_loop :: "(Height, Block) fmap \<Rightarrow> Block option \<Rightarrow> Height list \<Rightarrow> chain_error option" where
  "verify_loop blocks prev [] = None"
| "verify_loop blocks prev (h # hs) =
     (case mapget blocks h of
        None \<Rightarrow> Some ChainGap
      | Some b \<Rightarrow>
          (case ValidateBlock b prev of
             Some e \<Rightarrow> Some (InvalidBlock e)
           | None \<Rightarrow> verify_loop blocks (Some b) hs))"

text \<open>The heights \<open>1, \<dots>, len(r.blocks)\<close>; a length is an \<open>int\<close>, so the counter does not wrap around.\<close>

definition heights_upto :: "nat \<Rightarrow> Height list" where
  "heights_upto n = map of_nat [1..<Suc n]"

definition Repo_VerifyChain :: "Repo \<Rightarrow> chain_error option" where
  "Repo_VerifyChain r = verify_loop (rp_blocks r) None (heights_upto (maplen (rp_blocks r)))"

definition delete_where :: "('k \<Rightarrow> 'v \<Rightarrow> bool) \<Rightarrow> 'k list \<Rightarrow> ('k, 'v) fmap \<Rightarrow> ('k, 'v) fmap" where
  "delete_where P ord m =
     foldl (\<lambda>m k. case mapget m k of None \<Rightarrow> m | Some v \<Rightarrow> if P k v then fmdrop k m else m) m ord"

definition Repo_DeleteAbove :: "Height list \<Rightarrow> Repo \<Rightarrow> Height \<Rightarrow> Repo" where
  "Repo_DeleteAbove ord r h = r\<lparr>rp_blocks := delete_where (\<lambda>x b. x > h) ord (rp_blocks r)\<rparr>"

section \<open>\<open>index.go\<close>\<close>

record Index =
  ix_heights :: "Height list"
  ix_hashes :: "(string, Height) fmap"
  ix_proposers :: "(string, Height list) fmap"
  ix_created :: time

definition NewIndex :: "time \<Rightarrow> Index" where
  "NewIndex now = \<lparr>ix_heights = [], ix_hashes = fmempty, ix_proposers = fmempty, ix_created = now\<rparr>"

datatype index_error = HashRequired | HashAlreadyIndexed

definition Index_Add :: "Index \<Rightarrow> Block \<Rightarrow> index_error + Index" where
  "Index_Add i b =
     (let p = hdr_Proposer (blk_Header b); h = hdr_Height (blk_Header b)
      in if blk_Hash b = '''' then Inl HashRequired
         else if mapget (ix_hashes i) (blk_Hash b) \<noteq> None then Inl HashAlreadyIndexed
         else Inr (i\<lparr>ix_heights := ix_heights i @ [h],
                     ix_hashes := fmupd (blk_Hash b) h (ix_hashes i),
                     ix_proposers := fmupd p (mapget0 [] (ix_proposers i) p @ [h]) (ix_proposers i)\<rparr>))"

definition Index_Height :: "Index \<Rightarrow> string \<Rightarrow> Height \<times> bool" where
  "Index_Height i hash = (mapget0 0 (ix_hashes i) hash, mapget (ix_hashes i) hash \<noteq> None)"

definition Index_Proposer :: "Index \<Rightarrow> string \<Rightarrow> Height list" where
  "Index_Proposer i name = [] @ mapget0 [] (ix_proposers i) name"

definition Index_Heights :: "Index \<Rightarrow> Height list" where
  "Index_Heights i = sort_slice (\<lambda>a b. a < b) ([] @ ix_heights i)"

definition Index_Count :: "Index \<Rightarrow> nat" where
  "Index_Count i = length (ix_heights i)"

definition Index_Empty :: "Index \<Rightarrow> bool" where
  "Index_Empty i \<longleftrightarrow> Index_Count i = 0"

definition Index_Created :: "Index \<Rightarrow> time" where
  "Index_Created i = ix_created i"

definition Index_RemoveAbove :: "string list \<Rightarrow> string list \<Rightarrow> Index \<Rightarrow> Height \<Rightarrow> Index" where
  "Index_RemoveAbove ord_hashes ord_proposers i h =
     i\<lparr>ix_heights := filter (\<lambda>x. x \<le> h) (ix_heights i),
       ix_hashes := delete_where (\<lambda>hash x. x > h) ord_hashes (ix_hashes i),
       ix_proposers := foldl (\<lambda>m p. fmupd p (filter (\<lambda>x. x \<le> h) (mapget0 [] m p)) m) (ix_proposers i) ord_proposers\<rparr>"

record BlockMeta =
  bm_Height :: Height
  bm_Hash :: string
  bm_Size :: int
  bm_TxCount :: int
  bm_StateRoot :: string
  bm_CreatedAt :: time

record MetaStore =
  ms_byHeight :: "(Height, BlockMeta) fmap"
  ms_byHash :: "(string, BlockMeta) fmap"

definition NewMetaStore :: MetaStore where
  "NewMetaStore = \<lparr>ms_byHeight = fmempty, ms_byHash = fmempty\<rparr>"

definition MetaStore_Put :: "MetaStore \<Rightarrow> BlockMeta \<Rightarrow> MetaStore" where
  "MetaStore_Put s m = s\<lparr>ms_byHeight := fmupd (bm_Height m) m (ms_byHeight s), ms_byHash := fmupd (bm_Hash m) m (ms_byHash s)\<rparr>"

definition MetaStore_Get :: "MetaStore \<Rightarrow> Height \<Rightarrow> BlockMeta option" where
  "MetaStore_Get s h = mapget (ms_byHeight s) h"

definition MetaStore_GetHash :: "MetaStore \<Rightarrow> string \<Rightarrow> BlockMeta option" where
  "MetaStore_GetHash s hash = mapget (ms_byHash s) hash"

definition MetaStore_DeleteAbove :: "Height list \<Rightarrow> MetaStore \<Rightarrow> Height \<Rightarrow> MetaStore" where
  "MetaStore_DeleteAbove ord s h =
     foldl (\<lambda>s x. case mapget (ms_byHeight s) x of
                    None \<Rightarrow> s
                  | Some m \<Rightarrow> if x > h then s\<lparr>ms_byHeight := fmdrop x (ms_byHeight s), ms_byHash := fmdrop (bm_Hash m) (ms_byHash s)\<rparr>
                              else s) s ord"

definition meta_less :: "BlockMeta \<Rightarrow> BlockMeta \<Rightarrow> bool" where
  "meta_less a b \<longleftrightarrow> bm_Height a < bm_Height b"

definition MetaStore_All :: "Height list \<Rightarrow> MetaStore \<Rightarrow> BlockMeta list" where
  "MetaStore_All ord s = sort_slice meta_less (map (\<lambda>h. the (mapget (ms_byHeight s) h)) ord)"

record Query =
  q_From :: Height
  q_To :: Height
  q_Proposer :: string
  q_Limit :: int

fun query_loop :: "Query \<Rightarrow> BlockMeta list \<Rightarrow> BlockMeta list \<Rightarrow> BlockMeta list" where
  "query_loop q acc [] = acc"
| "query_loop q acc (m # ms) =
     (if q_From q > 0 \<and> bm_Height m < q_From q then query_loop q acc ms
      else if q_To q > 0 \<and> bm_Height m > q_To q then query_loop q acc ms
      else if q_Limit q > 0 \<and> int (length acc) \<ge> q_Limit q then acc
      else query_loop q (acc @ [m]) ms)"

definition MetaStore_Query :: "Height list \<Rightarrow> MetaStore \<Rightarrow> Query \<Rightarrow> BlockMeta list" where
  "MetaStore_Query ord s q = query_loop q [] (MetaStore_All ord s)"

definition MetaStore_Size :: "MetaStore \<Rightarrow> nat" where
  "MetaStore_Size s = maplen (ms_byHeight s)"

definition MetaStore_Clear :: "MetaStore \<Rightarrow> MetaStore" where
  "MetaStore_Clear s = s\<lparr>ms_byHeight := fmempty, ms_byHash := fmempty\<rparr>"

section \<open>Copies and deletions\<close>

lemma cloneBlock_id [simp]: "cloneBlock b = b"
  by (simp add: cloneBlock_def)

lemma foldl_fmupd_lookup:
  "distinct (map fst es) \<Longrightarrow>
   mapget (foldl (\<lambda>d (k, v). fmupd k v d) m es) k = (case map_of es k of None \<Rightarrow> mapget m k | Some v \<Rightarrow> Some v)"
proof (induction es arbitrary: m)
  case (Cons e es)
  obtain k' v' where e: "e = (k', v')" by (cases e)
  have "map_of es k' = None" using Cons.prems e by (simp add: map_of_eq_None_iff)
  with Cons e show ?case by (auto split: option.splits)
qed simp

lemma copy_map_id [simp]: "copy_map m = m"
proof (rule fmap_ext)
  fix k
  have d: "distinct (map fst (sorted_entries m))"
    by (simp add: sorted_entries_def comp_def sorted_list_of_fset.rep_eq)
  have "map_of (sorted_entries m) k = mapget m k"
    using set_sorted_entries [of k _ m] d
    by (metis eq_key_imp_eq_value map_of_SomeD map_of_is_SomeI not_Some_eq)
  then show "mapget (copy_map m) k = mapget m k"
    unfolding copy_map_def foldl_fmupd_lookup [OF d] by (simp split: option.splits)
qed

lemma cloneSnapshot_id [simp]: "cloneSnapshot s = s"
  by (simp add: cloneSnapshot_def)

lemma delete_where_lookup:
  "mapget (delete_where P ord m) k =
     (case mapget m k of None \<Rightarrow> None | Some v \<Rightarrow> if k \<in> set ord \<and> P k v then None else Some v)"
  unfolding delete_where_def
  by (induction ord arbitrary: m) (auto split: option.splits)

text \<open>
  What truncation at a height promises, for a store read as a map: exactly the entries above the
  height go.  Truncation is then idempotent, two truncations are one at the lower height, and one that
  is above every entry changes nothing.
\<close>

locale truncation =
  fixes content :: "'s \<Rightarrow> ('k, 'v) fmap" and height :: "'k \<Rightarrow> 'v \<Rightarrow> Height"
    and orders :: "'o \<Rightarrow> 's \<Rightarrow> bool" and truncate :: "'o \<Rightarrow> 's \<Rightarrow> Height \<Rightarrow> 's"
  assumes truncate_lookup: "orders ord s \<Longrightarrow>
    mapget (content (truncate ord s h)) k =
      (case mapget (content s) k of None \<Rightarrow> None | Some v \<Rightarrow> if height k v > h then None else Some v)"
begin

lemma truncate_order_irrelevant:
  "orders ord s \<Longrightarrow> orders ord' s \<Longrightarrow> content (truncate ord s h) = content (truncate ord' s h)"
  by (rule fmap_ext) (simp add: truncate_lookup)

lemma truncate_truncate:
  assumes "orders ord s" and "orders ord' (truncate ord s h)" and "orders ord'' s"
  shows "content (truncate ord' (truncate ord s h) h') = content (truncate ord'' s (min h h'))"
  by (rule fmap_ext) (auto simp: truncate_lookup assms min_def split: option.splits)

lemma truncate_none:
  assumes "orders ord s" and "\<And>k v. mapget (content s) k = Some v \<Longrightarrow> height k v \<le> h"
  shows "content (truncate ord s h) = content s"
  by (rule fmap_ext) (use assms in \<open>auto simp: truncate_lookup not_less split: option.splits dest: leD\<close>)

lemma truncate_below:
  "orders ord s \<Longrightarrow> mapget (content (truncate ord s h)) k = Some v \<Longrightarrow> height k v \<le> h"
  by (auto simp: truncate_lookup not_less split: option.splits if_splits)

end

interpretation blocks: truncation rp_blocks "\<lambda>x b. x" "\<lambda>ord r. iterates ord (rp_blocks r)" Repo_DeleteAbove
  by unfold_locales (auto simp: Repo_DeleteAbove_def delete_where_lookup iterates_lookup split: option.splits)

interpretation hashes: truncation ix_hashes "\<lambda>hash x. x"
  "\<lambda>(oh, op) i. iterates oh (ix_hashes i) \<and> iterates op (ix_proposers i)" "\<lambda>(oh, op). Index_RemoveAbove oh op"
  by unfold_locales (auto simp: Index_RemoveAbove_def delete_where_lookup iterates_lookup split: option.splits prod.splits)

lemma MetaStore_DeleteAbove_byHeight:
  "ms_byHeight (MetaStore_DeleteAbove ord s h) = delete_where (\<lambda>x m. x > h) ord (ms_byHeight s)"
  unfolding MetaStore_DeleteAbove_def delete_where_def
  by (induction ord arbitrary: s) (auto split: option.splits)

interpretation metas: truncation ms_byHeight "\<lambda>x m. x" "\<lambda>ord s. iterates ord (ms_byHeight s)" MetaStore_DeleteAbove
  by unfold_locales (auto simp: MetaStore_DeleteAbove_byHeight delete_where_lookup iterates_lookup split: option.splits)

section \<open>The latest block\<close>

definition repo_inv :: "Repo \<Rightarrow> bool" where
  "repo_inv r \<longleftrightarrow> (\<forall>h b. mapget (rp_blocks r) h = Some b \<longrightarrow> hdr_Height (blk_Header b) = h)"

lemma repo_inv_New [inv_intros]: "repo_inv Repo_New"
  by (simp add: repo_inv_def Repo_New_def)

lemma repo_inv_PutBlock [inv_intros]: "repo_inv r \<Longrightarrow> repo_inv (snd (Repo_PutBlock r b))"
  by (auto simp: repo_inv_def Repo_PutBlock_def)

lemma repo_inv_PutSnapshot [inv_intros]: "repo_inv r \<Longrightarrow> repo_inv (Repo_PutSnapshot r s)"
  by (auto simp: repo_inv_def Repo_PutSnapshot_def)

lemma repo_inv_DeleteAbove [inv_intros]: "repo_inv r \<Longrightarrow> repo_inv (Repo_DeleteAbove ord r h)"
  by (auto simp: repo_inv_def Repo_DeleteAbove_def delete_where_lookup split: option.splits if_splits)

lemma foldl_higher:
  "(foldl higher z bs = z \<or> foldl higher z bs \<in> set bs) \<and>
   (\<forall>x \<in> insert z (set bs). hdr_Height (blk_Header x) \<le> hdr_Height (blk_Header (foldl higher z bs)))"
proof (induction bs rule: rev_induct)
  case (snoc x bs)
  then show ?case by (auto simp: higher_def not_less intro: order_trans less_imp_le)
qed simp

lemma Latest_eqI:
  assumes "repo_inv r" and "iterates ord (rp_blocks r)"
    and "mapget (rp_blocks r) h = Some b" and "0 < h"
    and "\<And>k c. mapget (rp_blocks r) k = Some c \<Longrightarrow> k \<le> h"
  shows "Repo_Latest ord r = b"
proof -
  let ?bs = "map (\<lambda>h. the (mapget (rp_blocks r) h)) ord"
  let ?l = "foldl higher zero_Block ?bs"
  have hb: "hdr_Height (blk_Header b) = h" using assms(1,3) by (auto simp: repo_inv_def)
  have "b \<in> set ?bs"
    using assms(2,3) iterates_lookup [OF assms(2), of h] by (force intro: image_eqI [where x = h])
  then have le: "h \<le> hdr_Height (blk_Header ?l)" using foldl_higher [of zero_Block ?bs] hb by auto
  then have "?l \<noteq> zero_Block" using assms(4) by (auto simp: zero_Block_def zero_Header_def)
  then obtain k where k: "mapget (rp_blocks r) k = Some ?l"
    using foldl_higher [of zero_Block ?bs] iterates_lookup [OF assms(2)] by auto
  then have "hdr_Height (blk_Header ?l) = k" using assms(1) by (auto simp: repo_inv_def)
  with le assms(5) [OF k] have "k = h" by simp
  with k assms(3) show ?thesis by (simp add: Repo_Latest_def)
qed

section \<open>Chains\<close>

fun well_linked :: "Block option \<Rightarrow> Block list \<Rightarrow> bool" where
  "well_linked prev [] = True"
| "well_linked prev (b # bs) \<longleftrightarrow> ValidateBlock b prev = None \<and> well_linked (Some b) bs"

definition last_of :: "Block option \<Rightarrow> Block list \<Rightarrow> Block option" where
  "last_of prev bs = (if bs = [] then prev else Some (last bs))"

lemma well_linked_append: "well_linked prev (bs @ cs) \<longleftrightarrow> well_linked prev bs \<and> well_linked (last_of prev bs) cs"
  by (induction bs arbitrary: prev) (auto simp: last_of_def)

lemma verify_loop_None:
  "verify_loop blocks prev hs = None \<longleftrightarrow> (\<exists>bs. map (mapget blocks) hs = map Some bs \<and> well_linked prev bs)"
proof (induction hs arbitrary: prev)
  case (Cons h hs)
  show ?case
  proof (cases "mapget blocks h")
    case (Some b)
    have "(\<exists>bs. map (mapget blocks) (h # hs) = map Some bs \<and> well_linked prev bs) \<longleftrightarrow>
        ValidateBlock b prev = None \<and> (\<exists>bs. map (mapget blocks) hs = map Some bs \<and> well_linked (Some b) bs)"
      by (auto simp: Some Cons_eq_map_conv simp del: ValidateBlock.simps)
    with Cons [of "Some b"] Some show ?thesis by (simp del: ValidateBlock.simps split: option.splits)
  qed auto
qed simp

definition chain :: "Repo \<Rightarrow> Block list \<Rightarrow> bool" where
  "chain r bs \<longleftrightarrow> maplen (rp_blocks r) = length bs \<and> map (mapget (rp_blocks r)) (heights_upto (length bs)) = map Some bs"

lemma length_heights_upto [simp]: "length (heights_upto n) = n"
  by (simp add: heights_upto_def)

lemma VerifyChain_None: "Repo_VerifyChain r = None \<longleftrightarrow> (\<exists>bs. chain r bs \<and> well_linked None bs)"
proof
  assume "Repo_VerifyChain r = None"
  then obtain bs where bs: "map (mapget (rp_blocks r)) (heights_upto (maplen (rp_blocks r))) = map Some bs" "well_linked None bs"
    by (auto simp: Repo_VerifyChain_def verify_loop_None)
  from arg_cong [OF bs(1), of length] have "maplen (rp_blocks r) = length bs" by simp
  with bs show "\<exists>bs. chain r bs \<and> well_linked None bs" by (auto simp: chain_def)
qed (auto simp: Repo_VerifyChain_def verify_loop_None chain_def)

lemma in_heights_upto: "n < 2 ^ 64 \<Longrightarrow> h \<in> set (heights_upto n) \<longleftrightarrow> 0 < h \<and> unat h \<le> n"
proof -
  assume n: "n < 2 ^ 64"
  have "h \<in> set (heights_upto n)" if "0 < unat h" "unat h \<le> n"
  proof -
    have "of_nat (unat h) \<in> (of_nat :: nat \<Rightarrow> Height) ` {1..<Suc n}" by (rule imageI) (use that in simp)
    then show ?thesis by (simp only: heights_upto_def set_map set_upt of_nat_unat ucast_id)
  qed
  moreover have "0 < unat h \<and> unat h \<le> n" if "h \<in> set (heights_upto n)"
    using that n by (auto simp: heights_upto_def unat_of_nat)
  ultimately show ?thesis by (auto simp: word_less_nat_alt)
qed

lemma distinct_heights_upto: "n < 2 ^ 64 \<Longrightarrow> distinct (heights_upto n)"
  by (auto simp: heights_upto_def distinct_map inj_on_def word_unat_eq_iff unat_of_nat)

lemma heights_upto_Suc: "heights_upto (Suc n) = heights_upto n @ [of_nat (Suc n)]"
  by (simp add: heights_upto_def)

lemma chain_dom:
  assumes "chain r bs" and "length bs < 2 ^ 64"
  shows "mapget (rp_blocks r) h \<noteq> None \<longleftrightarrow> 0 < h \<and> unat h \<le> length bs"
proof -
  let ?hs = "heights_upto (length bs)"
  have sub: "set ?hs \<subseteq> fset (fmdom (rp_blocks r))"
  proof
    fix k assume "k \<in> set ?hs"
    then have "mapget (rp_blocks r) k \<in> Some ` set bs"
      using assms(1) unfolding chain_def by (metis image_eqI image_set list.set_map)
    then show "k \<in> fset (fmdom (rp_blocks r))" by (auto simp: fmlookup_dom_iff)
  qed
  have "card (set ?hs) = card (fset (fmdom (rp_blocks r)))"
    using assms distinct_card [OF distinct_heights_upto [OF assms(2)]] by (simp add: chain_def maplen_def fcard.rep_eq)
  then have "set ?hs = fset (fmdom (rp_blocks r))"
    using sub by (simp add: card_subset_eq)
  then show ?thesis
    using in_heights_upto [OF assms(2), of h] by (metis fmdom_notD fmlookup_dom_iff option.distinct(1) option.exhaust)
qed

lemma chain_lookup:
  assumes "chain r bs" and "length bs < 2 ^ 64" and "i < length bs"
  shows "mapget (rp_blocks r) (of_nat (Suc i)) = Some (bs ! i)"
proof -
  have "map (mapget (rp_blocks r)) (heights_upto (length bs)) ! i = map Some bs ! i"
    using assms(1) by (simp add: chain_def)
  with assms(3) show ?thesis by (simp add: heights_upto_def nth_map del: upt_Suc)
qed

text \<open>The latest block of a chain is its last one.\<close>

lemma Latest_chain:
  assumes "repo_inv r" and "iterates ord (rp_blocks r)" and "chain r bs" and "length bs < 2 ^ 64"
  shows "Repo_Latest ord r = (if bs = [] then zero_Block else last bs)"
proof (cases "bs = []")
  case True
  then have "ord = []" using iterates_length [OF assms(2)] assms(3) by (simp add: chain_def)
  with True show ?thesis by (simp add: Repo_Latest_def)
next
  case False
  let ?n = "length bs"
  have "Repo_Latest ord r = last bs"
  proof (rule Latest_eqI [OF assms(1,2)])
    show "mapget (rp_blocks r) (of_nat ?n) = Some (last bs)"
      using chain_lookup [OF assms(3,4), of "?n - 1"] False by (simp add: last_conv_nth)
    show "0 < (of_nat ?n :: Height)"
      using False assms(4) by (simp add: word_less_nat_alt unat_of_nat)
    fix k c assume "mapget (rp_blocks r) k = Some c"
    then show "k \<le> of_nat ?n"
      using chain_dom [OF assms(3,4), of k] assms(4) by (simp add: word_le_nat_alt unat_of_nat)
  qed
  with False show ?thesis by simp
qed

lemma chain_PutBlock:
  assumes "chain r bs" and "Suc (length bs) < 2 ^ 64" and "hdr_Height (blk_Header b) = of_nat (Suc (length bs))"
  shows "\<exists>r'. Repo_PutBlock r b = (None, r') \<and> chain r' (bs @ [b]) \<and> rp_snaps r' = rp_snaps r \<and>
              rp_blocks r' = fmupd (hdr_Height (blk_Header b)) b (rp_blocks r)"
proof -
  have n: "length bs < 2 ^ 64" using assms(2) by simp
  have "unat (of_nat (Suc (length bs)) :: Height) = Suc (length bs)"
    unfolding unat_of_nat using assms(2) by simp
  then have "unat (hdr_Height (blk_Header b)) = Suc (length bs)" by (simp only: assms(3))
  then have free: "mapget (rp_blocks r) (hdr_Height (blk_Header b)) = None"
    using chain_dom [OF assms(1) n, of "hdr_Height (blk_Header b)"] by auto
  have new: "of_nat (Suc (length bs)) \<notin> set (heights_upto (length bs))"
    using distinct_heights_upto [OF assms(2)] by (simp add: heights_upto_Suc)
  define r' where "r' = r\<lparr>rp_blocks := fmupd (hdr_Height (blk_Header b)) b (rp_blocks r)\<rparr>"
  have "map (mapget (rp_blocks r')) (heights_upto (length bs)) = map (mapget (rp_blocks r)) (heights_upto (length bs))"
    using new by (intro map_cong) (auto simp: r'_def assms(3))
  with assms(1) free have "chain r' (bs @ [b])"
    by (simp add: chain_def heights_upto_Suc maplen_upd r'_def assms(3))
  with free show ?thesis by (simp add: Repo_PutBlock_def r'_def)
qed

text \<open>C21: appending to a verified chain: a block that \<open>ValidateBlock\<close> accepts after the latest block is
  stored, becomes the latest block, and \<open>VerifyChain\<close> still accepts.\<close>

theorem PutBlock_extends_chain:
  assumes "repo_inv r" and "Repo_VerifyChain r = None" and "iterates ord (rp_blocks r)"
    and "maplen (rp_blocks r) < 2 ^ 63"
    and "hdr_Height (blk_Header b) = of_nat (Suc (maplen (rp_blocks r)))"
    and "ValidateBlock b (if rp_blocks r = fmempty then None else Some (Repo_Latest ord r)) = None"
    and "iterates ord' (rp_blocks (snd (Repo_PutBlock r b)))"
  shows "fst (Repo_PutBlock r b) = None \<and> Repo_VerifyChain (snd (Repo_PutBlock r b)) = None \<and>
         Repo_Latest ord' (snd (Repo_PutBlock r b)) = b"
proof -
  from assms(2) obtain bs where bs: "chain r bs" "well_linked None bs" by (auto simp: VerifyChain_None)
  have n: "maplen (rp_blocks r) = length bs" using bs(1) by (simp add: chain_def)
  have lt: "length bs < 2 ^ 64" "Suc (length bs) < 2 ^ 64" using assms(4) n by simp_all
  from chain_PutBlock [OF bs(1) lt(2), of b] assms(5) n obtain r' where
    r': "Repo_PutBlock r b = (None, r')" "chain r' (bs @ [b])" by auto
  have "rp_blocks r = fmempty \<longleftrightarrow> bs = []" using n by (metis length_0_conv maplen_0_iff)
  then have "ValidateBlock b (last_of None bs) = None"
    using assms(6) Latest_chain [OF assms(1,3) bs(1) lt(1)] by (simp add: last_of_def del: ValidateBlock.simps split: if_splits)
  then have "well_linked None (bs @ [b])" using bs(2) by (simp add: well_linked_append del: ValidateBlock.simps)
  with r'(2) have "Repo_VerifyChain r' = None" by (auto simp: VerifyChain_None)
  moreover have "repo_inv r'" using repo_inv_PutBlock [OF assms(1), of b] r'(1) by simp
  then have "Repo_Latest ord' r' = b"
    using Latest_chain [OF _ _ r'(2)] assms(7) r'(1) lt(2) by simp
  ultimately show ?thesis using r'(1) by simp
qed

definition example_block :: "Height \<Rightarrow> string \<Rightarrow> string \<Rightarrow> Block" where
  "example_block h prev hash = zero_Block\<lparr>blk_Header := zero_Header\<lparr>hdr_Height := h, hdr_PrevHash := prev, hdr_TxRoot := MerkleRoot []\<rparr>, blk_Hash := hash\<rparr>"

definition example_repo :: Repo where
  "example_repo = \<lparr>rp_blocks = fmupd 1 (example_block 1 '''' ''h1'') fmempty, rp_snaps = fmempty\<rparr>"

lemma example_repo_facts:
  "repo_inv example_repo" "maplen (rp_blocks example_repo) = 1" "Repo_VerifyChain example_repo = None"
  "iterates [1] (rp_blocks example_repo)" "Repo_Latest [1] example_repo = example_block 1 '''' ''h1''"
proof -
  show n: "maplen (rp_blocks example_repo) = 1" by (simp add: example_repo_def maplen_upd)
  show "repo_inv example_repo" by (simp add: repo_inv_def example_repo_def example_block_def)
  show "Repo_VerifyChain example_repo = None"
    by (simp add: Repo_VerifyChain_def n heights_upto_def) (simp add: example_repo_def example_block_def zero_Block_def)
  show "iterates [1] (rp_blocks example_repo)" by (auto simp: iterates_def example_repo_def fset_of_list.rep_eq)
  show "Repo_Latest [1] example_repo = example_block 1 '''' ''h1''"
    by (simp add: Repo_Latest_def example_repo_def higher_def zero_Block_def zero_Header_def example_block_def)
qed

theorem PutBlock_extends_chain_witness:
  "Repo_VerifyChain (snd (Repo_PutBlock example_repo (example_block 2 ''h1'' ''h2''))) = None"
proof -
  have "ValidateBlock (example_block 2 ''h1'' ''h2'') (Some (example_block 1 '''' ''h1'')) = None"
    by (simp add: example_block_def zero_Block_def)
  moreover have "rp_blocks example_repo \<noteq> fmempty" using example_repo_facts(2) by auto
  moreover have "iterates [1, 2] (rp_blocks (snd (Repo_PutBlock example_repo (example_block 2 ''h1'' ''h2''))))"
    by (auto simp: iterates_def Repo_PutBlock_def example_repo_def example_block_def fset_of_list.rep_eq)
  ultimately show ?thesis
    using PutBlock_extends_chain [OF example_repo_facts(1,3,4), of "example_block 2 ''h1'' ''h2''" "[1, 2]"]
    by (simp add: example_repo_facts example_block_def del: ValidateBlock.simps)
qed

lemma chain_DeleteAbove:
  assumes "chain r bs" and "length bs < 2 ^ 64" and "iterates ord (rp_blocks r)"
  shows "chain (Repo_DeleteAbove ord r h) (take (unat h) bs)"
proof -
  let ?r = "Repo_DeleteAbove ord r h" and ?n = "min (length bs) (unat h)"
  have n: "?n < 2 ^ 64" using assms(2) by simp
  have look: "mapget (rp_blocks ?r) k = (if k \<le> h then mapget (rp_blocks r) k else None)" for k
    using blocks.truncate_lookup [OF assms(3)] by (auto split: option.splits)
  have "k |\<in>| fmdom (rp_blocks ?r) \<longleftrightarrow> k \<in> set (heights_upto ?n)" for k
    using chain_dom [OF assms(1,2), of k] unfolding in_heights_upto [OF n]
    by (auto simp: fmlookup_dom_iff look word_le_nat_alt)
  then have "fset (fmdom (rp_blocks ?r)) = set (heights_upto ?n)" by blast
  then have "maplen (rp_blocks ?r) = ?n"
    using distinct_card [OF distinct_heights_upto [OF n]] by (simp add: maplen_def fcard.rep_eq)
  moreover have "map (mapget (rp_blocks ?r)) (heights_upto ?n) = map Some (take ?n bs)"
  proof (rule nth_equalityI)
    fix i assume "i < length (map (mapget (rp_blocks ?r)) (heights_upto ?n))"
    then have i: "i < ?n" by simp
    then have "(of_nat (Suc i) :: Height) \<le> h"
      using n unfolding word_le_nat_alt unat_of_nat by (intro mod_less_eq_dividend [THEN order_trans]) simp
    with i show "map (mapget (rp_blocks ?r)) (heights_upto ?n) ! i = map Some (take ?n bs) ! i"
      using chain_lookup [OF assms(1,2), of i] by (simp add: heights_upto_def look nth_map del: upt_Suc)
  qed simp
  moreover have "take ?n bs = take (unat h) bs" by (simp add: min_def)
  ultimately show ?thesis by (simp add: chain_def min.commute)
qed

text \<open>C22: truncating a verified chain at a height leaves a verified chain, its blocks up to that height,
  whatever order the deleting loop runs in.\<close>

theorem DeleteAbove_keeps_chain:
  assumes "Repo_VerifyChain r = None" and "maplen (rp_blocks r) < 2 ^ 63" and "iterates ord (rp_blocks r)"
  shows "Repo_VerifyChain (Repo_DeleteAbove ord r h) = None \<and>
         maplen (rp_blocks (Repo_DeleteAbove ord r h)) = min (maplen (rp_blocks r)) (unat h)"
proof -
  from assms(1) obtain bs where bs: "chain r bs" "well_linked None bs" by (auto simp: VerifyChain_None)
  have n: "maplen (rp_blocks r) = length bs" using bs(1) by (simp add: chain_def)
  with assms(2) have "length bs < 2 ^ 64" by simp
  note c = chain_DeleteAbove [OF bs(1) this assms(3), of h]
  have "well_linked None (take (unat h) bs)"
    using bs(2) well_linked_append [of None "take (unat h) bs" "drop (unat h) bs"] by simp
  with c have "Repo_VerifyChain (Repo_DeleteAbove ord r h) = None" by (auto simp: VerifyChain_None)
  with c n show ?thesis by (simp add: chain_def)
qed

theorem DeleteAbove_keeps_chain_witness:
  "Repo_VerifyChain (Repo_DeleteAbove [1] example_repo 0) = None \<and>
   maplen (rp_blocks (Repo_DeleteAbove [1] example_repo 0)) = 0"
  using DeleteAbove_keeps_chain [OF example_repo_facts(3) _ example_repo_facts(4), of 0] example_repo_facts(2) by simp

text \<open>
  \<open>ValidateBlock\<close> compares the transaction root but never recomputes the block's own hash, so a changed
  state root, proposer or timestamp of a stored block goes unnoticed.
\<close>


definition forge :: "string \<Rightarrow> string \<Rightarrow> i64 \<Rightarrow> Block \<Rightarrow> Block" where
  "forge s p t b = b\<lparr>blk_Header := (blk_Header b)\<lparr>hdr_StateRoot := s, hdr_Proposer := p, hdr_Timestamp := t\<rparr>\<rparr>"

lemma verify_loop_forge:
  "verify_loop (fmmap (forge s p t) blocks) (map_option (forge s p t) prev) hs = verify_loop blocks prev hs"
proof (induction hs arbitrary: prev)
  case (Cons h hs)
  have "ValidateBlock (forge s p t b) (map_option (forge s p t) prev) = ValidateBlock b prev" for b
    by (cases prev) (simp_all add: forge_def)
  with Cons [of "Some (the (mapget blocks h))"] show ?case
    by (auto simp del: ValidateBlock.simps split: option.splits)
qed simp

text \<open>\<open>VerifyChain\<close> does not tell a chain from the one whose blocks all carry another state root,
  proposer and timestamp under their old hashes.\<close>

theorem VerifyChain_accepts_forged_headers:
  "Repo_VerifyChain (r\<lparr>rp_blocks := fmmap (forge s p t) (rp_blocks r)\<rparr>) = Repo_VerifyChain r"
proof -
  have "maplen (fmmap (forge s p t) (rp_blocks r)) = maplen (rp_blocks r)" by (simp add: maplen_def)
  then show ?thesis using verify_loop_forge [of s p t "rp_blocks r" None] by (simp add: Repo_VerifyChain_def)
qed

section \<open>Range queries\<close>

text \<open>The blocks found when the loop counts from \<open>h\<close> to \<open>to\<close>.\<close>

definition found :: "(Height, Block) fmap \<Rightarrow> nat list \<Rightarrow> Block list" where
  "found blocks ns = List.map_filter (\<lambda>n. mapget blocks (of_nat n)) ns"

lemma range_loop_returns:
  assumes "unat to < 2 ^ 64 - 1"
  shows "range_loop blocks h to acc = Some (acc @ found blocks [unat h..<Suc (unat to)])"
proof (induction "Suc (unat to) - unat h" arbitrary: h acc)
  case 0
  then have "\<not> h \<le> to" by (simp add: word_le_nat_alt)
  with 0 show ?case by (simp add: range_loop.simps [of blocks h] found_def map_filter_simps)
next
  case (Suc k)
  then have le: "h \<le> to" "unat h \<le> unat to" by (simp_all add: word_le_nat_alt)
  then have h1: "unat (h + 1) = Suc (unat h)" using assms by (simp add: unat_word_ariths)
  have up: "[unat h..<Suc (unat to)] = unat h # [Suc (unat h)..<Suc (unat to)]"
    using le(2) by (simp add: upt_conv_Cons del: upt_Suc)
  show ?case
    using Suc(1) [of "h + 1"] Suc(2) le h1
    by (simp add: range_loop.simps [of blocks h] up found_def map_filter_simps del: upt_Suc split: option.splits)
qed

lemma range_loop_diverges: "range_loop blocks h (- 1) acc = None"
proof -
  have "to \<noteq> - 1" if "range_loop blocks h to acc = Some y" for blocks h to acc y
    by (rule range_loop.raw_induct [where P = "\<lambda>blocks h to acc y. to \<noteq> - 1", OF _ that]) (auto split: if_splits)
  then show ?thesis by (metis not_Some_eq)
qed

lemma set_found: "b \<in> set (found blocks ns) \<longleftrightarrow> (\<exists>n \<in> set ns. mapget blocks (of_nat n) = Some b)"
  by (induction ns) (auto simp: found_def map_filter_simps split: option.splits)

lemma found_ascending:
  assumes "repo_inv r" and "sorted_wrt (<) ns" and "\<forall>n \<in> set ns. n < 2 ^ 64"
  shows "sorted_wrt height_less (found (rp_blocks r) ns)"
  using assms(2,3)
proof (induction ns)
  case (Cons n ns)
  have "height_less b c" if "mapget (rp_blocks r) (of_nat n) = Some b" and "c \<in> set (found (rp_blocks r) ns)" for b c
  proof -
    from that(2) obtain m where m: "m \<in> set ns" "mapget (rp_blocks r) (of_nat m) = Some c" by (auto simp: set_found)
    with that(1) assms(1) have "hdr_Height (blk_Header b) = of_nat n" "hdr_Height (blk_Header c) = of_nat m"
      by (auto simp: repo_inv_def)
    with m(1) Cons.prems show ?thesis by (auto simp: height_less_def word_less_nat_alt unat_of_nat)
  qed
  with Cons show ?case by (auto simp: found_def map_filter_simps split: option.splits)
qed (simp add: found_def map_filter_simps)

interpretation by_height: slice_less height_less
  by unfold_locales (auto simp: height_less_def)

lemma found_between:
  assumes "repo_inv r" and "unat to < 2 ^ 64 - 1"
  shows "b \<in> set (found (rp_blocks r) [unat from..<Suc (unat to)]) \<longleftrightarrow>
         mapget (rp_blocks r) (hdr_Height (blk_Header b)) = Some b \<and>
         from \<le> hdr_Height (blk_Header b) \<and> hdr_Height (blk_Header b) \<le> to"
    (is "?l \<longleftrightarrow> ?r")
proof
  assume ?l
  then obtain n where n: "unat from \<le> n" "n \<le> unat to" "mapget (rp_blocks r) (of_nat n) = Some b"
    unfolding set_found by auto
  have "unat (of_nat n :: Height) = n" using n(2) assms(2) unfolding unat_of_nat by simp
  moreover have "hdr_Height (blk_Header b) = of_nat n" using n(3) assms(1) unfolding repo_inv_def by blast
  ultimately show ?r using n by (simp add: word_le_nat_alt)
next
  assume r: ?r
  have "mapget (rp_blocks r) (of_nat (unat (hdr_Height (blk_Header b)))) = Some b"
    using r by (simp only: of_nat_unat ucast_id)
  moreover have "unat (hdr_Height (blk_Header b)) \<in> set [unat from..<Suc (unat to)]"
    using r by (simp add: word_le_nat_alt less_Suc_eq_le del: upt_Suc)
  ultimately show ?l unfolding set_found by blast
qed

text \<open>C23: \<open>Range(from, to)\<close> returns the stored blocks with heights from \<open>from\<close> to \<open>to\<close> in ascending
  order, provided \<open>to\<close> is not the largest height.\<close>

theorem Range_returns:
  assumes "repo_inv r" and "unat to < 2 ^ 64 - 1"
  shows "\<exists>bs. Repo_Range r from to = Some bs \<and> sorted_wrt height_less bs \<and>
           set bs = {b. mapget (rp_blocks r) (hdr_Height (blk_Header b)) = Some b \<and>
                        from \<le> hdr_Height (blk_Header b) \<and> hdr_Height (blk_Header b) \<le> to}"
proof -
  let ?bs = "found (rp_blocks r) [unat from..<Suc (unat to)]"
  have asc: "sorted_wrt height_less ?bs"
    using assms(2) by (intro found_ascending [OF assms(1)]) (auto simp del: upt_Suc)
  then have "sorted_wrt (\<lambda>a b. \<not> height_less b a) ?bs"
    by (rule sorted_wrt_mono_rel [rotated]) (auto simp: height_less_def)
  then have "Repo_Range r from to = Some ?bs"
    by (simp add: Repo_Range_def range_loop_returns [OF assms(2)] by_height.sort_slice_idem del: upt_Suc)
  moreover have "set ?bs = {b. mapget (rp_blocks r) (hdr_Height (blk_Header b)) = Some b \<and>
                        from \<le> hdr_Height (blk_Header b) \<and> hdr_Height (blk_Header b) \<le> to}"
    using found_between [OF assms] by blast
  ultimately show ?thesis using asc by blast
qed

theorem Range_returns_witness:
  "\<exists>bs. Repo_Range example_repo 1 5 = Some bs \<and> sorted_wrt height_less bs \<and> example_block 1 '''' ''h1'' \<in> set bs"
proof -
  have "unat (5 :: Height) < 2 ^ 64 - 1" by simp
  from Range_returns [OF example_repo_facts(1) this, of 1] show ?thesis
    by (elim exE conjE, intro exI conjI) (assumption, assumption, simp add: example_repo_def example_block_def)
qed

text \<open>with the largest height as its upper end \<open>Range\<close> never returns: the counter wraps around.\<close>

theorem Range_diverges: "Repo_Range r from 18446744073709551615 = None"
proof -
  have "(18446744073709551615 :: Height) = - 1" by simp
  then show ?thesis by (simp only: Repo_Range_def range_loop_diverges) simp
qed

section \<open>The metadata store and the index\<close>

definition in_range :: "Query \<Rightarrow> BlockMeta \<Rightarrow> bool" where
  "in_range q m \<longleftrightarrow> (q_From q > 0 \<longrightarrow> q_From q \<le> bm_Height m) \<and> (q_To q > 0 \<longrightarrow> bm_Height m \<le> q_To q)"

lemma query_loop_spec:
  "query_loop q acc ms =
     acc @ (if q_Limit q > 0 then take (nat (q_Limit q) - length acc) (filter (in_range q) ms) else filter (in_range q) ms)"
proof (induction ms arbitrary: acc)
  case (Cons m ms)
  show ?case
  proof (cases "in_range q m")
    case False
    then show ?thesis using Cons [of acc] by (auto simp: in_range_def not_le)
  next
    case True
    then have "\<not> (q_From q > 0 \<and> bm_Height m < q_From q)" "\<not> (q_To q > 0 \<and> bm_Height m > q_To q)"
      by (auto simp: in_range_def)
    then show ?thesis using Cons [of "acc @ [m]"] True
      by (auto simp: take_Cons')
  qed
qed simp

interpretation by_meta_height: slice_less meta_less
  by unfold_locales (auto simp: meta_less_def)

text \<open>\<open>Query\<close> returns the first \<open>Limit\<close> entries of the asked range by ascending height (all of them
  when the limit is not positive); the proposer of the query plays no part.\<close>

theorem Query_spec:
  "MetaStore_Query ord s q =
     (if q_Limit q > 0 then take (nat (q_Limit q)) else id) (filter (in_range q) (MetaStore_All ord s)) \<and>
   sorted_wrt (\<lambda>a b. bm_Height a \<le> bm_Height b) (MetaStore_Query ord s q) \<and>
   MetaStore_Query ord s (q\<lparr>q_Proposer := p\<rparr>) = MetaStore_Query ord s q"
proof -
  have eq: "MetaStore_Query ord s q =
      (if q_Limit q > 0 then take (nat (q_Limit q)) else id) (filter (in_range q) (MetaStore_All ord s))" for q
    by (simp add: MetaStore_Query_def query_loop_spec)
  have "sorted_wrt (\<lambda>a b. bm_Height a \<le> bm_Height b) (MetaStore_All ord s)"
    using by_meta_height.sort_slice_in_order by (simp add: MetaStore_All_def meta_less_def not_less)
  then have "sorted_wrt (\<lambda>a b. bm_Height a \<le> bm_Height b) (MetaStore_Query ord s q)"
    by (simp add: eq sorted_wrt_filter sorted_wrt_take)
  moreover have "in_range (q\<lparr>q_Proposer := p\<rparr>) = in_range q" by (simp add: in_range_def fun_eq_iff)
  ultimately show ?thesis by (simp add: eq)
qed

text \<open>
  The two maps of the store agree as long as no height is given a second hash.  After that the entry
  of the first hash stays behind: \<open>DeleteAbove\<close> removes only the hash the height has now.
\<close>

lemma MetaStore_stale_hash:
  assumes "bm_Height m = bm_Height m'" and "bm_Hash m \<noteq> bm_Hash m'" and "h < bm_Height m"
  shows "let s = MetaStore_DeleteAbove [bm_Height m] (MetaStore_Put (MetaStore_Put NewMetaStore m) m') h
         in MetaStore_Size s = 0 \<and> MetaStore_GetHash s (bm_Hash m) = Some m"
  using assms
  by (simp add: MetaStore_DeleteAbove_def MetaStore_Put_def NewMetaStore_def MetaStore_Size_def MetaStore_GetHash_def maplen_upd maplen_drop fmdrop_fmupd)

text \<open>
  The index: the heights are those of the indexed hashes, and a proposer's heights are among them.
  Additions and truncation keep that.
\<close>

definition index_inv :: "Index \<Rightarrow> bool" where
  "index_inv i \<longleftrightarrow>
     (\<forall>h. h \<in> set (ix_heights i) \<longleftrightarrow> (\<exists>hash. mapget (ix_hashes i) hash = Some h)) \<and>
     (\<forall>p h. h \<in> set (mapget0 [] (ix_proposers i) p) \<longrightarrow> h \<in> set (ix_heights i))"

lemma index_inv_New [inv_intros]: "index_inv (NewIndex now)"
  by (simp add: index_inv_def NewIndex_def mapget0_def)

lemma index_inv_Add [inv_intros]:
  assumes "index_inv i" and "Index_Add i b = Inr i'"
  shows "index_inv i'"
proof -
  let ?h = "hdr_Height (blk_Header b)"
  have new: "mapget (ix_hashes i) (blk_Hash b) = None"
    and i': "ix_heights i' = ix_heights i @ [?h]" "ix_hashes i' = fmupd (blk_Hash b) ?h (ix_hashes i)"
      "ix_proposers i' = fmupd (hdr_Proposer (blk_Header b)) (mapget0 [] (ix_proposers i) (hdr_Proposer (blk_Header b)) @ [?h]) (ix_proposers i)"
    using assms(2) by (auto simp: Index_Add_def Let_def split: if_splits)
  have "(\<exists>hash. mapget (ix_hashes i') hash = Some h) \<longleftrightarrow> h = ?h \<or> (\<exists>hash. mapget (ix_hashes i) hash = Some h)" for h
    using new by (auto simp: i') (metis option.distinct(1))
  with assms(1) show ?thesis by (auto simp: index_inv_def i' mapget0_upd)
qed

lemma foldl_filter_lookup:
  "distinct ord \<Longrightarrow> mapget0 [] (foldl (\<lambda>m p. fmupd p (filter P (mapget0 [] m p)) m) m ord) p =
   (if p \<in> set ord then filter P (mapget0 [] m p) else mapget0 [] m p)"
  by (induction ord arbitrary: m) (auto simp: mapget0_upd)

lemma Index_RemoveAbove_Proposer:
  assumes "iterates op (ix_proposers i)"
  shows "Index_Proposer (Index_RemoveAbove oh op i h) p = filter (\<lambda>x. x \<le> h) (Index_Proposer i p)"
proof (cases "p \<in> set op")
  case False
  then have "mapget0 [] (ix_proposers i) p = []"
    using iterates_lookup [OF assms, of p] by (auto simp: mapget0_def split: option.splits)
  with False show ?thesis
    by (simp add: Index_Proposer_def Index_RemoveAbove_def foldl_filter_lookup iterates_distinct [OF assms])
qed (simp add: Index_Proposer_def Index_RemoveAbove_def foldl_filter_lookup iterates_distinct [OF assms])

lemma index_inv_RemoveAbove [inv_intros]:
  assumes "index_inv i" and "iterates oh (ix_hashes i)" and "iterates op (ix_proposers i)"
  shows "index_inv (Index_RemoveAbove oh op i h)"
proof -
  let ?i = "Index_RemoveAbove oh op i h"
  have "(\<exists>hash. mapget (ix_hashes ?i) hash = Some x) \<longleftrightarrow> x \<le> h \<and> (\<exists>hash. mapget (ix_hashes i) hash = Some x)" for x
    using hashes.truncate_lookup [of "(oh, op)" i h] assms(2,3) by (auto split: option.splits)
  moreover have "set (mapget0 [] (ix_proposers ?i) p) = {x \<in> set (mapget0 [] (ix_proposers i) p). x \<le> h}" for p
    using Index_RemoveAbove_Proposer [OF assms(3), of oh h p] by (simp add: Index_Proposer_def)
  ultimately show ?thesis using assms(1) by (auto simp: index_inv_def Index_RemoveAbove_def)
qed

end
