(* ===== verification/State_Machine.thy ===== *)
theory State_Machine
  imports Chain_Domain
begin

text \<open>
  \<open>internal/state_machine\<close>: the key/value state with its root hash, snapshots and rollback
  (\<open>state.go\<close>), the executor that applies a batch under a gas limit (\<open>executor.go\<close>) and the
  catalogue of checksummed snapshots (\<open>snapshot.go\<close>).  The mutexes make each method one step, so a
  method is a function from the state to its result and the new state.
\<close>

section \<open>\<open>state.go\<close>\<close>

record State =
  st_data :: "(string, string) fmap"
  st_versions :: "(Height, (string, string) fmap) fmap"

definition State_New :: State where
  "State_New = \<lparr>st_data = fmempty, st_versions = fmempty\<rparr>"

datatype state_error = GasRequired | KeyRequired | SnapshotUnavailable

fun state_error_msg :: "state_error \<Rightarrow> string" where
  "state_error_msg GasRequired = ''gas required''"
| "state_error_msg KeyRequired = ''key required''"
| "state_error_msg SnapshotUnavailable = ''snapshot unavailable''"

definition State_Apply :: "State \<Rightarrow> Tx \<Rightarrow> state_error + State" where
  "State_Apply s t =
     (if tx_Gas t = 0 then Inl GasRequired
      else if tx_Key t = '''' then Inl KeyRequired
      else Inr (s\<lparr>st_data := fmupd (tx_Key t) (tx_Value t) (st_data s)\<rparr>))"

text \<open>
  The insertion sort of \<open>root\<close>: \<open>sift\<close> is the inner loop, which swaps the element at \<open>j\<close>
  towards the front while it is smaller than its left neighbour.
\<close>

fun sift :: "nat \<Rightarrow> string list \<Rightarrow> string list" where
  "sift 0 keys = keys"
| "sift (Suc j) keys =
     (if keys ! Suc j < keys ! j then sift j (keys[Suc j := keys ! j, j := keys ! Suc j]) else keys)"

definition insertion_sort :: "string list \<Rightarrow> string list" where
  "insertion_sort keys = fold sift [1..<length keys] keys"

definition root :: "string list \<Rightarrow> (string, string) fmap \<Rightarrow> string" where
  "root ord d =
     EncodeToString (Sum256 (concat (map (\<lambda>k. k @ ''='' @ mapget0 '''' d k @ '';'') (insertion_sort ord))))"

definition State_Root :: "string list \<Rightarrow> State \<Rightarrow> string" where
  "State_Root ord s = root ord (st_data s)"

definition State_Snapshot :: "State \<Rightarrow> Height \<Rightarrow> (string, string) fmap \<times> State" where
  "State_Snapshot s h = (st_data s, s\<lparr>st_versions := fmupd h (st_data s) (st_versions s)\<rparr>)"

definition State_Rollback :: "State \<Rightarrow> Height \<Rightarrow> state_error + State" where
  "State_Rollback s h =
     (case mapget (st_versions s) h of
        None \<Rightarrow> Inl SnapshotUnavailable
      | Some d \<Rightarrow> Inr (s\<lparr>st_data := d\<rparr>))"

definition State_Get :: "State \<Rightarrow> string \<Rightarrow> string option" where
  "State_Get s k = mapget (st_data s) k"

definition State_Data :: "State \<Rightarrow> (string, string) fmap" where
  "State_Data s = st_data s"

section \<open>\<open>executor.go\<close>\<close>

record Result =
  xr_Applied :: nat
  xr_Failed :: nat
  xr_GasUsed :: u64
  xr_Root :: string
  xr_Duration :: duration
  xr_Errors :: "string list"

definition zero_Result :: Result where
  "zero_Result = \<lparr>xr_Applied = 0, xr_Failed = 0, xr_GasUsed = 0, xr_Root = '''', xr_Duration = 0, xr_Errors = []\<rparr>"

record Executor =
  ex_State :: State
  ex_MaxGas :: u64

definition NewExecutor :: "State \<Rightarrow> Executor" where
  "NewExecutor s = \<lparr>ex_State = s, ex_MaxGas = 10000000\<rparr>"

definition fail :: "Result \<Rightarrow> string \<Rightarrow> Result" where
  "fail r msg = r\<lparr>xr_Failed := xr_Failed r + 1, xr_Errors := xr_Errors r @ [msg]\<rparr>"

fun exec_loop :: "u64 \<Rightarrow> Result \<Rightarrow> State \<Rightarrow> Tx list \<Rightarrow> Result \<times> State" where
  "exec_loop maxGas r s [] = (r, s)"
| "exec_loop maxGas r s (t # ts) =
     (if tx_Gas t > maxGas - xr_GasUsed r then exec_loop maxGas (fail r ''gas limit'') s ts
      else case ValidateTx t of
        Some e \<Rightarrow> exec_loop maxGas (fail r (tx_error_msg e)) s ts
      | None \<Rightarrow>
          (case State_Apply s t of
             Inl e \<Rightarrow> exec_loop maxGas (fail r (state_error_msg e)) s ts
           | Inr s' \<Rightarrow>
               exec_loop maxGas (r\<lparr>xr_Applied := xr_Applied r + 1, xr_GasUsed := xr_GasUsed r + tx_Gas t\<rparr>) s' ts))"

text \<open>\<open>ord\<close> is the iteration order of the root computation, \<open>elapsed\<close> the measured duration.\<close>

definition Executor_Execute :: "string list \<Rightarrow> duration \<Rightarrow> Executor \<Rightarrow> Tx list \<Rightarrow> Result \<times> Executor" where
  "Executor_Execute ord elapsed x txs =
     (case exec_loop (ex_MaxGas x) zero_Result (ex_State x) txs of
        (r, s) \<Rightarrow> (r\<lparr>xr_Root := State_Root ord s, xr_Duration := elapsed\<rparr>, x\<lparr>ex_State := s\<rparr>))"

definition Executor_Estimate :: "Executor \<Rightarrow> Tx \<Rightarrow> u64" where
  "Executor_Estimate x t = (if tx_Gas t = 0 then 21000 else tx_Gas t)"

datatype batch_error = BatchTooLarge | DuplicateTx

fun batch_loop :: "string fset \<Rightarrow> Tx list \<Rightarrow> batch_error option" where
  "batch_loop seen [] = None"
| "batch_loop seen (t # ts) =
     (if tx_ID t |\<in>| seen then Some DuplicateTx else batch_loop (finsert (tx_ID t) seen) ts)"

definition Executor_ValidateBatch :: "Executor \<Rightarrow> Tx list \<Rightarrow> batch_error option" where
  "Executor_ValidateBatch x txs = (if length txs > 4096 then Some BatchTooLarge else batch_loop {||} txs)"


definition Result_String :: "Result \<Rightarrow> string" where
  "Result_String r =
     ''applied='' @ fmt_d (int (xr_Applied r)) @ '' failed='' @ fmt_d (int (xr_Failed r)) @ '' gas='' @ fmt_d (uint (xr_GasUsed r)) @
     '' root='' @ xr_Root r @ '' duration='' @ Duration_String (xr_Duration r)"

definition Executor_Health :: "string list \<Rightarrow> time \<Rightarrow> Executor \<Rightarrow> u64 \<times> string \<times> time" where
  "Executor_Health ord now x = (ex_MaxGas x, State_Root ord (ex_State x), now)"

lemma Result_String_example:
  "Result_String (zero_Result\<lparr>xr_Applied := 2, xr_GasUsed := 42000, xr_Root := ''ab'', xr_Duration := 3723004500000\<rparr>) =
     ''applied=2 failed=0 gas=42000 root=ab duration=1h2m3.0045s''"
  "Duration_String 1500000 = ''1.5ms''" "Duration_String (- 2000000000) = ''-2s''" "Duration_String 0 = ''0s''"
  "Duration_String 60000000000 = ''1m0s''"
  by code_simp+

section \<open>\<open>snapshot.go\<close>\<close>

record SnapshotRecord =
  sn_ID :: string
  sn_Height :: Height
  sn_Root :: string
  sn_Entries :: "(string, string) fmap"
  sn_Size :: nat
  sn_Checksum :: string
  sn_CreatedAt :: time
  sn_Verified :: bool

record Catalog =
  cat_items :: "(string, SnapshotRecord) fmap"
  cat_max :: int

definition NewCatalog :: "int \<Rightarrow> Catalog" where
  "NewCatalog mx = \<lparr>cat_items = fmempty, cat_max = mx\<rparr>"

datatype catalog_error = SnapshotCatalogFull

definition Catalog_Put :: "Catalog \<Rightarrow> SnapshotRecord \<Rightarrow> catalog_error + Catalog" where
  "Catalog_Put c s =
     (if int (maplen (cat_items c)) \<ge> cat_max c then Inl SnapshotCatalogFull
      else Inr (c\<lparr>cat_items := fmupd (sn_ID s) s (cat_items c)\<rparr>))"

definition Catalog_Get :: "Catalog \<Rightarrow> string \<Rightarrow> SnapshotRecord option" where
  "Catalog_Get c i = mapget (cat_items c) i"

definition snapshot_height_less :: "SnapshotRecord \<Rightarrow> SnapshotRecord \<Rightarrow> bool" where
  "snapshot_height_less a b \<longleftrightarrow> sn_Height a > sn_Height b"

definition Catalog_List :: "string list \<Rightarrow> Catalog \<Rightarrow> SnapshotRecord list" where
  "Catalog_List ord c = sort_slice snapshot_height_less (map (\<lambda>i. the (mapget (cat_items c) i)) ord)"

text \<open>The function \<open>checksum\<close> of \<open>snapshot.go\<close>; \<open>ord\<close> is the iteration order over the entries.\<close>

definition snapshot_checksum :: "string list \<Rightarrow> (string, string) fmap \<Rightarrow> string" where
  "snapshot_checksum ord d =
     EncodeToString (Sum256 (concat (map (\<lambda>k. k @ [CHR 0x00] @ mapget0 '''' d k @ [CHR 0x00]) (sort ord))))"

definition Catalog_Verify :: "string list \<Rightarrow> Catalog \<Rightarrow> string \<Rightarrow> bool \<times> Catalog" where
  "Catalog_Verify ord c i =
     (case mapget (cat_items c) i of
        None \<Rightarrow> (False, c)
      | Some s \<Rightarrow>
          (let s' = s\<lparr>sn_Verified := (snapshot_checksum ord (sn_Entries s) = sn_Checksum s)\<rparr>
           in (sn_Verified s', c\<lparr>cat_items := fmupd i s' (cat_items c)\<rparr>)))"

definition MakeSnapshot ::
  "string list \<Rightarrow> string list \<Rightarrow> time \<Rightarrow> string \<Rightarrow> Height \<Rightarrow> (string, string) fmap \<Rightarrow> SnapshotRecord" where
  "MakeSnapshot ord ord' now i h d =
     \<lparr>sn_ID = i, sn_Height = h, sn_Root = snapshot_checksum ord d, sn_Entries = d, sn_Size = maplen d,
      sn_Checksum = snapshot_checksum ord' d, sn_CreatedAt = now, sn_Verified = False\<rparr>"

definition SnapshotRecord_Valid :: "SnapshotRecord \<Rightarrow> bool" where
  "SnapshotRecord_Valid s \<longleftrightarrow> sn_ID s \<noteq> '''' \<and> sn_Height s > 0 \<and> sn_Root s \<noteq> '''' \<and> sn_Checksum s \<noteq> ''''"

definition SnapshotRecord_Keys :: "string list \<Rightarrow> SnapshotRecord \<Rightarrow> string list" where
  "SnapshotRecord_Keys ord s = sort ord"

definition SnapshotRecord_Read :: "SnapshotRecord \<Rightarrow> string \<Rightarrow> string option" where
  "SnapshotRecord_Read s k = mapget (sn_Entries s) k"

section \<open>The insertion sort of \<open>root\<close>\<close>

abbreviation gt :: "string \<Rightarrow> string \<Rightarrow> bool" where
  "gt \<equiv> \<lambda>a b. a > b"

interpretation desc: slice_less gt
  using slice_less_key_desc [of id] by simp

lemma sift_append:
  "length xs = i \<Longrightarrow> sift i (xs @ x # ys) = rev (insert_by gt x (rev xs)) @ ys"
proof (induction i arbitrary: xs ys)
  case (Suc j)
  then obtain zs z where xs: "xs = zs @ [z]" by (cases xs rule: rev_cases) auto
  with Suc.prems have len: "length zs = j" by simp
  then have "(xs @ x # ys) ! Suc j = x" "(xs @ x # ys) ! j = z"
    and swap: "(xs @ x # ys)[Suc j := z, j := x] = zs @ x # z # ys"
    by (simp_all add: xs nth_append list_update_append)
  then show ?case
    using Suc.IH [OF len, of "z # ys"] by (simp add: xs)
qed simp

lemma fold_sift:
  assumes "1 \<le> k" and "k \<le> length ks"
  shows "fold sift [1..<k] ks = rev (sort_slice gt (rev (take k ks))) @ drop k ks"
  using assms
proof (induction k rule: nat_induct_at_least)
  case base
  then show ?case by (cases ks) auto
next
  case (Suc k)
  let ?A = "sort_slice gt (rev (take k ks))"
  have k: "k < length ks" using Suc.prems by simp
  have "fold sift [1..<Suc k] ks = sift k (rev ?A @ ks ! k # drop (Suc k) ks)"
    using Suc k by (simp add: Cons_nth_drop_Suc)
  also have "\<dots> = rev (insert_by gt (ks ! k) ?A) @ drop (Suc k) ks"
    using k by (subst sift_append) simp_all
  also have "insert_by gt (ks ! k) ?A = sort_slice gt (rev (take (Suc k) ks))"
    using k by (simp add: take_Suc_conv_app_nth)
  finally show ?case .
qed

lemma insertion_sort_sort: "insertion_sort ks = sort ks"
proof (cases ks)
  case (Cons x xs)
  then have eq: "insertion_sort ks = rev (sort_slice gt (rev ks))"
    using fold_sift [of "length ks" ks] by (simp add: insertion_sort_def)
  have "sorted_wrt (\<lambda>x y. \<not> y > x) (sort_slice gt (rev ks))"
    by (rule desc.sort_slice_in_order)
  then have "sorted (rev (sort_slice gt (rev ks)))"
    by (simp add: sorted_wrt_rev not_less)
  then show ?thesis
    unfolding eq by (intro properties_for_sort [symmetric]) simp_all
qed (simp add: insertion_sort_def)

section \<open>What the root and the checksum hash\<close>

definition root_bytes :: "(string, string) fmap \<Rightarrow> bytes" where
  "root_bytes d = concat (map (entry CHR ''='' CHR '';'') (sorted_entries d))"

definition checksum_bytes :: "(string, string) fmap \<Rightarrow> bytes" where
  "checksum_bytes d = concat (map (entry CHR 0x00 CHR 0x00) (sorted_entries d))"

lemma mapget0_sorted_entries:
  "map (\<lambda>k. entry a b (k, mapget0 '''' d k)) (sorted_list_of_fset (fmdom d)) = map (entry a b) (sorted_entries d)"
  by (auto simp: sorted_entries_def mapget0_def fmlookup_dom_iff)

lemma root_eq: "iterates ord d \<Longrightarrow> root ord d = sha256Hex (root_bytes d)"
  using mapget0_sorted_entries [of "CHR ''=''" "CHR '';''" d]
  by (simp add: root_def sha256Hex_def root_bytes_def insertion_sort_sort iterates_sort)

lemma snapshot_checksum_eq: "iterates ord d \<Longrightarrow> snapshot_checksum ord d = sha256Hex (checksum_bytes d)"
  using mapget0_sorted_entries [of "CHR 0x00" "CHR 0x00" d]
  by (simp add: snapshot_checksum_def sha256Hex_def checksum_bytes_def iterates_sort)

definition separator_free :: "char \<Rightarrow> char \<Rightarrow> (string, string) fmap \<Rightarrow> bool" where
  "separator_free a b d \<longleftrightarrow> list_all (\<lambda>(k, v). a \<notin> set k \<and> b \<notin> set v) (sorted_entries d)"

lemma root_bytes_inj:
  "separator_free CHR ''='' CHR '';'' d \<Longrightarrow> separator_free CHR ''='' CHR '';'' d' \<Longrightarrow> root_bytes d = root_bytes d' \<Longrightarrow> d = d'"
  unfolding separator_free_def root_bytes_def list_all_iff by (intro sorted_entries_inj entries_inj)

lemma checksum_bytes_inj:
  "separator_free CHR 0x00 CHR 0x00 d \<Longrightarrow> separator_free CHR 0x00 CHR 0x00 d' \<Longrightarrow> checksum_bytes d = checksum_bytes d' \<Longrightarrow> d = d'"
  unfolding separator_free_def checksum_bytes_def list_all_iff by (intro sorted_entries_inj entries_inj)

section \<open>The executor against exact arithmetic\<close>

text \<open>
  Which transactions of a batch a gas limit admits, counted in natural numbers: the specification
  the 64-bit loop of \<open>Execute\<close> is compared with.
\<close>

fun admitted :: "nat \<Rightarrow> nat \<Rightarrow> Tx list \<Rightarrow> Tx list" where
  "admitted limit used [] = []"
| "admitted limit used (t # ts) =
     (if used + unat (tx_Gas t) \<le> limit \<and> ValidateTx t = None \<and> tx_Key t \<noteq> ''''
      then t # admitted limit (used + unat (tx_Gas t)) ts
      else admitted limit used ts)"

definition write_all :: "(string, string) fmap \<Rightarrow> Tx list \<Rightarrow> (string, string) fmap" where
  "write_all d ts = foldl (\<lambda>d t. fmupd (tx_Key t) (tx_Value t) d) d ts"

lemma gas_guard:
  fixes limit used gas :: u64
  assumes "used \<le> limit"
  shows "gas > limit - used \<longleftrightarrow> unat limit < unat used + unat gas"
    and "\<not> gas > limit - used \<Longrightarrow> used + gas \<le> limit \<and> unat (used + gas) = unat used + unat gas"
proof -
  have sub: "unat (limit - used) = unat limit - unat used"
    using assms by (rule unat_sub)
  then show guard: "gas > limit - used \<longleftrightarrow> unat limit < unat used + unat gas"
    using assms unfolding word_less_nat_alt word_le_nat_alt by auto
  assume "\<not> gas > limit - used"
  then have le: "unat used + unat gas \<le> unat limit" using guard by simp
  then have "unat used + unat gas < 2 ^ 64"
    using unsigned_less [of limit, where ?'a = nat] by simp
  then have "unat (used + gas) = unat used + unat gas"
    by (simp add: unat_word_ariths)
  with le show "used + gas \<le> limit \<and> unat (used + gas) = unat used + unat gas"
    by (simp add: word_le_nat_alt)
qed

lemma ValidateTx_gas: "ValidateTx t = None \<Longrightarrow> tx_Gas t \<noteq> 0"
  by (auto simp: ValidateTx_def split: if_splits)

lemma State_Apply_valid:
  "ValidateTx t = None \<Longrightarrow> State_Apply s t =
     (if tx_Key t = '''' then Inl KeyRequired else Inr (s\<lparr>st_data := fmupd (tx_Key t) (tx_Value t) (st_data s)\<rparr>))"
  by (simp add: State_Apply_def ValidateTx_gas)

lemma exec_loop_admitted:
  assumes "exec_loop limit r s ts = (r', s')" and "xr_GasUsed r \<le> limit"
  defines "acc \<equiv> admitted (unat limit) (unat (xr_GasUsed r)) ts"
  shows "xr_Applied r' = xr_Applied r + length acc \<and>
    xr_Failed r' + length acc = xr_Failed r + length ts \<and>
    length (xr_Errors r') + xr_Failed r = length (xr_Errors r) + xr_Failed r' \<and>
    unat (xr_GasUsed r') = unat (xr_GasUsed r) + sum_list (map (\<lambda>t. unat (tx_Gas t)) acc) \<and>
    xr_GasUsed r' \<le> limit \<and>
    st_data s' = write_all (st_data s) acc \<and> st_versions s' = st_versions s"
  using assms(1,2) unfolding acc_def
proof (induction limit r s ts rule: exec_loop.induct)
  case (1 limit r s)
  then show ?case by (simp add: write_all_def)
next
  case (2 limit r s t ts)
  note guard = gas_guard [OF "2.prems"(2), of "tx_Gas t"]
  show ?case
  proof (cases "tx_Gas t > limit - xr_GasUsed r")
    case True
    with 2 guard(1) show ?thesis by (simp add: fail_def)
  next
    case fits: False
    note fits' = guard(2) [OF fits]
    show ?thesis
    proof (cases "ValidateTx t")
      case (Some e)
      with 2 fits guard(1) show ?thesis by (simp add: fail_def)
    next
      case None
      show ?thesis
      proof (cases "tx_Key t = ''''")
        case True
        with 2 fits None guard(1) show ?thesis by (simp add: fail_def State_Apply_valid)
      next
        case False
        with 2 fits None guard(1) fits' show ?thesis
          by (simp add: State_Apply_valid write_all_def not_less)
      qed
    qed
  qed
qed

lemma Execute_admitted:
  assumes "Executor_Execute ord elapsed x txs = (r, x')"
  defines "acc \<equiv> admitted (unat (ex_MaxGas x)) 0 txs"
  shows "xr_Applied r = length acc" and "xr_Failed r + length acc = length txs"
    and "length (xr_Errors r) = xr_Failed r"
    and "unat (xr_GasUsed r) = sum_list (map (\<lambda>t. unat (tx_Gas t)) acc)"
    and "unat (xr_GasUsed r) \<le> unat (ex_MaxGas x)"
    and "st_data (ex_State x') = write_all (st_data (ex_State x)) acc"
    and "st_versions (ex_State x') = st_versions (ex_State x)"
    and "xr_Root r = State_Root ord (ex_State x')"
proof -
  obtain r0 s where loop: "exec_loop (ex_MaxGas x) zero_Result (ex_State x) txs = (r0, s)"
    by (cases "exec_loop (ex_MaxGas x) zero_Result (ex_State x) txs")
  with assms(1) have r: "r = r0\<lparr>xr_Root := State_Root ord s, xr_Duration := elapsed\<rparr>" "x' = x\<lparr>ex_State := s\<rparr>"
    by (simp_all add: Executor_Execute_def)
  have "xr_GasUsed zero_Result \<le> ex_MaxGas x" by (simp add: zero_Result_def)
  from exec_loop_admitted [OF loop this] r
  show "xr_Applied r = length acc" "xr_Failed r + length acc = length txs" "length (xr_Errors r) = xr_Failed r"
    "unat (xr_GasUsed r) = sum_list (map (\<lambda>t. unat (tx_Gas t)) acc)"
    "unat (xr_GasUsed r) \<le> unat (ex_MaxGas x)"
    "st_data (ex_State x') = write_all (st_data (ex_State x)) acc"
    "st_versions (ex_State x') = st_versions (ex_State x)" "xr_Root r = State_Root ord (ex_State x')"
    by (simp_all add: zero_Result_def acc_def word_le_nat_alt)
qed



section \<open>Sequences of state operations\<close>

datatype state_op = OpApply Tx | OpSnapshot Height | OpRollback Height

fun state_step :: "State \<Rightarrow> state_op \<Rightarrow> State" where
  "state_step s (OpApply t) = (case State_Apply s t of Inl e \<Rightarrow> s | Inr s' \<Rightarrow> s')"
| "state_step s (OpSnapshot h) = snd (State_Snapshot s h)"
| "state_step s (OpRollback h) = (case State_Rollback s h of Inl e \<Rightarrow> s | Inr s' \<Rightarrow> s')"

lemma state_step_version:
  "op \<noteq> OpSnapshot h \<Longrightarrow> mapget (st_versions (state_step s op)) h = mapget (st_versions s) h"
  by (cases op) (auto simp: State_Apply_def State_Snapshot_def State_Rollback_def split: option.splits)

lemma foldl_state_step_version:
  "OpSnapshot h \<notin> set ops \<Longrightarrow> mapget (st_versions (foldl state_step s ops)) h = mapget (st_versions s) h"
  by (induction ops arbitrary: s) (auto simp: state_step_version)

section \<open>The catalogue as a bounded store\<close>

interpretation catalog: bounded_store cat_items cat_max sn_ID
  "\<lambda>c s. case Catalog_Put c s of Inl e \<Rightarrow> None | Inr c' \<Rightarrow> Some c'"
  by unfold_locales (auto simp: Catalog_Put_def split: if_splits)

section \<open>Properties\<close>

text \<open>The hand-written insertion sort of \<open>root\<close>, which swaps neighbours in place, sorts: it returns
  what the library's sort returns, for every input.\<close>

theorem insertion_sort_correct: "insertion_sort keys = sort keys"
  by (rule insertion_sort_sort)

text \<open>C16: The state root is deterministic: it does not depend on the order in which the runtime happens to
  iterate over the state map.\<close>

theorem root_deterministic:
  assumes "iterates ord d" and "iterates ord' d"
  shows "root ord d = root ord' d"
  using assms by (simp add: root_eq)

theorem root_deterministic_witness:
  "iterates [''b'', ''a''] (fmap_of_list [(''a'', ''1''), (''b'', ''2'')]) \<and>
   root [''b'', ''a''] (fmap_of_list [(''a'', ''1''), (''b'', ''2'')]) =
   root [''a'', ''b''] (fmap_of_list [(''a'', ''1''), (''b'', ''2'')])"
proof -
  let ?d = "fmap_of_list [(''a'', ''1''), (''b'', ''2'')]"
  have i: "iterates [''b'', ''a''] ?d" "iterates [''a'', ''b''] ?d"
    by (auto simp: iterates_def fset_of_list.rep_eq)
  from root_deterministic [OF i] i(1) show ?thesis by simp
qed

text \<open>C15: The state root commits to the state: if no key holds \<open>=\<close> and no value holds \<open>;\<close>, equal roots mean
  equal states or a SHA-256 collision between the two serialised states.\<close>

theorem root_binding:
  assumes "iterates ord d" and "iterates ord' d'" and "root ord d = root ord' d'"
    and "separator_free CHR ''='' CHR '';'' d" and "separator_free CHR ''='' CHR '';'' d'"
  shows "d = d' \<or> (root_bytes d \<noteq> root_bytes d' \<and> sha256Hex (root_bytes d) = sha256Hex (root_bytes d'))"
  using assms root_bytes_inj [of d d'] by (auto simp: root_eq)

theorem root_binding_witness:
  "iterates [''a''] (fmap_of_list [(''a'', ''1'')]) \<and>
   separator_free CHR ''='' CHR '';'' (fmap_of_list [(''a'', ''1'')]) \<and>
   (fmap_of_list [(''a'', ''1'')] = fmap_of_list [(''a'', ''1'')] \<or>
     (root_bytes (fmap_of_list [(''a'', ''1'')]) \<noteq> root_bytes (fmap_of_list [(''a'', ''1'')]) \<and>
      sha256Hex (root_bytes (fmap_of_list [(''a'', ''1'')])) = sha256Hex (root_bytes (fmap_of_list [(''a'', ''1'')]))))"
proof -
  let ?d = "fmap_of_list [(''a'', ''1'')]"
  have i: "iterates [''a''] ?d"
    by (auto simp: iterates_def fset_of_list.rep_eq)
  have s: "separator_free CHR ''='' CHR '';'' ?d"
    by (simp add: separator_free_def sorted_entries_def sorted_list_of_fset.rep_eq)
  from root_binding [OF i i refl s s] i s show ?thesis by blast
qed

text \<open>Without that condition the state root is ambiguous: two different states have the same root, with
  no collision of the hash, because a value can imitate the text of further entries.\<close>

theorem root_ambiguous:
  "\<exists>d d' ord ord'. d \<noteq> d' \<and> iterates ord d \<and> iterates ord' d' \<and> root ord d = root ord' d'"
proof (intro exI conjI)
  let ?d = "fmap_of_list [(''a'', ''1;b=2'')]" and ?d' = "fmap_of_list [(''a'', ''1''), (''b'', ''2'')]"
  have "mapget ?d ''b'' \<noteq> mapget ?d' ''b''" by simp
  then show "?d \<noteq> ?d'" by metis
  show i: "iterates [''a''] ?d" "iterates [''a'', ''b''] ?d'"
    by (auto simp: iterates_def fset_of_list.rep_eq)
  have "root_bytes ?d = root_bytes ?d'"
    by (simp add: root_bytes_def sorted_entries_def sorted_list_of_fset.rep_eq)
  with i show "root [''a''] ?d = root [''a'', ''b''] ?d'" by (simp add: root_eq)
qed

text \<open>C27: A snapshot can be rolled back to: after any sequence of applied transactions, rollbacks and
  snapshots at other heights, \<open>Rollback\<close> to the snapshot's height succeeds and restores exactly the data
  the state had when the snapshot was taken.\<close>

theorem Rollback_restores_Snapshot:
  assumes "OpSnapshot h \<notin> set ops"
  shows "\<exists>s'. State_Rollback (foldl state_step (snd (State_Snapshot s h)) ops) h = Inr s' \<and> State_Data s' = State_Data s"
proof -
  have "mapget (st_versions (foldl state_step (snd (State_Snapshot s h)) ops)) h = Some (st_data s)"
    using foldl_state_step_version [OF assms] by (simp add: State_Snapshot_def)
  then show ?thesis by (simp add: State_Rollback_def State_Data_def)
qed

theorem Rollback_restores_Snapshot_witness:
  "\<exists>s'. State_Rollback (foldl state_step (snd (State_Snapshot State_New 1)) [OpApply example_tx, OpSnapshot 2]) 1 = Inr s' \<and>
     State_Data s' = State_Data State_New"
  by (rule Rollback_restores_Snapshot) simp

text \<open>C14: \<open>Execute\<close> refines exact gas accounting: it applies the transactions that a limit counted in
  natural numbers admits, in order, reports their number, the number of the others with one error
  each, and their exact total gas, which never exceeds the limit.\<close>

theorem Execute_refines_admitted:
  assumes "Executor_Execute ord elapsed x txs = (r, x')"
  shows "let acc = admitted (unat (ex_MaxGas x)) 0 txs in
    xr_Applied r = length acc \<and> xr_Applied r + xr_Failed r = length txs \<and>
    length (xr_Errors r) = xr_Failed r \<and>
    unat (xr_GasUsed r) = sum_list (map (\<lambda>t. unat (tx_Gas t)) acc) \<and> xr_GasUsed r \<le> ex_MaxGas x \<and>
    st_data (ex_State x') = write_all (st_data (ex_State x)) acc \<and>
    xr_Root r = State_Root ord (ex_State x')"
  using Execute_admitted [OF assms] by (simp add: Let_def word_le_nat_alt)

theorem Execute_refines_admitted_witness:
  "\<exists>r x'. Executor_Execute [''demo''] 0 (NewExecutor State_New) [example_tx] = (r, x') \<and>
     xr_Applied r = 1 \<and> xr_Failed r = 0 \<and> xr_GasUsed r \<le> ex_MaxGas (NewExecutor State_New)"
proof -
  obtain r x' where e: "Executor_Execute [''demo''] 0 (NewExecutor State_New) [example_tx] = (r, x')"
    by (cases "Executor_Execute [''demo''] 0 (NewExecutor State_New) [example_tx]")
  have "admitted (unat (ex_MaxGas (NewExecutor State_New))) 0 [example_tx] = [example_tx]"
    by (simp add: NewExecutor_def example_tx_def ValidateTx_def TrimSpace_def trim_left.simps
        strip_prefix_def space_runes_def)
  with e Execute_refines_admitted [OF e] show ?thesis by (auto simp: Let_def)
qed



lemma batch_loop_None_iff:
  "batch_loop seen ts = None \<longleftrightarrow> distinct (map tx_ID ts) \<and> (\<forall>t \<in> set ts. tx_ID t |\<notin>| seen)"
proof (induction seen ts rule: batch_loop.induct)
  case (2 seen t ts)
  have "tx_ID t \<in> tx_ID ` set ts \<longleftrightarrow> (\<exists>u \<in> set ts. tx_ID u = tx_ID t)"
    by (metis image_iff)
  with 2 show ?case by (cases "tx_ID t |\<in>| seen") auto
qed simp

text \<open>\<open>ValidateBatch\<close> accepts exactly the batches of at most 4096 transactions with distinct identifiers.\<close>

theorem ValidateBatch_accepts_iff:
  "Executor_ValidateBatch x txs = None \<longleftrightarrow> length txs \<le> 4096 \<and> distinct (map tx_ID txs)"
  by (simp add: Executor_ValidateBatch_def batch_loop_None_iff)

text \<open>C37: \<open>Catalog.Verify\<close> detects changed entries: for a stored record with the checksum that \<open>MakeSnapshot\<close>
  gave it for the entries \<open>d\<close>, it answers true exactly when the record's entries are still \<open>d\<close>, or the two
  serialised maps are a SHA-256 collision; the answer does not depend on iteration orders.  The keys and
  values of both maps must be free of NUL bytes, which the serialised text uses as separators.\<close>

theorem Catalog_Verify_detects_change:
  assumes "mapget (cat_items c) i = Some s" and "sn_Checksum s = sn_Checksum (MakeSnapshot ord0 ord' now name h d)"
    and "iterates ord' d" and "iterates ord (sn_Entries s)"
    and "separator_free CHR 0x00 CHR 0x00 d" and "separator_free CHR 0x00 CHR 0x00 (sn_Entries s)"
  shows "fst (Catalog_Verify ord c i) \<longleftrightarrow> sn_Entries s = d \<or>
    (checksum_bytes (sn_Entries s) \<noteq> checksum_bytes d \<and>
     sha256Hex (checksum_bytes (sn_Entries s)) = sha256Hex (checksum_bytes d))"
  using assms checksum_bytes_inj [of "sn_Entries s" d]
  by (auto simp: Catalog_Verify_def MakeSnapshot_def snapshot_checksum_eq Let_def)

theorem Catalog_Verify_detects_change_witness:
  "fst (Catalog_Verify [''a''] \<lparr>cat_items = fmap_of_list [(''s'', MakeSnapshot [''a''] [''a''] 1 ''s'' 1 (fmap_of_list [(''a'', ''1'')]))], cat_max = 4\<rparr> ''s'')"
proof -
  let ?d = "fmap_of_list [(''a'', ''1'')]"
  let ?s = "MakeSnapshot [''a''] [''a''] 1 ''s'' 1 ?d"
  let ?c = "\<lparr>cat_items = fmap_of_list [(''s'', ?s)], cat_max = 4\<rparr>"
  have i: "iterates [''a''] ?d"
    by (auto simp: iterates_def fset_of_list.rep_eq)
  have f: "separator_free CHR 0x00 CHR 0x00 ?d"
    by (simp add: separator_free_def sorted_entries_def sorted_list_of_fset.rep_eq)
  have "fst (Catalog_Verify [''a''] ?c ''s'') \<longleftrightarrow> sn_Entries ?s = ?d \<or>
      (checksum_bytes (sn_Entries ?s) \<noteq> checksum_bytes ?d \<and>
       sha256Hex (checksum_bytes (sn_Entries ?s)) = sha256Hex (checksum_bytes ?d))"
    by (rule Catalog_Verify_detects_change [where ord' = "[''a'']" and ord0 = "[''a'']" and now = 1 and name = "''s''" and h = 1]) (simp_all add: MakeSnapshot_def i [simplified] f [simplified])
  then show ?thesis by (simp add: MakeSnapshot_def)
qed

text \<open>The catalogue stays within its capacity and a stored snapshot can be read back: after a successful
  \<open>Put\<close> the catalogue holds at most \<open>max\<close> records, the new one under its identifier and every other one
  unchanged.\<close>

theorem Catalog_Put_bounded:
  assumes "Catalog_Put c s = Inr c'"
  shows "int (maplen (cat_items c')) \<le> cat_max c' \<and> Catalog_Get c' (sn_ID s) = Some s \<and>
    (\<forall>i. i \<noteq> sn_ID s \<longrightarrow> Catalog_Get c' i = Catalog_Get c i)"
proof (intro conjI)
  show "int (maplen (cat_items c')) \<le> cat_max c'"
    by (rule catalog.put_bounded [of c s]) (simp add: assms)
qed (use assms in \<open>auto simp: Catalog_Put_def Catalog_Get_def split: if_splits\<close>)

theorem Catalog_Put_bounded_witness:
  "\<exists>c'. Catalog_Put (NewCatalog 1) (MakeSnapshot [] [] 1 ''s'' 1 fmempty) = Inr c' \<and> int (maplen (cat_items c')) \<le> 1"
proof -
  obtain c' where c': "Catalog_Put (NewCatalog 1) (MakeSnapshot [] [] 1 ''s'' 1 fmempty) = Inr c'" "cat_max c' = 1"
    by (simp add: Catalog_Put_def NewCatalog_def)
  with Catalog_Put_bounded [OF c'(1)] show ?thesis by auto
qed

end
