(* ===== verification/Merkle_Proof.thy ===== *)
theory Merkle_Proof
  imports State_Machine
begin

text \<open>
  \<open>internal/proof\<close>: Merkle trees over a key/value map with inclusion proofs (\<open>merkle.go\<close>), and the
  older flat proof the HTTP interface serves (\<open>proof.go\<close>).  The functions that range over the map take
  the iteration order as an argument.
\<close>

unbundle bit_operations_syntax

section \<open>\<open>merkle.go\<close>: trees\<close>

text \<open>
  A node has a leaf's key and value or two children.  The last node of an odd level has the same
  pointer as its left and right child; the constructor \<open>Twin\<close> stands for this sharing, which
  \<open>Leaves\<close> observes.
\<close>

datatype Node =
    Leaf (Node_Hash: string) string string
  | Pair (Node_Hash: string) Node Node
  | Twin (Node_Hash: string) Node

definition hash :: "string \<Rightarrow> string" where
  "hash s = EncodeToString (Sum256 s)"

definition leaf_text :: "(string, string) fmap \<Rightarrow> string \<Rightarrow> string" where
  "leaf_text items k = k @ ''='' @ mapget0 '''' items k"

fun tree_level :: "Node list \<Rightarrow> Node list" where
  "tree_level [] = []"
| "tree_level [n] = [Twin (hash (Node_Hash n @ Node_Hash n)) n]"
| "tree_level (m # n # ns) = Pair (hash (Node_Hash m @ Node_Hash n)) m n # tree_level ns"

lemma length_tree_level [simp]: "length (tree_level ns) = (length ns + 1) div 2"
  by (induction ns rule: tree_level.induct) auto

function tree_up :: "Node list \<Rightarrow> Node list" where
  "tree_up ns = (if length ns > 1 then tree_up (tree_level ns) else ns)"
  by pat_completeness auto
termination
  by (relation "measure length") auto

declare tree_up.simps [simp del]

definition BuildTree :: "string list \<Rightarrow> (string, string) fmap \<Rightarrow> Node" where
  "BuildTree ord items =
     (let keys = sort ord;
          nodes = map (\<lambda>k. Leaf (hash (leaf_text items k)) k (mapget0 '''' items k)) keys
      in if length nodes = 0 then Leaf (hash '''') '''' '''' else hd (tree_up nodes))"

definition Root :: "string list \<Rightarrow> (string, string) fmap \<Rightarrow> string" where
  "Root ord items = Node_Hash (BuildTree ord items)"

fun Node_Leaves :: "Node \<Rightarrow> Node list" where
  "Node_Leaves (Leaf h k v) = [Leaf h k v]"
| "Node_Leaves (Pair h l r) = Node_Leaves l @ Node_Leaves r"
| "Node_Leaves (Twin h l) = Node_Leaves l"

section \<open>\<open>merkle.go\<close>: proofs\<close>

record Step =
  step_Hash :: string
  step_Left :: bool

record MerkleProof =
  mp_Key :: string
  mp_Value :: string
  mp_Root :: string
  mp_Steps :: "Step list"
  mp_Version :: u32

datatype proof_error = KeyNotFound

text \<open>\<open>sort.SearchStrings\<close>: binary search for the first element not below the key.\<close>

function search :: "string list \<Rightarrow> string \<Rightarrow> nat \<Rightarrow> nat \<Rightarrow> nat" where
  "search keys x i j =
     (if i < j then
        (let h = (i + j) div 2
         in if \<not> (keys ! h \<ge> x) then search keys x (h + 1) j else search keys x i h)
      else i)"
  by pat_completeness auto
termination
  by (relation "measure (\<lambda>(keys, x, i, j). j - i)") auto

declare search.simps [simp del]

definition SearchStrings :: "string list \<Rightarrow> string \<Rightarrow> nat" where
  "SearchStrings keys x = search keys x 0 (length keys)"

text \<open>The loop of \<open>Proof\<close>: it pads an odd level with its last digest, records the sibling of the current
  position and moves to the next level.\<close>

definition pad :: "string list \<Rightarrow> string list" where
  "pad hashes = (if length hashes mod 2 = 1 then hashes @ [hashes ! (length hashes - 1)] else hashes)"

lemma length_pad: "length (pad hs) = 2 * ((length hs + 1) div 2)"
  by (auto simp: pad_def) presburger+

function proof_loop :: "nat \<Rightarrow> string list \<Rightarrow> Step list \<Rightarrow> Step list \<times> string list" where
  "proof_loop index hashes steps =
     (if length hashes > 1 then
        (let hs = pad hashes;
             sibling = index XOR 1;
             steps' = steps @ [\<lparr>step_Hash = hs ! sibling, step_Left = sibling < index\<rparr>];
             next = map hash (pair_inputs hs)
         in proof_loop (index div 2) next steps')
      else (steps, hashes))"
  by pat_completeness auto
termination
  by (relation "measure (\<lambda>(index, hashes, steps). length hashes)") (auto simp: length_pad)

declare proof_loop.simps [simp del]

definition Proof :: "string list \<Rightarrow> (string, string) fmap \<Rightarrow> string \<Rightarrow> proof_error + MerkleProof" where
  "Proof ord items key =
     (case mapget items key of
        None \<Rightarrow> Inl KeyNotFound
      | Some _ \<Rightarrow>
          (let keys = sort ord;
               index = SearchStrings keys key;
               hashes = map (\<lambda>k. hash (leaf_text items k)) keys
           in case proof_loop index hashes [] of
             (steps, hashes') \<Rightarrow>
               Inr \<lparr>mp_Key = key, mp_Value = mapget0 '''' items key, mp_Root = hashes' ! 0, mp_Steps = steps, mp_Version = 1\<rparr>))"

fun verify_steps :: "string \<Rightarrow> Step list \<Rightarrow> string option" where
  "verify_steps current [] = Some current"
| "verify_steps current (s # ss) =
     (if step_Hash s = '''' then None
      else verify_steps (if step_Left s then hash (step_Hash s @ current) else hash (current @ step_Hash s)) ss)"

definition VerifyProof :: "MerkleProof \<Rightarrow> bool" where
  "VerifyProof p =
     (if mp_Key p = '''' \<or> mp_Root p = '''' \<or> mp_Version p = 0 then False
      else case verify_steps (hash (mp_Key p @ ''='' @ mp_Value p)) (mp_Steps p) of
        None \<Rightarrow> False
      | Some current \<Rightarrow> current = mp_Root p)"

definition Explain :: "MerkleProof \<Rightarrow> string \<times> string \<times> nat \<times> string \<times> bool" where
  "Explain p = (mp_Key p, mp_Root p, length (mp_Steps p), ''merkle-sha256'', VerifyProof p)"

section \<open>\<open>proof.go\<close>\<close>

record Item =
  it_Key :: string
  it_Value :: string
  it_Root :: string
  it_Path :: "string list"

text \<open>\<open>ord\<close> is the iteration order over the copied data, \<open>ord'\<close> the one of the root computation.\<close>

definition Build :: "string list \<Rightarrow> string list \<Rightarrow> State \<Rightarrow> string \<Rightarrow> Item" where
  "Build ord ord' s key =
     (case State_Get s key of
        None \<Rightarrow> \<lparr>it_Key = key, it_Value = '''', it_Root = '''', it_Path = []\<rparr>
      | Some v \<Rightarrow>
          (let d = State_Data s;
               p = map (\<lambda>k. EncodeToString (Sum256 (k @ ''='' @ mapget0 '''' d k))) (filter (\<lambda>k. k \<noteq> key) (sort ord))
           in \<lparr>it_Key = key, it_Value = v, it_Root = State_Root ord' s, it_Path = p\<rparr>))"

definition Verify :: "Item \<Rightarrow> bool" where
  "Verify i =
     (if it_Key i = '''' \<or> it_Root i = '''' then False
      else let leaf = EncodeToString (Sum256 (it_Key i @ ''='' @ it_Value i))
           in if length (it_Path i) = 0 then leaf = it_Root i
              else it_Root i \<noteq> '''' \<and> length (it_Path i) > 0)"

section \<open>The tree and the proof compute the same reduction\<close>

lemma hash_eq: "hash = sha256Hex"
  by (simp add: hash_def sha256Hex_def fun_eq_iff)

lemma tree_level_hashes: "map Node_Hash (tree_level ns) = level sha256Hex (map Node_Hash ns)"
  by (induction ns rule: tree_level.induct) (simp_all add: level_def hash_eq)

lemma tree_up_hashes: "map Node_Hash (tree_up ns) = reduce sha256Hex (map Node_Hash ns)"
proof (induction ns rule: tree_up.induct)
  case (1 ns)
  then show ?case
    by (simp add: tree_up.simps [of ns] reduce.simps [of sha256Hex "map Node_Hash ns"] tree_level_hashes)
qed

lemma concat_Leaves_level: "concat (map Node_Leaves (tree_level ns)) = concat (map Node_Leaves ns)"
  by (induction ns rule: tree_level.induct) simp_all

lemma concat_Leaves_up: "concat (map Node_Leaves (tree_up ns)) = concat (map Node_Leaves ns)"
proof (induction ns rule: tree_up.induct)
  case (1 ns)
  then show ?case by (simp add: tree_up.simps [of ns] concat_Leaves_level)
qed

lemma tree_up_single: "ns \<noteq> [] \<Longrightarrow> \<exists>n. tree_up ns = [n]"
proof -
  assume "ns \<noteq> []"
  then have "length (map Node_Hash (tree_up ns)) = 1"
    by (simp only: tree_up_hashes) (simp add: length_reduce)
  then show ?thesis by (simp add: length_Suc_conv)
qed

definition leaf_hashes :: "(string, string) fmap \<Rightarrow> string list" where
  "leaf_hashes items = map (\<lambda>k. sha256Hex (leaf_text items k)) (sorted_list_of_fset (fmdom items))"

lemma Root_eq:
  assumes "iterates ord items" and "items \<noteq> fmempty"
  shows "Root ord items = hd (reduce sha256Hex (leaf_hashes items))"
proof -
  let ?ns = "map (\<lambda>k. Leaf (hash (leaf_text items k)) k (mapget0 '''' items k)) (sort ord)"
  have "length ?ns \<noteq> 0" using assms iterates_length [OF assms(1)] by simp
  then have "?ns \<noteq> []" by (metis list.size(3))
  then obtain n where n: "tree_up ?ns = [n]" using tree_up_single by blast
  have "map Node_Hash ?ns = leaf_hashes items"
    using assms(1) by (simp add: leaf_hashes_def iterates_sort hash_eq)
  then have "[Node_Hash n] = reduce sha256Hex (leaf_hashes items)"
    using tree_up_hashes [of ?ns] n by simp
  then show ?thesis
    using \<open>?ns \<noteq> []\<close> n by (auto simp: Root_def BuildTree_def Let_def dest: sym)
qed

section \<open>Binary search\<close>

lemma search_spec:
  assumes "sorted keys" and "i \<le> j" and "j \<le> length keys"
    and "\<forall>m < i. keys ! m < x" and "\<forall>m. j \<le> m \<longrightarrow> m < length keys \<longrightarrow> x \<le> keys ! m"
  shows "let r = search keys x i j in r \<le> length keys \<and> (\<forall>m < r. keys ! m < x) \<and>
    (\<forall>m. r \<le> m \<longrightarrow> m < length keys \<longrightarrow> x \<le> keys ! m)"
  using assms
proof (induction keys x i j rule: search.induct)
  case (1 keys x i j)
  show ?case
  proof (cases "i < j")
    case False
    then have "search keys x i j = i" by (subst search.simps) simp
    with False 1 show ?thesis by (simp add: Let_def)
  next
    case True
    define h where "h = (i + j) div 2"
    have h: "i \<le> h" "h < j" using True by (auto simp: h_def)
    show ?thesis
    proof (cases "keys ! h \<ge> x")
      case ge: True
      have "\<forall>m. h \<le> m \<longrightarrow> m < length keys \<longrightarrow> x \<le> keys ! m"
        using ge "1.prems"(1) h by (meson order_trans sorted_nth_mono)
      with 1(2) [OF True h_def] ge h "1.prems" True show ?thesis
        by (simp add: search.simps [of keys x i j] Let_def h_def)
    next
      case lt: False
      have "\<forall>m < h + 1. keys ! m < x"
      proof (intro allI impI)
        fix m assume "m < h + 1"
        then have "keys ! m \<le> keys ! h"
          using "1.prems"(1,3) h by (intro sorted_nth_mono) auto
        with lt show "keys ! m < x" by simp
      qed
      with 1(1) [OF True h_def] lt h "1.prems" True show ?thesis
        by (simp add: search.simps [of keys x i j] Let_def h_def)
    qed
  qed
qed

lemma SearchStrings_found:
  assumes "sorted keys" and "x \<in> set keys"
  shows "SearchStrings keys x < length keys \<and> keys ! SearchStrings keys x = x"
proof -
  let ?r = "SearchStrings keys x"
  have r: "\<forall>m < ?r. keys ! m < x" "\<forall>m. ?r \<le> m \<longrightarrow> m < length keys \<longrightarrow> x \<le> keys ! m"
    using search_spec [OF assms(1), of 0 "length keys" x] by (simp_all add: SearchStrings_def Let_def)
  from assms(2) obtain m where m: "m < length keys" "keys ! m = x" by (auto simp: in_set_conv_nth)
  then have "?r \<le> m" using r(1) by (metis less_irrefl not_less)
  moreover from this m have "x \<le> keys ! ?r" using r(2) by simp
  moreover have "keys ! ?r \<le> keys ! m"
    using assms(1) \<open>?r \<le> m\<close> m(1) by (rule sorted_nth_mono)
  ultimately show ?thesis using m by simp
qed

section \<open>A generated path leads to the root\<close>

lemma pad_last: "hs \<noteq> [] \<Longrightarrow> pad hs = (if odd (length hs) then hs @ [last hs] else hs)"
  by (simp add: pad_def last_conv_nth odd_iff_mod_2_eq_one)

lemma level_pad: "hs \<noteq> [] \<Longrightarrow> level H (pad hs) = level H hs"
  by (simp add: pad_last level_dup_last)

lemma even_pad: "even (length (pad hs))"
  by (simp add: length_pad)

lemma pad_nth: "i < length hs \<Longrightarrow> pad hs ! i = hs ! i"
  by (simp add: pad_def nth_append)

lemma pair_inputs_nth:
  "even (length xs) \<Longrightarrow> j < length xs div 2 \<Longrightarrow> pair_inputs xs ! j = xs ! (2 * j) @ xs ! (2 * j + 1)"
proof (induction xs arbitrary: j rule: pair_inputs.induct)
  case (3 x y xs)
  then show ?case by (cases j) simp_all
qed simp_all

definition follow :: "string \<Rightarrow> Step \<Rightarrow> string" where
  "follow cur s = sha256Hex (if step_Left s then step_Hash s @ cur else cur @ step_Hash s)"

lemma verify_steps_follow:
  "verify_steps cur ss = (if \<forall>s \<in> set ss. step_Hash s \<noteq> '''' then Some (foldl follow cur ss) else None)"
  by (induction ss arbitrary: cur) (auto simp: follow_def hash_eq)

lemma xor_one: "(i :: nat) XOR 1 = (if even i then i + 1 else i - 1)"
  using xor_Suc_0_eq [of i] by (cases "even i") simp_all

lemma follow_sibling:
  assumes "1 < length hs" and "i < length hs"
  shows "follow (hs ! i) \<lparr>step_Hash = pad hs ! (i XOR 1), step_Left = i XOR 1 < i\<rparr> = level sha256Hex hs ! (i div 2)"
proof -
  let ?p = "pad hs"
  have ne: "hs \<noteq> []" using assms by auto
  have bound: "i div 2 < length ?p div 2" using assms(2) by (simp add: length_pad)
  have "level sha256Hex hs = map sha256Hex (pair_inputs ?p)"
    using level_pad [OF ne, of sha256Hex] by (simp only: level_def)
  then have "level sha256Hex hs ! (i div 2) = sha256Hex (?p ! (2 * (i div 2)) @ ?p ! (2 * (i div 2) + 1))"
    using bound pair_inputs_nth [OF even_pad bound] even_pad [of hs] by simp
  then show ?thesis
    using pad_nth [OF assms(2)] unfolding xor_one by (cases "even i") (auto simp: follow_def elim!: evenE oddE)
qed

lemma pad_digests: "\<forall>h \<in> set hs. length h = k \<Longrightarrow> j < length (pad hs) \<Longrightarrow> length (pad hs ! j) = k"
  by (auto simp: pad_def nth_append less_Suc_eq split: if_splits)

lemma sibling_in_range: "i < length hs \<Longrightarrow> i XOR 1 < length (pad hs)"
  unfolding xor_one length_pad by (cases "even i") (simp_all, presburger+)

lemma proof_loop_correct:
  assumes "i < length hs" and "\<forall>h \<in> set hs. length h = 64"
  shows "\<exists>new r. proof_loop i hs steps = (steps @ new, [r]) \<and> [r] = reduce sha256Hex hs \<and>
    foldl follow (hs ! i) new = r \<and> (\<forall>s \<in> set new. length (step_Hash s) = 64)"
  using assms
proof (induction i hs steps rule: proof_loop.induct)
  case (1 i hs steps)
  show ?case
  proof (cases "1 < length hs")
    case False
    with "1.prems" obtain h where "hs = [h]" by (cases hs) auto
    with "1.prems" show ?thesis by (simp add: proof_loop.simps reduce.simps)
  next
    case True
    then have ne: "hs \<noteq> []" by auto
    let ?s = "\<lparr>step_Hash = pad hs ! (i XOR 1), step_Left = i XOR 1 < i\<rparr>"
    let ?n = "level sha256Hex hs"
    have nxt: "map hash (pair_inputs (pad hs)) = ?n"
      using level_pad [OF ne, of sha256Hex] by (simp add: level_def hash_eq)
    have loop: "proof_loop i hs steps = proof_loop (i div 2) ?n (steps @ [?s])"
      using True nxt by (simp add: proof_loop.simps [of i hs steps] Let_def)
    have "i div 2 < length ?n" using "1.prems"(1) by simp
    with 1(1) [OF True refl refl refl refl] sha.level_digests [of hs] nxt
    obtain new r where IH: "proof_loop (i div 2) ?n (steps @ [?s]) = ((steps @ [?s]) @ new, [r])"
      "[r] = reduce sha256Hex ?n" "foldl follow (?n ! (i div 2)) new = r" "\<forall>s \<in> set new. length (step_Hash s) = 64"
      by fastforce
    have "length (step_Hash ?s) = 64"
      using pad_digests [OF "1.prems"(2)] sibling_in_range [OF "1.prems"(1)] by simp
    then show ?thesis
      using loop IH True follow_sibling [OF True "1.prems"(1)]
      by (intro exI [of _ "?s # new"] exI [of _ r]) (simp add: reduce.simps [of sha256Hex hs])
  qed
qed

lemma concat_Leaves_leaves:
  "concat (map Node_Leaves (map (\<lambda>k. Leaf (f k) k (g k)) ks)) = map (\<lambda>k. Leaf (f k) k (g k)) ks"
  by (induction ks) simp_all

section \<open>A path binds what it proves\<close>

definition step_input :: "string \<Rightarrow> Step \<Rightarrow> bytes" where
  "step_input cur s = (if step_Left s then step_Hash s @ cur else cur @ step_Hash s)"

lemma follow_eq: "follow cur s = sha256Hex (step_input cur s)"
  by (simp add: follow_def step_input_def)

fun path_inputs :: "string \<Rightarrow> Step list \<Rightarrow> bytes list" where
  "path_inputs cur [] = []"
| "path_inputs cur (s # ss) = step_input cur s # path_inputs (follow cur s) ss"

definition proof_inputs :: "MerkleProof \<Rightarrow> bytes list" where
  "proof_inputs p = (let leaf = mp_Key p @ ''='' @ mp_Value p in leaf # path_inputs (sha256Hex leaf) (mp_Steps p))"

lemma VerifyProof_iff:
  "VerifyProof p \<longleftrightarrow> mp_Key p \<noteq> '''' \<and> mp_Root p \<noteq> '''' \<and> mp_Version p \<noteq> 0 \<and>
     (\<forall>s \<in> set (mp_Steps p). step_Hash s \<noteq> '''') \<and>
     foldl follow (sha256Hex (mp_Key p @ ''='' @ mp_Value p)) (mp_Steps p) = mp_Root p"
  by (auto simp: VerifyProof_def verify_steps_follow hash_eq)

section \<open>An accepted proof leads into the tree\<close>

text \<open>A tree whose hashes are computed from below, and the texts hashed for it.\<close>

fun hashed :: "Node \<Rightarrow> bool" where
  "hashed (Leaf h k v) \<longleftrightarrow> h = sha256Hex (k @ ''='' @ v)"
| "hashed (Pair h l r) \<longleftrightarrow> h = sha256Hex (Node_Hash l @ Node_Hash r) \<and> hashed l \<and> hashed r"
| "hashed (Twin h l) \<longleftrightarrow> h = sha256Hex (Node_Hash l @ Node_Hash l) \<and> hashed l"

fun tree_inputs :: "Node \<Rightarrow> bytes list" where
  "tree_inputs (Leaf h k v) = [k @ ''='' @ v]"
| "tree_inputs (Pair h l r) = (Node_Hash l @ Node_Hash r) # tree_inputs l @ tree_inputs r"
| "tree_inputs (Twin h l) = (Node_Hash l @ Node_Hash l) # tree_inputs l"

definition map_inputs :: "string list \<Rightarrow> (string, string) fmap \<Rightarrow> bytes list" where
  "map_inputs ord items = (if items = fmempty then [''''] else tree_inputs (BuildTree ord items))"

lemma hashed_level: "\<forall>n \<in> set ns. hashed n \<Longrightarrow> \<forall>n \<in> set (tree_level ns). hashed n"
  by (induction ns rule: tree_level.induct) (simp_all add: hash_eq)

lemma hashed_up: "\<forall>n \<in> set ns. hashed n \<Longrightarrow> \<forall>n \<in> set (tree_up ns). hashed n"
proof (induction ns rule: tree_up.induct)
  case (1 ns)
  then show ?case using hashed_level [of ns] by (simp add: tree_up.simps [of ns])
qed

lemma hashed_BuildTree:
  assumes "iterates ord items" and "items \<noteq> fmempty"
  shows "hashed (BuildTree ord items)"
proof -
  let ?ns = "map (\<lambda>k. Leaf (hash (leaf_text items k)) k (mapget0 '''' items k)) (sort ord)"
  have "length ?ns \<noteq> 0" using assms iterates_length [OF assms(1)] by simp
  then have "?ns \<noteq> []" by (metis list.size(3))
  then obtain n where n: "tree_up ?ns = [n]" using tree_up_single by blast
  have "\<forall>n \<in> set ?ns. hashed n" by (simp add: leaf_text_def hash_eq)
  from hashed_up [OF this] n \<open>?ns \<noteq> []\<close> show ?thesis by (auto simp: BuildTree_def Let_def)
qed

text \<open>A digest as text: 64 characters, no equals sign.\<close>

definition digest_text :: "string \<Rightarrow> bool" where
  "digest_text s \<longleftrightarrow> length s = 64 \<and> CHR ''='' \<notin> set s"

lemma digest_text_sha [simp]: "digest_text (sha256Hex m)"
  using set_sha256Hex [of m] by (auto simp: digest_text_def)

lemma digest_text_hashed: "hashed n \<Longrightarrow> digest_text (Node_Hash n)"
  by (cases n) simp_all

lemma path_inputs_snoc: "path_inputs cur (ss @ [s]) = path_inputs cur ss @ [step_input (foldl follow cur ss) s]"
  by (induction ss arbitrary: cur) simp_all

lemma digest_text_follow: "digest_text cur \<Longrightarrow> digest_text (foldl follow cur ss)"
  by (induction ss arbitrary: cur) (simp_all add: follow_eq)

text \<open>The last step of a path that ends in an inner node has one of its children as the current digest.\<close>

lemma last_step:
  assumes "step_input cur s = x @ y" and "digest_text cur" and "digest_text (step_Hash s)" and "length x = 64"
  shows "cur = x \<or> cur = y"
  using assms by (auto simp: step_input_def digest_text_def split: if_splits)

lemma inner_node:
  assumes "Node_Hash n = sha256Hex (x @ y)" and "x @ y \<in> set (tree_inputs n)" and "digest_text x" and "digest_text y"
    and "foldl follow (sha256Hex leaf) ss = Node_Hash n" and "CHR ''='' \<in> set leaf" and "\<forall>s \<in> set ss. digest_text (step_Hash s)"
  obtains "collides sha256Hex (tree_inputs n) (leaf # path_inputs (sha256Hex leaf) ss)"
  | us where "\<forall>s \<in> set us. digest_text (step_Hash s)"
      and "set (path_inputs (sha256Hex leaf) us) \<subseteq> set (path_inputs (sha256Hex leaf) ss)"
      and "foldl follow (sha256Hex leaf) us = x \<or> foldl follow (sha256Hex leaf) us = y"
proof (cases ss rule: rev_cases)
  case Nil
  have "x @ y \<noteq> leaf" using assms(3,4,6) by (auto simp: digest_text_def)
  then have "collides sha256Hex (tree_inputs n) (leaf # path_inputs (sha256Hex leaf) ss)"
    using assms(1,2,5) Nil by (auto simp: collides_def)
  then show ?thesis by (rule that(1))
next
  case (snoc us s)
  let ?cur = "foldl follow (sha256Hex leaf) us"
  have eq: "sha256Hex (step_input ?cur s) = sha256Hex (x @ y)" using assms(1,5) snoc by (simp add: follow_eq)
  show ?thesis
  proof (cases "step_input ?cur s = x @ y")
    case True
    have "?cur = x \<or> ?cur = y"
      by (rule last_step [OF True]) (use assms(3,7) snoc in \<open>simp_all add: digest_text_follow, simp add: digest_text_def\<close>)
    then show ?thesis using assms(7) snoc by (intro that(2) [of us]) (auto simp: path_inputs_snoc)
  next
    case False
    then have "\<exists>z \<in> set (leaf # path_inputs (sha256Hex leaf) ss). x @ y \<noteq> z \<and> sha256Hex (x @ y) = sha256Hex z"
      using eq snoc by (intro bexI [of _ "step_input ?cur s"]) (auto simp: path_inputs_snoc)
    with assms(2) have "collides sha256Hex (tree_inputs n) (leaf # path_inputs (sha256Hex leaf) ss)"
      unfolding collides_def by blast
    then show ?thesis by (rule that(1))
  qed
qed

lemma path_from_leaf:
  assumes "hashed n" and "foldl follow (sha256Hex leaf) ss = Node_Hash n" and "CHR ''='' \<in> set leaf"
    and "\<forall>s \<in> set ss. digest_text (step_Hash s)"
  shows "(\<exists>h k v. Leaf h k v \<in> set (Node_Leaves n) \<and> leaf = k @ ''='' @ v) \<or>
         collides sha256Hex (tree_inputs n) (leaf # path_inputs (sha256Hex leaf) ss)"
  using assms(1,2,4)
proof (induction n arbitrary: ss)
  case (Leaf h k v)
  show ?case
  proof (cases ss rule: rev_cases)
    case Nil
    with Leaf show ?thesis by (auto simp: collides_def)
  next
    case (snoc us s)
    let ?in = "step_input (foldl follow (sha256Hex leaf) us) s"
    have "digest_text (foldl follow (sha256Hex leaf) us)" by (simp add: digest_text_follow)
    then have "CHR ''='' \<notin> set ?in" using Leaf.prems(3) snoc by (simp add: step_input_def digest_text_def)
    then have "?in \<noteq> k @ ''='' @ v" by auto
    moreover have "sha256Hex ?in = sha256Hex (k @ ''='' @ v)" using Leaf.prems(1,2) snoc by (simp flip: follow_eq)
    ultimately show ?thesis using snoc by (auto simp: collides_def path_inputs_snoc)
  qed
next
  case (Pair h l r)
  have sub: "digest_text (Node_Hash l)" "digest_text (Node_Hash r)" "hashed l" "hashed r"
    using Pair.prems(1) by (simp_all add: digest_text_hashed)
  show ?case
  proof (rule inner_node [OF _ _ sub(1,2) Pair.prems(2) assms(3) Pair.prems(3)])
    fix us assume us: "\<forall>s \<in> set us. digest_text (step_Hash s)"
      "set (path_inputs (sha256Hex leaf) us) \<subseteq> set (path_inputs (sha256Hex leaf) ss)"
      "foldl follow (sha256Hex leaf) us = Node_Hash l \<or> foldl follow (sha256Hex leaf) us = Node_Hash r"
    have grow: "collides sha256Hex (tree_inputs (Pair h l r)) (leaf # path_inputs (sha256Hex leaf) ss)"
      if "collides sha256Hex (tree_inputs c) (leaf # path_inputs (sha256Hex leaf) us)" "c = l \<or> c = r" for c
      by (rule collides_mono [OF that(1)]) (use that(2) us(2) in auto)
    from us(3) show ?thesis
    proof
      assume "foldl follow (sha256Hex leaf) us = Node_Hash l"
      from Pair.IH(1) [OF sub(3) this us(1)] grow [of l] show ?thesis by (simp only: Node_Leaves.simps set_append) blast
    next
      assume "foldl follow (sha256Hex leaf) us = Node_Hash r"
      from Pair.IH(2) [OF sub(4) this us(1)] grow [of r] show ?thesis by (simp only: Node_Leaves.simps set_append) blast
    qed
  qed (use Pair.prems in auto)
next
  case (Twin h l)
  have sub: "digest_text (Node_Hash l)" "hashed l"
    using Twin.prems(1) by (simp_all add: digest_text_hashed)
  show ?case
  proof (rule inner_node [OF _ _ sub(1,1) Twin.prems(2) assms(3) Twin.prems(3)])
    fix us assume us: "\<forall>s \<in> set us. digest_text (step_Hash s)"
      "set (path_inputs (sha256Hex leaf) us) \<subseteq> set (path_inputs (sha256Hex leaf) ss)"
      "foldl follow (sha256Hex leaf) us = Node_Hash l \<or> foldl follow (sha256Hex leaf) us = Node_Hash l"
    have grow: "collides sha256Hex (tree_inputs (Twin h l)) (leaf # path_inputs (sha256Hex leaf) ss)"
      if "collides sha256Hex (tree_inputs l) (leaf # path_inputs (sha256Hex leaf) us)"
      by (rule collides_mono [OF that]) (use us(2) in auto)
    have "foldl follow (sha256Hex leaf) us = Node_Hash l" using us(3) by blast
    from Twin.IH [OF sub(2) this us(1)] grow show ?thesis by (simp only: Node_Leaves.simps) blast
  qed (use Twin.prems in auto)
qed

text \<open>The leaves of the tree are the entries of the map in key order, each exactly once, although an
  odd level repeats its last node: \<open>Leaves\<close> recognises the repetition by comparing pointers.\<close>

theorem Leaves_BuildTree:
  assumes "iterates ord items" and "items \<noteq> fmempty"
  shows "Node_Leaves (BuildTree ord items) =
    map (\<lambda>(k, v). Leaf (sha256Hex (k @ ''='' @ v)) k v) (sorted_entries items)"
proof -
  let ?ns = "map (\<lambda>k. Leaf (hash (leaf_text items k)) k (mapget0 '''' items k)) (sort ord)"
  have "length ?ns \<noteq> 0" using assms iterates_length [OF assms(1)] by simp
  then have "?ns \<noteq> []" by (metis list.size(3))
  then obtain n where n: "tree_up ?ns = [n]" using tree_up_single by blast
  then have "Node_Leaves n = concat (map Node_Leaves ?ns)"
    using concat_Leaves_up [of ?ns] by simp
  also have "\<dots> = ?ns" by (rule concat_Leaves_leaves)
  also have "\<dots> = map (\<lambda>(k, v). Leaf (sha256Hex (k @ ''='' @ v)) k v) (sorted_entries items)"
    using assms(1)
    by (auto simp: sorted_entries_def iterates_sort leaf_text_def mapget0_def hash_eq fmlookup_dom_iff)
  finally show ?thesis
    using \<open>?ns \<noteq> []\<close> n by (auto simp: BuildTree_def Let_def)
qed

theorem Leaves_BuildTree_witness:
  "Node_Leaves (BuildTree [''a''] (fmap_of_list [(''a'', ''1'')])) =
   map (\<lambda>(k, v). Leaf (sha256Hex (k @ ''='' @ v)) k v) (sorted_entries (fmap_of_list [(''a'', ''1'')]))"
proof (rule Leaves_BuildTree)
  show "iterates [''a''] (fmap_of_list [(''a'', ''1'')])"
    by (auto simp: iterates_def fset_of_list.rep_eq)
  have "mapget (fmap_of_list [(''a'', ''1'')]) ''a'' \<noteq> mapget fmempty ''a''" by simp
  then show "fmap_of_list [(''a'', ''1'')] \<noteq> fmempty" by metis
qed

lemma entry_text_key:
  "k @ ''='' @ v = k' @ ''='' @ v' \<Longrightarrow> CHR ''='' \<notin> set k \<Longrightarrow> CHR ''='' \<notin> set k' \<Longrightarrow> k = k' \<and> v = v'"
  using sep_inj [of k "CHR ''=''" v k' v'] by simp

lemma path_end:
  assumes "leaf \<noteq> ''''"
  shows "\<exists>z \<in> set (leaf # path_inputs (sha256Hex leaf) ss). z \<noteq> '''' \<and> sha256Hex z = foldl follow (sha256Hex leaf) ss"
proof (cases ss rule: rev_cases)
  case Nil
  with assms show ?thesis by simp
next
  case (snoc us s)
  let ?z = "step_input (foldl follow (sha256Hex leaf) us) s"
  have "digest_text (foldl follow (sha256Hex leaf) us)" by (simp add: digest_text_follow)
  then have "?z \<noteq> ''''" by (auto simp: step_input_def digest_text_def)
  moreover have "sha256Hex ?z = foldl follow (sha256Hex leaf) ss" by (simp add: snoc flip: follow_eq)
  moreover have "?z \<in> set (path_inputs (sha256Hex leaf) ss)" by (simp add: snoc path_inputs_snoc)
  ultimately show ?thesis by (intro bexI [of _ ?z]) simp_all
qed

lemma proof_entry_or_collision:
  assumes "iterates ord items" and "VerifyProof p" and "mp_Root p = Root ord items"
    and "\<forall>s \<in> set (mp_Steps p). digest_text (step_Hash s)"
  shows "(\<exists>k v. mapget items k = Some v \<and> k @ ''='' @ v = mp_Key p @ ''='' @ mp_Value p) \<or>
         collides sha256Hex (map_inputs ord items) (proof_inputs p)"
proof -
  let ?leaf = "mp_Key p @ ''='' @ mp_Value p"
  have path: "foldl follow (sha256Hex ?leaf) (mp_Steps p) = Node_Hash (BuildTree ord items)"
    using assms(2,3) by (simp add: VerifyProof_iff Root_def)
  show ?thesis
  proof (cases "items = fmempty")
    case True
    then have "ord = []" using iterates_length [OF assms(1)] by simp
    then have root: "foldl follow (sha256Hex ?leaf) (mp_Steps p) = sha256Hex ''''"
      using path by (simp add: BuildTree_def hash_eq)
    obtain z where "z \<in> set (?leaf # path_inputs (sha256Hex ?leaf) (mp_Steps p))" "z \<noteq> ''''"
      "sha256Hex z = foldl follow (sha256Hex ?leaf) (mp_Steps p)"
      using path_end [of ?leaf "mp_Steps p"] by blast
    then have "collides sha256Hex (map_inputs ord items) (proof_inputs p)"
      unfolding collides_def map_inputs_def proof_inputs_def Let_def root using True by auto
    then show ?thesis by (rule disjI2)
  next
    case False
    have "CHR ''='' \<in> set ?leaf" by simp
    have leaf: "mapget items k = Some v" if "Leaf h k v \<in> set (Node_Leaves (BuildTree ord items))" for h k v
      using that unfolding Leaves_BuildTree [OF assms(1) False] by (auto simp: set_sorted_entries)
    from path_from_leaf [OF hashed_BuildTree [OF assms(1) False] path \<open>CHR ''='' \<in> set ?leaf\<close> assms(4)] show ?thesis
      unfolding map_inputs_def proof_inputs_def Let_def if_not_P [OF False] using leaf by metis
  qed
qed

section \<open>Properties\<close>

text \<open>C11: Completeness of Merkle proofs: for every stored key, \<open>Proof\<close> returns a proof of the stored value whose
  root is the root of the tree \<open>BuildTree\<close> builds, for all iteration orders, and \<open>VerifyProof\<close> accepts it
  exactly when the key is not empty: it refuses the proof of an empty key, which a map can hold.\<close>

theorem Proof_complete:
  assumes "iterates ord items" and "iterates ord' items" and "mapget items key = Some v"
  shows "\<exists>p. Proof ord items key = Inr p \<and> (VerifyProof p \<longleftrightarrow> key \<noteq> '''') \<and> mp_Key p = key \<and> mp_Value p = v \<and>
    mp_Root p = Root ord' items"
proof -
  let ?keys = "sorted_list_of_fset (fmdom items)"
  let ?i = "SearchStrings ?keys key"
  have "key \<in> set ?keys" using assms(3) by (simp add: fmdomI)
  then have i: "?i < length ?keys" "?keys ! ?i = key"
    using SearchStrings_found [of ?keys key] by (simp_all add: sorted_list_of_fset.rep_eq)
  have "items \<noteq> fmempty" using assms(3) by auto
  then have root: "Root ord' items = hd (reduce sha256Hex (leaf_hashes items))"
    using assms(2) by (rule Root_eq [rotated])
  have leaf: "leaf_hashes items ! ?i = sha256Hex (key @ ''='' @ v)"
    using i assms(3) by (simp add: leaf_hashes_def leaf_text_def mapget0_def)
  have "?i < length (leaf_hashes items)" using i(1) by (simp add: leaf_hashes_def)
  from proof_loop_correct [OF this, of "[]"] obtain new r where
    loop: "proof_loop ?i (leaf_hashes items) [] = (new, [r])" "[r] = reduce sha256Hex (leaf_hashes items)"
      "foldl follow (leaf_hashes items ! ?i) new = r" "\<forall>s \<in> set new. length (step_Hash s) = 64"
    by (auto simp: leaf_hashes_def)
  let ?p = "\<lparr>mp_Key = key, mp_Value = v, mp_Root = r, mp_Steps = new, mp_Version = 1\<rparr>"
  have "map (\<lambda>k. hash (leaf_text items k)) (sort ord) = leaf_hashes items" "sort ord = ?keys"
    using assms(1) by (simp_all add: leaf_hashes_def hash_eq iterates_sort)
  then have "Proof ord items key = Inr ?p"
    using loop(1) assms(3) by (simp add: Proof_def Let_def mapget0_def)
  moreover have "length r = 64"
  proof -
    have "leaf_hashes items \<noteq> []" "\<forall>x \<in> set (leaf_hashes items). length x = 64"
      using i(1) by (auto simp: leaf_hashes_def)
    from sha.reduce_hd_length [OF this] show ?thesis unfolding loop(2) [symmetric] by simp
  qed
  then have "VerifyProof ?p \<longleftrightarrow> key \<noteq> ''''"
    using loop(3,4) leaf by (auto simp: VerifyProof_iff)
  moreover have "r = Root ord' items" using root loop(2) by (metis list.sel(1))
  ultimately show ?thesis by auto
qed

theorem Proof_complete_witness:
  "\<exists>p. Proof [''beta'', ''alpha''] (fmap_of_list [(''alpha'', ''1''), (''beta'', ''2'')]) ''alpha'' = Inr p \<and>
     VerifyProof p \<and> mp_Key p = ''alpha'' \<and> mp_Value p = ''1'' \<and>
     mp_Root p = Root [''alpha'', ''beta''] (fmap_of_list [(''alpha'', ''1''), (''beta'', ''2'')])"
proof -
  let ?m = "fmap_of_list [(''alpha'', ''1''), (''beta'', ''2'')]"
  have "iterates [''beta'', ''alpha''] ?m" "iterates [''alpha'', ''beta''] ?m" "mapget ?m ''alpha'' = Some ''1''"
    by (auto simp: iterates_def fset_of_list.rep_eq)
  from Proof_complete [OF this] show ?thesis by simp
qed

text \<open>C12: Soundness of Merkle proofs: when \<open>VerifyProof\<close> accepts a proof against the root of a map, and its steps
  carry texts of digests, then the text \<open>key=value\<close> of the proof is the text of an entry of the map, and
  the entry is that key with that value if no key contains an equals sign; or a text hashed for the tree
  and a different text hashed by the verifier are a SHA-256 collision.\<close>

theorem VerifyProof_sound:
  assumes "iterates ord items" and "VerifyProof p" and "mp_Root p = Root ord items"
    and "\<forall>s \<in> set (mp_Steps p). digest_text (step_Hash s)"
  shows "((\<exists>k v. mapget items k = Some v \<and> k @ ''='' @ v = mp_Key p @ ''='' @ mp_Value p) \<and>
          (CHR ''='' \<notin> set (mp_Key p) \<and> (\<forall>k v. mapget items k = Some v \<longrightarrow> CHR ''='' \<notin> set k) \<longrightarrow>
           mapget items (mp_Key p) = Some (mp_Value p))) \<or>
         collides sha256Hex (map_inputs ord items) (proof_inputs p)"
  using proof_entry_or_collision [OF assms] entry_text_key [of _ _ "mp_Key p" "mp_Value p"] by metis

theorem VerifyProof_sound_witness:
  "let m = fmap_of_list [(''alpha'', ''1''), (''beta'', ''2'')];
       p = \<lparr>mp_Key = ''alpha'', mp_Value = ''1'', mp_Root = Root [''alpha'', ''beta''] m,
            mp_Steps = [\<lparr>step_Hash = sha256Hex ''beta=2'', step_Left = False\<rparr>], mp_Version = 1\<rparr>
   in VerifyProof p \<and>
      (mapget m ''alpha'' = Some ''1'' \<or> collides sha256Hex (map_inputs [''alpha'', ''beta''] m) (proof_inputs p))"
proof -
  let ?m = "fmap_of_list [(''alpha'', ''1''), (''beta'', ''2'')]"
  let ?p = "\<lparr>mp_Key = ''alpha'', mp_Value = ''1'', mp_Root = Root [''alpha'', ''beta''] ?m,
             mp_Steps = [\<lparr>step_Hash = sha256Hex ''beta=2'', step_Left = False\<rparr>], mp_Version = 1\<rparr>"
  have root: "Root [''alpha'', ''beta''] ?m = sha256Hex (sha256Hex ''alpha=1'' @ sha256Hex ''beta=2'')"
    by (simp add: Root_def BuildTree_def tree_up.simps leaf_text_def mapget0_def hash_eq)
  have ord: "iterates [''alpha'', ''beta''] ?m" by (auto simp: iterates_def fset_of_list.rep_eq)
  have ok: "VerifyProof ?p" unfolding VerifyProof_iff MerkleProof.select_convs root by (simp add: follow_def)
  from VerifyProof_sound [OF ord ok] ok show ?thesis by (auto simp: Let_def split: if_splits)
qed

text \<open>Without the condition on the steps soundness fails, with no collision: a step may carry any text, so the
  verifier can be led through the text of a leaf.  A map with a value that ends in the digest of \<open>key=value\<close>
  "proves" that entry, which it need not hold.\<close>

theorem VerifyProof_forged:
  assumes "key \<noteq> ''''"
  shows "VerifyProof \<lparr>mp_Key = key, mp_Value = v, mp_Root = Root [k] (fmupd k (x @ sha256Hex (key @ ''='' @ v)) fmempty),
     mp_Steps = [\<lparr>step_Hash = k @ ''='' @ x, step_Left = True\<rparr>], mp_Version = 1\<rparr>"
  using assms by (simp add: VerifyProof_iff follow_def Root_def BuildTree_def tree_up.simps leaf_text_def mapget0_def hash_eq)

theorem VerifyProof_forged_witness:
  "VerifyProof \<lparr>mp_Key = ''evil'', mp_Value = ''1'', mp_Root = Root [''note''] (fmupd ''note'' (sha256Hex ''evil=1'') fmempty),
     mp_Steps = [\<lparr>step_Hash = ''note='', step_Left = True\<rparr>], mp_Version = 1\<rparr>"
  using VerifyProof_forged [of "''evil''" "''1''" "''note''" "''''"] by simp

text \<open>A Merkle proof does not separate key and value: a proof accepted for the value \<open>x=v\<close> under the key
  \<open>k\<close> is also accepted as a proof of \<open>v\<close> under the key \<open>k=x\<close>, which the map need not hold.\<close>

theorem VerifyProof_key_ambiguous:
  assumes "VerifyProof p" and "mp_Value p = x @ ''='' @ v"
  shows "VerifyProof (p\<lparr>mp_Key := mp_Key p @ ''='' @ x, mp_Value := v\<rparr>)"
  using assms by (simp add: VerifyProof_iff)

theorem VerifyProof_key_ambiguous_witness:
  "(let p = \<lparr>mp_Key = ''a'', mp_Value = ''b=c'', mp_Root = sha256Hex ''a=b=c'', mp_Steps = [], mp_Version = 1\<rparr> in
      VerifyProof p \<and> VerifyProof (p\<lparr>mp_Key := mp_Key p @ ''='' @ ''b'', mp_Value := ''c''\<rparr>))"
proof -
  let ?p = "\<lparr>mp_Key = ''a'', mp_Value = ''b=c'', mp_Root = sha256Hex ''a=b=c'', mp_Steps = [], mp_Version = 1\<rparr>"
  have v: "VerifyProof ?p" by (simp add: VerifyProof_iff)
  from VerifyProof_key_ambiguous [OF v, of "''b''" "''c''"] v show ?thesis by (simp add: Let_def)
qed

text \<open>The flat proof the HTTP interface serves proves nothing once the state has a second key: \<open>Verify\<close>
  accepts every item with a key, a root and a non-empty path, whatever value it claims.\<close>

theorem Verify_accepts_any_value:
  assumes "it_Key i \<noteq> ''''" and "it_Root i \<noteq> ''''" and "it_Path i \<noteq> []"
  shows "Verify (i\<lparr>it_Value := v\<rparr>)"
  using assms by (simp add: Verify_def Let_def)

theorem Verify_accepts_any_value_witness:
  "Verify (\<lparr>it_Key = ''k'', it_Value = ''true'', it_Root = ''r'', it_Path = [''p'']\<rparr>\<lparr>it_Value := ''false''\<rparr>)"
  by (rule Verify_accepts_any_value) simp_all

text \<open>The flat proof of the only entry of a state is rejected: \<open>Verify\<close> accepts what \<open>Build\<close> produces for
  a state with the single entry \<open>k = v\<close> exactly when the texts \<open>k=v\<close> and \<open>k=v;\<close> are a SHA-256 collision.\<close>

theorem Build_single_entry_rejected:
  assumes "k \<noteq> ''''"
  shows "Verify (Build [k] [k] \<lparr>st_data = fmupd k v fmempty, st_versions = vs\<rparr> k) \<longleftrightarrow>
    sha256Hex (k @ ''='' @ v) = sha256Hex (k @ ''='' @ v @ '';'')"
  using assms
  by (simp add: Verify_def Build_def State_Get_def State_Data_def State_Root_def root_def insertion_sort_sort
      mapget0_def Let_def flip: sha256Hex_def)

theorem Build_single_entry_rejected_witness:
  "Verify (Build [''demo''] [''demo''] \<lparr>st_data = fmupd ''demo'' ''ok'' fmempty, st_versions = fmempty\<rparr> ''demo'') \<longleftrightarrow>
   sha256Hex (''demo'' @ ''='' @ ''ok'') = sha256Hex (''demo'' @ ''='' @ ''ok'' @ '';'')"
  by (rule Build_single_entry_rejected) simp

end
