(* ===== verification/Audit_Chain.thy ===== *)
theory Audit_Chain
  imports Merkle
begin

text \<open>
  \<open>internal/audit\<close>: the hash-linked audit chain and the bus that hands its records to subscribers
  (\<open>chain.go\<close>), and the node's event log (\<open>audit.go\<close>).  A reading of the clock is an argument.
\<close>

section \<open>\<open>chain.go\<close>: the chain\<close>

record Record =
  rec_Sequence :: u64
  rec_At :: time
  rec_Actor :: string
  rec_Action :: string
  rec_Resource :: string
  rec_Payload :: string
  rec_PrevHash :: string
  rec_Hash :: string
  rec_Signature :: string

record Chain =
  ch_records :: "Record list"
  ch_secret :: string

definition NewChain :: "string \<Rightarrow> Chain" where
  "NewChain secret = \<lparr>ch_records = [], ch_secret = secret\<rparr>"

text \<open>The text both \<open>Append\<close> and \<open>Verify\<close> hash: \<open>"%d|%s|%s|%s|%s|%s|%s"\<close>.\<close>

definition record_text :: "u64 \<Rightarrow> string \<Rightarrow> string \<Rightarrow> string \<Rightarrow> string \<Rightarrow> string \<Rightarrow> string \<Rightarrow> bytes" where
  "record_text seq actor action resource payload prev secret =
     fmt_d (uint seq) @ ''|'' @ actor @ ''|'' @ action @ ''|'' @ resource @ ''|'' @ payload @ ''|'' @ prev @ ''|'' @ secret"

definition Chain_Append :: "time \<Rightarrow> Chain \<Rightarrow> string \<Rightarrow> string \<Rightarrow> string \<Rightarrow> string \<Rightarrow> Record \<times> Chain" where
  "Chain_Append now c actor action resource payload =
     (let (prev, seq) = (if length (ch_records c) > 0
                         then (rec_Hash (last (ch_records c)), rec_Sequence (last (ch_records c)) + 1)
                         else ('''', 1));
          h = Sum256 (record_text seq actor action resource payload prev (ch_secret c));
          r = \<lparr>rec_Sequence = seq, rec_At = now, rec_Actor = actor, rec_Action = action, rec_Resource = resource,
               rec_Payload = payload, rec_PrevHash = prev, rec_Hash = EncodeToString h, rec_Signature = EncodeToString h\<rparr>
      in (r, c\<lparr>ch_records := ch_records c @ [r]\<rparr>))"

datatype audit_error = SequenceGap | AuditLinkMismatch | AuditDigestMismatch

fun audit_loop :: "string \<Rightarrow> nat \<Rightarrow> string \<Rightarrow> Record list \<Rightarrow> audit_error option" where
  "audit_loop secret i prev [] = None"
| "audit_loop secret i prev (r # rs) =
     (if rec_Sequence r \<noteq> of_nat (i + 1) then Some SequenceGap
      else if rec_PrevHash r \<noteq> prev then Some AuditLinkMismatch
      else let expected = EncodeToString (Sum256 (record_text (rec_Sequence r) (rec_Actor r) (rec_Action r)
                            (rec_Resource r) (rec_Payload r) (rec_PrevHash r) secret))
           in if rec_Hash r \<noteq> expected \<or> rec_Signature r \<noteq> expected then Some AuditDigestMismatch
              else audit_loop secret (i + 1) (rec_Hash r) rs)"

definition Chain_Verify :: "Chain \<Rightarrow> audit_error option" where
  "Chain_Verify c = audit_loop (ch_secret c) 0 '''' (ch_records c)"

definition Chain_List :: "Chain \<Rightarrow> Record list" where
  "Chain_List c = [] @ ch_records c"

definition Chain_Since :: "Chain \<Rightarrow> u64 \<Rightarrow> Record list" where
  "Chain_Since c seq = foldl (\<lambda>acc r. if rec_Sequence r > seq then acc @ [r] else acc) [] (ch_records c)"

definition Record_Digest :: "Record \<Rightarrow> string" where
  "Record_Digest r = EncodeToString (Sum256 (rec_Hash r @ rec_Signature r))"

definition Record_Valid :: "Record \<Rightarrow> bool" where
  "Record_Valid r \<longleftrightarrow> rec_Sequence r > 0 \<and> \<not> time_IsZero (rec_At r) \<and> rec_Hash r \<noteq> '''' \<and> rec_Signature r \<noteq> ''''"

definition Record_String :: "Record \<Rightarrow> string" where
  "Record_String r = fmt_d (uint (rec_Sequence r)) @ '' '' @ rec_Actor r @ '' '' @ rec_Action r @ '' '' @ rec_Resource r"

section \<open>\<open>chain.go\<close>: the bus\<close>

text \<open>
  Channels are shared between the bus and its subscribers, so they live in a store: a subscriber holds
  the address of its channel.  A send on a closed channel panics: the result \<^const>\<open>None\<close>.
\<close>

record Chan =
  chan_buf :: "Record list"
  chan_closed :: bool

record Subscriber =
  sub_ID :: string
  sub_Ch :: nat
  sub_Closed :: bool

record Bus =
  bus_subs :: "(string, Subscriber) fmap"
  bus_chans :: "(nat, Chan) fmap"
  bus_next :: nat

definition NewBus :: Bus where
  "NewBus = \<lparr>bus_subs = fmempty, bus_chans = fmempty, bus_next = 0\<rparr>"

definition Bus_Subscribe :: "Bus \<Rightarrow> string \<Rightarrow> nat \<times> Bus" where
  "Bus_Subscribe b i =
     (let ch = bus_next b
      in (ch, b\<lparr>bus_subs := fmupd i \<lparr>sub_ID = i, sub_Ch = ch, sub_Closed = False\<rparr> (bus_subs b),
                bus_chans := fmupd ch \<lparr>chan_buf = [], chan_closed = False\<rparr> (bus_chans b),
                bus_next := Suc ch\<rparr>))"

fun publish_loop :: "Record \<Rightarrow> string list \<Rightarrow> Bus \<Rightarrow> Bus option" where
  "publish_loop r [] b = Some b"
| "publish_loop r (i # ids) b =
     (case mapget (bus_subs b) i of
        None \<Rightarrow> publish_loop r ids b
      | Some s \<Rightarrow>
          (case mapget (bus_chans b) (sub_Ch s) of
             None \<Rightarrow> None
           | Some c \<Rightarrow>
               if chan_closed c then None
               else if length (chan_buf c) < 64
               then publish_loop r ids (b\<lparr>bus_chans := fmupd (sub_Ch s) (c\<lparr>chan_buf := chan_buf c @ [r]\<rparr>) (bus_chans b)\<rparr>)
               else publish_loop r ids (b\<lparr>bus_subs := fmdrop i (bus_subs b)\<rparr>)))"

definition Bus_Publish :: "string list \<Rightarrow> Bus \<Rightarrow> Record \<Rightarrow> Bus option" where
  "Bus_Publish ord b r = publish_loop r ord b"

text \<open>Closing a closed channel panics too.\<close>

definition Bus_Unsubscribe :: "Bus \<Rightarrow> string \<Rightarrow> Bus option" where
  "Bus_Unsubscribe b i =
     (case mapget (bus_subs b) i of
        None \<Rightarrow> Some b
      | Some s \<Rightarrow>
          (case mapget (bus_chans b) (sub_Ch s) of
             None \<Rightarrow> None
           | Some c \<Rightarrow>
               if chan_closed c then None
               else Some (b\<lparr>bus_subs := fmdrop i (bus_subs b),
                            bus_chans := fmupd (sub_Ch s) (c\<lparr>chan_closed := True\<rparr>) (bus_chans b)\<rparr>)))"

section \<open>\<open>audit.go\<close>\<close>

record Event =
  ev_At :: time
  ev_Action :: string
  ev_Detail :: string
  ev_Hash :: string

record Log =
  log_prev :: string
  log_events :: "Event list"

definition Log_New :: Log where
  "Log_New = \<lparr>log_prev = '''', log_events = []\<rparr>"

text \<open>\<open>Append\<close> reads the clock twice, once in nanoseconds for the hash (an \<open>int64\<close>) and once for the event;
  \<open>fmt.Sprint\<close> puts no space beside a string.\<close>

definition Log_Append :: "i64 \<Rightarrow> time \<Rightarrow> Log \<Rightarrow> string \<Rightarrow> string \<Rightarrow> Event \<times> Log" where
  "Log_Append nano now l a d =
     (let h = Sum256 (log_prev l @ a @ d @ fmt_d (sint nano));
          e = \<lparr>ev_At = now, ev_Action = a, ev_Detail = d, ev_Hash = EncodeToString h\<rparr>
      in (e, l\<lparr>log_prev := ev_Hash e, log_events := log_events l @ [e]\<rparr>))"

definition Log_Events :: "Log \<Rightarrow> Event list" where
  "Log_Events l = [] @ log_events l"

section \<open>Appended chains verify\<close>

definition record_bytes :: "string \<Rightarrow> Record \<Rightarrow> bytes" where
  "record_bytes secret r = record_text (rec_Sequence r) (rec_Actor r) (rec_Action r) (rec_Resource r) (rec_Payload r) (rec_PrevHash r) secret"

lemma audit_loop_Cons:
  "audit_loop secret i prev (r # rs) = None \<longleftrightarrow>
     rec_Sequence r = of_nat (Suc i) \<and> rec_PrevHash r = prev \<and> rec_Hash r = sha256Hex (record_bytes secret r) \<and>
     rec_Signature r = rec_Hash r \<and> audit_loop secret (Suc i) (rec_Hash r) rs = None"
  by (auto simp: Let_def record_bytes_def sha256Hex_def)

lemmas [simp del] = audit_loop.simps(2)

definition last_hash :: "string \<Rightarrow> Record list \<Rightarrow> string" where
  "last_hash prev rs = (if rs = [] then prev else rec_Hash (last rs))"

lemma audit_loop_snoc:
  "audit_loop secret i prev (rs @ [r]) = None \<longleftrightarrow>
     audit_loop secret i prev rs = None \<and>
     rec_Sequence r = of_nat (Suc (i + length rs)) \<and> rec_PrevHash r = last_hash prev rs \<and>
     rec_Hash r = sha256Hex (record_bytes secret r) \<and> rec_Signature r = rec_Hash r"
  by (induction rs arbitrary: i prev) (auto simp: audit_loop_Cons last_hash_def)

lemma audit_loop_sequence:
  "audit_loop secret i prev rs = None \<Longrightarrow> j < length rs \<Longrightarrow> rec_Sequence (rs ! j) = of_nat (Suc (i + j))"
proof (induction rs arbitrary: i prev j)
  case (Cons r rs)
  then show ?case by (cases j) (auto simp: audit_loop_Cons)
qed simp

lemma Append_keeps_verified:
  assumes "Chain_Verify c = None"
  shows "Chain_Verify (snd (Chain_Append now c actor action resource payload)) = None"
proof (cases "ch_records c = []")
  case True
  then show ?thesis
    by (simp add: Chain_Verify_def Chain_Append_def Let_def audit_loop_Cons record_bytes_def sha256Hex_def)
next
  case False
  have "rec_Sequence (last (ch_records c)) = of_nat (length (ch_records c))"
    using audit_loop_sequence [OF assms [unfolded Chain_Verify_def], of "length (ch_records c) - 1"] False
    by (simp add: last_conv_nth)
  with False assms show ?thesis
    by (simp add: Chain_Verify_def Chain_Append_def Let_def audit_loop_snoc last_hash_def record_bytes_def sha256Hex_def)
qed

inductive chain_step :: "Chain \<Rightarrow> Chain \<Rightarrow> bool" where
  "chain_step c (snd (Chain_Append now c actor action resource payload))"

interpretation audit: invariant_system "\<lambda>c. \<exists>secret. c = NewChain secret" chain_step "\<lambda>c. Chain_Verify c = None"
  by unfold_locales (auto simp: Chain_Verify_def NewChain_def chain_step.simps intro: Append_keeps_verified [unfolded Chain_Verify_def])

text \<open>C20: every chain that \<open>Append\<close> calls build from a new one verifies, its records are numbered from 1
  without a gap, and \<open>Since(n)\<close> returns the records after the first \<open>n\<close>.\<close>

theorem appended_chain_verifies:
  assumes "chain_step\<^sup>*\<^sup>* (NewChain secret) c" and "length (ch_records c) < 2 ^ 64"
  shows "Chain_Verify c = None \<and>
         map (\<lambda>r. unat (rec_Sequence r)) (ch_records c) = [1..<Suc (length (ch_records c))] \<and>
         Chain_Since c n = drop (unat n) (ch_records c)"
proof -
  have ok: "Chain_Verify c = None" by (rule audit.reachable_inv [OF _ assms(1)]) blast
  let ?rs = "ch_records c"
  have seq: "unat (rec_Sequence (?rs ! j)) = Suc j" if "j < length ?rs" for j
  proof -
    have "rec_Sequence (?rs ! j) = of_nat (Suc j)"
      using audit_loop_sequence [OF ok [unfolded Chain_Verify_def] that] by simp
    then show ?thesis using that assms(2) by (simp only: unat_of_nat) simp
  qed
  have "map (\<lambda>r. unat (rec_Sequence r)) ?rs = [1..<Suc (length ?rs)]"
    by (rule nth_equalityI) (simp_all add: seq del: upt_Suc)
  moreover have since: "Chain_Since c n = filter (\<lambda>r. rec_Sequence r > n) ?rs"
  proof -
    have "foldl (\<lambda>acc r. if rec_Sequence r > n then acc @ [r] else acc) acc rs = acc @ filter (\<lambda>r. rec_Sequence r > n) rs" for acc rs
      by (induction rs arbitrary: acc) auto
    from this [of "[]" ?rs] show ?thesis by (simp only: Chain_Since_def append_Nil)
  qed
  have "filter (\<lambda>r. rec_Sequence r > n) (take (unat n) ?rs) = []"
    by (auto simp: filter_empty_conv in_set_conv_nth word_less_nat_alt seq)
  moreover have "filter (\<lambda>r. rec_Sequence r > n) (drop (unat n) ?rs) = drop (unat n) ?rs"
    by (auto simp: filter_id_conv in_set_conv_nth word_less_nat_alt seq)
  ultimately show ?thesis
    using ok filter_append [of "\<lambda>r. rec_Sequence r > n" "take (unat n) ?rs" "drop (unat n) ?rs"] by (simp add: since)
qed

definition example_chain :: Chain where
  "example_chain = snd (Chain_Append 1 (snd (Chain_Append 0 (NewChain ''secret'') ''node'' ''commit'' ''block'' ''p'')) ''node'' ''commit'' ''block'' ''q'')"

lemma example_chain_reachable: "chain_step\<^sup>*\<^sup>* (NewChain ''secret'') example_chain"
  unfolding example_chain_def by (rule rtranclp_trans; rule r_into_rtranclp; rule chain_step.intros)

lemma example_chain_length: "length (ch_records example_chain) = 2"
  by (simp add: example_chain_def Chain_Append_def NewChain_def Let_def)

theorem appended_chain_verifies_witness:
  "Chain_Verify example_chain = None \<and> length (Chain_Since example_chain 1) = 1"
  using appended_chain_verifies [OF example_chain_reachable, of 1] by (simp add: example_chain_length)

section \<open>Tamper evidence\<close>

definition fields :: "Record \<Rightarrow> u64 \<times> string \<times> string \<times> string \<times> string \<times> string \<times> string" where
  "fields r = (rec_Sequence r, rec_Actor r, rec_Action r, rec_Resource r, rec_Payload r, rec_PrevHash r, rec_Hash r)"

definition record_pipe_free :: "Record \<Rightarrow> bool" where
  "record_pipe_free r \<longleftrightarrow> CHR ''|'' \<notin> set (rec_Actor r) \<union> set (rec_Action r) \<union> set (rec_Resource r) \<union> set (rec_Payload r)"

lemma record_bytes_inj:
  assumes "record_bytes secret r = record_bytes secret r'" and "record_pipe_free r" and "record_pipe_free r'"
  shows "rec_Sequence r = rec_Sequence r' \<and> rec_Actor r = rec_Actor r' \<and> rec_Action r = rec_Action r' \<and>
         rec_Resource r = rec_Resource r' \<and> rec_Payload r = rec_Payload r' \<and> rec_PrevHash r = rec_PrevHash r'"
proof -
  note p = assms(2,3) [unfolded record_pipe_free_def]
  from assms(1) have e1: "fmt_d (uint (rec_Sequence r)) @ CHR ''|'' # rec_Actor r @ CHR ''|'' # rec_Action r @ CHR ''|'' # rec_Resource r @
      CHR ''|'' # rec_Payload r @ CHR ''|'' # rec_PrevHash r @ CHR ''|'' # secret =
    fmt_d (uint (rec_Sequence r')) @ CHR ''|'' # rec_Actor r' @ CHR ''|'' # rec_Action r' @ CHR ''|'' # rec_Resource r' @
      CHR ''|'' # rec_Payload r' @ CHR ''|'' # rec_PrevHash r' @ CHR ''|'' # secret"
    by (simp add: record_bytes_def record_text_def)
  note s1 = sep_inj [OF e1]
  from s1 have e2: "rec_Sequence r = rec_Sequence r'" by (simp add: word_uint_eq_iff)
  note s2 = sep_inj [OF conjunct2 [OF s1]]
  then show ?thesis
    using e2 p s2 sep_inj [OF conjunct2 [OF s2]] sep_inj [OF conjunct2 [OF sep_inj [OF conjunct2 [OF s2]]]]
      sep_inj [OF conjunct2 [OF sep_inj [OF conjunct2 [OF sep_inj [OF conjunct2 [OF s2]]]]]]
    by simp
qed

lemma verified_head_binds:
  assumes "audit_loop secret i '''' rs = None" and "audit_loop secret j '''' rs' = None"
    and "last_hash '''' rs = last_hash '''' rs'"
    and "\<forall>r \<in> set rs \<union> set rs'. record_pipe_free r"
  shows "map fields rs = map fields rs' \<or> collides sha256Hex (map (record_bytes secret) rs) (map (record_bytes secret) rs')"
  using assms
proof (induction rs arbitrary: rs' rule: rev_induct)
  case Nil
  then show ?case
    by (cases rs' rule: rev_cases) (auto simp: last_hash_def audit_loop_snoc)
next
  case (snoc r rs)
  show ?case
  proof (cases rs' rule: rev_cases)
    case Nil
    with snoc.prems show ?thesis by (auto simp: last_hash_def audit_loop_snoc)
  next
    case (snoc ss s)
    note prems = snoc.prems [unfolded snoc]
    show ?thesis
    proof (cases "record_bytes secret r = record_bytes secret s")
      case True
      from record_bytes_inj [OF this] prems(4)
      have eq: "fields r = fields s" "last_hash '''' rs = last_hash '''' ss"
        using prems(1-3) by (auto simp: audit_loop_snoc fields_def last_hash_def)
      have "map fields rs = map fields ss \<or> collides sha256Hex (map (record_bytes secret) rs) (map (record_bytes secret) ss)"
        using prems eq(2) by (intro snoc.IH) (auto simp: audit_loop_snoc)
      with eq(1) show ?thesis by (auto simp: snoc intro: collides_mono)
    next
      case False
      then show ?thesis
        using prems(1-3) by (auto simp: snoc collides_def audit_loop_snoc last_hash_def)
    qed
  qed
qed

text \<open>The hashed text does not escape the separator: records that split the same text differently have the same
  hash, which is why the next property asks for texts without it.\<close>

lemma record_text_ambiguous:
  "record_text seq (a @ ''|'' @ b) c resource payload prev secret = record_text seq a (b @ ''|'' @ c) resource payload prev secret"
  by (simp add: record_text_def)

text \<open>C19: tamper evidence: two verifying chains under the same secret that end in the same hash, and none of whose
  actors, actions, resources and payloads holds the separator \<open>|\<close>, have the same records up to their
  timestamps, or the hashed texts show a collision of SHA-256.\<close>

theorem audit_head_binds_chain:
  assumes "Chain_Verify c = None" and "Chain_Verify c' = None" and "ch_secret c = ch_secret c'"
    and "ch_records c \<noteq> []" and "ch_records c' \<noteq> []"
    and "rec_Hash (last (ch_records c)) = rec_Hash (last (ch_records c'))"
    and "\<forall>r \<in> set (ch_records c) \<union> set (ch_records c'). record_pipe_free r"
  shows "map fields (ch_records c) = map fields (ch_records c') \<or>
         collides sha256Hex (map (record_bytes (ch_secret c)) (ch_records c)) (map (record_bytes (ch_secret c)) (ch_records c'))"
  using assms by (intro verified_head_binds) (auto simp: Chain_Verify_def last_hash_def)

theorem audit_head_binds_chain_witness:
  "map fields (ch_records example_chain) = map fields (ch_records example_chain) \<or>
   collides sha256Hex (map (record_bytes ''secret'') (ch_records example_chain)) (map (record_bytes ''secret'') (ch_records example_chain))"
proof -
  have "Chain_Verify example_chain = None" by (rule audit.reachable_inv [OF _ example_chain_reachable]) blast
  moreover have "ch_secret example_chain = ''secret''" "ch_records example_chain \<noteq> []"
    "\<forall>r \<in> set (ch_records example_chain) \<union> set (ch_records example_chain). record_pipe_free r"
    by (auto simp: example_chain_def Chain_Append_def NewChain_def Let_def record_pipe_free_def)
  ultimately show ?thesis using audit_head_binds_chain [of example_chain example_chain] by metis
qed

text \<open>The timestamp is not hashed: \<open>Verify\<close> accepts the records with other times.\<close>

lemma Verify_ignores_times:
  "Chain_Verify (c\<lparr>ch_records := map (\<lambda>r. r\<lparr>rec_At := f r\<rparr>) (ch_records c)\<rparr>) = Chain_Verify c"
proof -
  have "audit_loop secret i prev (map (\<lambda>r. r\<lparr>rec_At := f r\<rparr>) rs) = audit_loop secret i prev rs" for secret i prev rs
    by (induction rs arbitrary: i prev) (auto simp: audit_loop.simps(2) Let_def)
  then show ?thesis by (simp add: Chain_Verify_def)
qed

section \<open>The bus\<close>

definition bus_inv :: "Bus \<Rightarrow> bool" where
  "bus_inv b \<longleftrightarrow>
     (\<forall>i s. mapget (bus_subs b) i = Some s \<longrightarrow>
        (\<exists>c. mapget (bus_chans b) (sub_Ch s) = Some c \<and> \<not> chan_closed c \<and> length (chan_buf c) \<le> 64)) \<and>
     (\<forall>i j s t. mapget (bus_subs b) i = Some s \<and> mapget (bus_subs b) j = Some t \<and> sub_Ch s = sub_Ch t \<longrightarrow> i = j) \<and>
     (\<forall>ch c. mapget (bus_chans b) ch = Some c \<longrightarrow> ch < bus_next b)"

lemma bus_inv_New [inv_intros]: "bus_inv NewBus"
  by (simp add: bus_inv_def NewBus_def)

lemma bus_inv_Subscribe [inv_intros]: "bus_inv b \<Longrightarrow> bus_inv (snd (Bus_Subscribe b i))"
  unfolding bus_inv_def Bus_Subscribe_def Let_def
  by (auto simp: less_Suc_eq) (metis less_irrefl)+

lemma bus_inv_chan:
  assumes "bus_inv b" and "mapget (bus_subs b) i = Some s"
  obtains c where "mapget (bus_chans b) (sub_Ch s) = Some c" "\<not> chan_closed c" "length (chan_buf c) \<le> 64"
  using assms unfolding bus_inv_def by blast

lemma bus_inv_own:
  "bus_inv b \<Longrightarrow> mapget (bus_subs b) i = Some s \<Longrightarrow> mapget (bus_subs b) j = Some t \<Longrightarrow> sub_Ch s = sub_Ch t \<Longrightarrow> i = j"
  unfolding bus_inv_def by blast

lemma bus_inv_drop: "bus_inv b \<Longrightarrow> bus_inv (b\<lparr>bus_subs := fmdrop i (bus_subs b)\<rparr>)"
  unfolding bus_inv_def by (auto split: if_splits)

lemma bus_inv_set_chan:
  assumes "bus_inv b" and "mapget (bus_chans b) ch = Some c"
    and "\<And>i s. mapget (bus_subs b) i = Some s \<Longrightarrow> sub_Ch s = ch \<Longrightarrow> \<not> chan_closed c' \<and> length (chan_buf c') \<le> 64"
  shows "bus_inv (b\<lparr>bus_chans := fmupd ch c' (bus_chans b)\<rparr>)"
  using assms unfolding bus_inv_def by auto

lemma bus_inv_Unsubscribe [inv_intros]:
  assumes "bus_inv b"
  shows "\<exists>b'. Bus_Unsubscribe b i = Some b' \<and> bus_inv b'"
proof (cases "mapget (bus_subs b) i")
  case (Some s)
  with assms obtain c where c: "mapget (bus_chans b) (sub_Ch s) = Some c" "\<not> chan_closed c"
    by (rule bus_inv_chan)
  have "sub_Ch t \<noteq> sub_Ch s" if "mapget (fmdrop i (bus_subs b)) j = Some t" for j t
    using bus_inv_own [OF assms, of j t i s] that Some by (auto split: if_splits)
  then have "bus_inv (b\<lparr>bus_subs := fmdrop i (bus_subs b), bus_chans := fmupd (sub_Ch s) (c\<lparr>chan_closed := True\<rparr>) (bus_chans b)\<rparr>)"
    using bus_inv_set_chan [OF bus_inv_drop [OF assms, of i], of "sub_Ch s" c "c\<lparr>chan_closed := True\<rparr>"] c
    by (fastforce split: if_splits)
  with Some c show ?thesis by (simp add: Bus_Unsubscribe_def)
qed (simp add: Bus_Unsubscribe_def assms)

definition buffer :: "Bus \<Rightarrow> Subscriber \<Rightarrow> Record list" where
  "buffer b s = (case mapget (bus_chans b) (sub_Ch s) of None \<Rightarrow> [] | Some c \<Rightarrow> chan_buf c)"

text \<open>One turn of the loop of \<open>Publish\<close>: subscriber \<open>i\<close> receives the record or is dropped.\<close>

definition delivered :: "Record \<Rightarrow> string set \<Rightarrow> Bus \<Rightarrow> Bus \<Rightarrow> bool" where
  "delivered r ids b b' \<longleftrightarrow>
     (\<forall>i s. mapget (bus_subs b) i = Some s \<longrightarrow>
        (if i \<in> ids \<and> length (buffer b s) \<ge> 64 then mapget (bus_subs b') i = None
         else mapget (bus_subs b') i = Some s \<and> buffer b' s = (if i \<in> ids then buffer b s @ [r] else buffer b s))) \<and>
     (\<forall>i. mapget (bus_subs b) i = None \<longrightarrow> mapget (bus_subs b') i = None)"

lemma delivered_send:
  assumes "delivered r ids b1 b'" and "i \<notin> ids" and "mapget (bus_subs b) i = Some s" and "length (buffer b s) < 64"
    and "bus_subs b1 = bus_subs b"
    and "\<And>j t. mapget (bus_subs b) j = Some t \<Longrightarrow> buffer b1 t = (if j = i then buffer b t @ [r] else buffer b t)"
  shows "delivered r (insert i ids) b b'"
  unfolding delivered_def
proof (intro conjI allI impI)
  fix j t assume t: "mapget (bus_subs b) j = Some t"
  note b1 = assms(1) [unfolded delivered_def assms(5), THEN conjunct1, rule_format, OF t]
  show "if j \<in> insert i ids \<and> length (buffer b t) \<ge> 64 then mapget (bus_subs b') j = None
        else mapget (bus_subs b') j = Some t \<and> buffer b' t = (if j \<in> insert i ids then buffer b t @ [r] else buffer b t)"
  proof (cases "j = i")
    case True
    with t assms(3) have "t = s" by simp
    with b1 True assms(2,4) assms(6) [OF t] show ?thesis by simp
  next
    case False
    with b1 assms(6) [OF t] show ?thesis by simp
  qed
next
  fix j assume "mapget (bus_subs b) j = None"
  then show "mapget (bus_subs b') j = None" using assms(1,5) by (simp add: delivered_def)
qed

lemma delivered_drop:
  assumes "delivered r ids (b\<lparr>bus_subs := fmdrop i (bus_subs b)\<rparr>) b'" and "i \<notin> ids"
    and "mapget (bus_subs b) i = Some s" and "length (buffer b s) \<ge> 64"
  shows "delivered r (insert i ids) b b'"
  unfolding delivered_def
proof (intro conjI allI impI)
  have buf: "buffer (b\<lparr>bus_subs := fmdrop i (bus_subs b)\<rparr>) t = buffer b t" for t by (simp add: buffer_def)
  have gone: "mapget (bus_subs b') i = None" using assms(1) by (simp add: delivered_def)
  fix j t assume t: "mapget (bus_subs b) j = Some t"
  show "if j \<in> insert i ids \<and> length (buffer b t) \<ge> 64 then mapget (bus_subs b') j = None
        else mapget (bus_subs b') j = Some t \<and> buffer b' t = (if j \<in> insert i ids then buffer b t @ [r] else buffer b t)"
  proof (cases "j = i")
    case True
    with t assms(3,4) gone show ?thesis by simp
  next
    case False
    with t have "mapget (bus_subs (b\<lparr>bus_subs := fmdrop i (bus_subs b)\<rparr>)) j = Some t" by simp
    from assms(1) [unfolded delivered_def, THEN conjunct1, rule_format, OF this] False show ?thesis by (simp add: buf)
  qed
next
  fix j assume "mapget (bus_subs b) j = None"
  then show "mapget (bus_subs b') j = None" using assms(1) by (simp add: delivered_def)
qed

lemma delivered_skip:
  assumes "delivered r ids b b'" and "mapget (bus_subs b) i = None"
  shows "delivered r (insert i ids) b b'"
  unfolding delivered_def
proof (intro conjI allI impI)
  fix j t assume t: "mapget (bus_subs b) j = Some t"
  with assms(2) have "j \<noteq> i" by auto
  with assms(1) [unfolded delivered_def, THEN conjunct1, rule_format, OF t]
  show "if j \<in> insert i ids \<and> length (buffer b t) \<ge> 64 then mapget (bus_subs b') j = None
        else mapget (bus_subs b') j = Some t \<and> buffer b' t = (if j \<in> insert i ids then buffer b t @ [r] else buffer b t)"
    by simp
next
  fix j assume "mapget (bus_subs b) j = None"
  then show "mapget (bus_subs b') j = None" using assms(1) by (simp add: delivered_def)
qed

lemma publish_loop_delivers:
  "bus_inv b \<Longrightarrow> distinct ids \<Longrightarrow> \<exists>b'. publish_loop r ids b = Some b' \<and> bus_inv b' \<and> delivered r (set ids) b b'"
proof (induction ids arbitrary: b)
  case Nil
  then show ?case by (simp add: delivered_def)
next
  case (Cons i ids)
  then have "distinct ids" and i: "i \<notin> set ids" by simp_all
  note IH = Cons.IH [OF _ \<open>distinct ids\<close>]
  show ?case
  proof (cases "mapget (bus_subs b) i")
    case None
    from IH [OF Cons.prems(1)] obtain b' where
      b': "publish_loop r ids b = Some b'" "bus_inv b'" "delivered r (set ids) b b'" by blast
    have "publish_loop r (i # ids) b = Some b'" using b'(1) None by simp
    with delivered_skip [OF b'(3) None] b'(2) show ?thesis by (metis list.simps(15))
  next
    case (Some s)
    with Cons.prems(1) obtain c where
      c: "mapget (bus_chans b) (sub_Ch s) = Some c" "\<not> chan_closed c" "length (chan_buf c) \<le> 64"
      by (rule bus_inv_chan)
    have own: "sub_Ch t = sub_Ch s \<longleftrightarrow> j = i" if "mapget (bus_subs b) j = Some t" for j t
    proof
      assume "sub_Ch t = sub_Ch s"
      then show "j = i" by (rule bus_inv_own [OF Cons.prems(1) that Some])
    qed (use that Some in simp)
    show ?thesis
    proof (cases "length (chan_buf c) < 64")
      case True
      let ?b = "b\<lparr>bus_chans := fmupd (sub_Ch s) (c\<lparr>chan_buf := chan_buf c @ [r]\<rparr>) (bus_chans b)\<rparr>"
      have buf: "buffer ?b t = (if j = i then buffer b t @ [r] else buffer b t)" if "mapget (bus_subs b) j = Some t" for j t
        using own [OF that] c(1) by (cases "j = i") (simp_all add: buffer_def)
      have "bus_inv ?b" by (rule bus_inv_set_chan [OF Cons.prems(1) c(1)]) (use True c(2) in simp)
      from IH [OF this] obtain b' where b': "publish_loop r ids ?b = Some b'" "bus_inv b'" "delivered r (set ids) ?b b'" by blast
      have "length (buffer b s) < 64" using True c(1) by (simp add: buffer_def)
      then have "delivered r (set (i # ids)) b b'"
        using delivered_send [OF b'(3) i Some _ _ buf] by simp
      moreover have "publish_loop r (i # ids) b = Some b'" using b'(1) Some c(1,2) True by simp
      ultimately show ?thesis using b'(2) by blast
    next
      case False
      let ?b = "b\<lparr>bus_subs := fmdrop i (bus_subs b)\<rparr>"
      from IH [OF bus_inv_drop [OF Cons.prems(1)]] obtain b' where
        b': "publish_loop r ids ?b = Some b'" "bus_inv b'" "delivered r (set ids) ?b b'" by blast
      have "length (buffer b s) \<ge> 64" using False c(1) by (simp add: buffer_def)
      then have "delivered r (set (i # ids)) b b'"
        using delivered_drop [OF b'(3) i Some] by simp
      moreover have "publish_loop r (i # ids) b = Some b'" using b'(1) Some c(1,2) False by simp
      ultimately show ?thesis using b'(2) by blast
    qed
  qed
qed

text \<open>A subscriber reads its channel.\<close>

definition receive :: "Bus \<Rightarrow> nat \<Rightarrow> (Record \<times> Bus) option" where
  "receive b ch =
     (case mapget (bus_chans b) ch of
        Some c \<Rightarrow> (case chan_buf c of [] \<Rightarrow> None | r # rs \<Rightarrow> Some (r, b\<lparr>bus_chans := fmupd ch (c\<lparr>chan_buf := rs\<rparr>) (bus_chans b)\<rparr>))
      | None \<Rightarrow> None)"

lemma bus_inv_receive [inv_intros]:
  assumes "bus_inv b" and "receive b ch = Some (r, b')"
  shows "bus_inv b'"
proof -
  from assms(2) obtain c rs where c: "mapget (bus_chans b) ch = Some c" "chan_buf c = r # rs"
    and b': "b' = b\<lparr>bus_chans := fmupd ch (c\<lparr>chan_buf := rs\<rparr>) (bus_chans b)\<rparr>"
    by (auto simp: receive_def split: option.splits list.splits)
  show ?thesis unfolding b'
  proof (rule bus_inv_set_chan [OF assms(1) c(1)])
    fix i s assume "mapget (bus_subs b) i = Some s" and "sub_Ch s = ch"
    with assms(1) c show "\<not> chan_closed (c\<lparr>chan_buf := rs\<rparr>) \<and> length (chan_buf (c\<lparr>chan_buf := rs\<rparr>)) \<le> 64"
      by (elim bus_inv_chan) auto
  qed
qed

inductive bus_step :: "Bus \<Rightarrow> Bus \<Rightarrow> bool" where
  bus_subscribe: "Bus_Subscribe b i = (ch, b') \<Longrightarrow> bus_step b b'"
| bus_unsubscribe: "Bus_Unsubscribe b i = Some b' \<Longrightarrow> bus_step b b'"
| bus_publish: "iterates ord (bus_subs b) \<Longrightarrow> Bus_Publish ord b r = Some b' \<Longrightarrow> bus_step b b'"
| bus_receive: "receive b ch = Some (r, b') \<Longrightarrow> bus_step b b'"

inductive_cases bus_stepE: "bus_step b b'"

lemma bus_inv_Publish:
  assumes "bus_inv b" and "iterates ord (bus_subs b)"
  shows "\<exists>b'. Bus_Publish ord b r = Some b' \<and> bus_inv b' \<and> delivered r (set ord) b b'"
  unfolding Bus_Publish_def by (rule publish_loop_delivers [OF assms(1) iterates_distinct [OF assms(2)]])

interpretation bus: invariant_system "\<lambda>b. b = NewBus" bus_step bus_inv
proof
  fix b b' assume "bus_inv b" and "bus_step b b'"
  then show "bus_inv b'"
    using bus_inv_Subscribe [of b] bus_inv_Unsubscribe [of b] bus_inv_Publish [of b] bus_inv_receive [of b]
    by (elim bus_stepE) (metis snd_conv, metis option.inject, metis option.inject, metis)
qed (simp add: inv_intros)

text \<open>C30: in every state the bus can reach, \<open>Publish\<close> and \<open>Unsubscribe\<close> do not panic on a closed channel;
  \<open>Publish\<close> appends the record to the channel of every subscriber with room and drops exactly the
  subscribers whose 64 buffered records are unread.\<close>

theorem Publish_delivers:
  assumes "bus_step\<^sup>*\<^sup>* NewBus b" and "iterates ord (bus_subs b)"
  shows "\<exists>b'. Bus_Publish ord b r = Some b' \<and> Bus_Unsubscribe b j \<noteq> None \<and>
           (\<forall>i s. mapget (bus_subs b) i = Some s \<longrightarrow>
              (if length (buffer b s) < 64 then mapget (bus_subs b') i = Some s \<and> buffer b' s = buffer b s @ [r]
               else mapget (bus_subs b') i = None))"
proof -
  have inv: "bus_inv b" by (rule bus.reachable_inv [OF refl assms(1)])
  from bus_inv_Publish [OF this assms(2)] obtain b' where
    b': "Bus_Publish ord b r = Some b'" "delivered r (set ord) b b'" by blast
  have "if length (buffer b s) < 64 then mapget (bus_subs b') i = Some s \<and> buffer b' s = buffer b s @ [r]
        else mapget (bus_subs b') i = None" if "mapget (bus_subs b) i = Some s" for i s
    using b'(2) [unfolded delivered_def, THEN conjunct1, rule_format, OF that] iterates_lookup [OF assms(2), of i] that
    by (simp add: not_le split: if_splits)
  moreover have "Bus_Unsubscribe b j \<noteq> None" using bus_inv_Unsubscribe [OF inv, of j] by auto
  ultimately show ?thesis using b'(1) by blast
qed

definition example_record :: Record where
  "example_record = fst (Chain_Append 0 (NewChain ''secret'') ''node'' ''commit'' ''block'' ''p'')"

theorem Publish_delivers_witness:
  "\<exists>b'. Bus_Publish [''x''] (snd (Bus_Subscribe NewBus ''x'')) example_record = Some b' \<and>
     buffer b' \<lparr>sub_ID = ''x'', sub_Ch = 0, sub_Closed = False\<rparr> = [example_record]"
proof -
  let ?b = "snd (Bus_Subscribe NewBus ''x'')"
  have "bus_step\<^sup>*\<^sup>* NewBus ?b" by (rule r_into_rtranclp, rule bus_subscribe, rule surjective_pairing)
  moreover have "iterates [''x''] (bus_subs ?b)"
    by (auto simp: iterates_def Bus_Subscribe_def NewBus_def Let_def fset_of_list.rep_eq)
  ultimately obtain b' where b': "Bus_Publish [''x''] ?b example_record = Some b'"
    "\<forall>i s. mapget (bus_subs ?b) i = Some s \<longrightarrow>
       (if length (buffer ?b s) < 64 then mapget (bus_subs b') i = Some s \<and> buffer b' s = buffer ?b s @ [example_record] else mapget (bus_subs b') i = None)"
    using Publish_delivers [of ?b "[''x'']" example_record] by blast
  have "mapget (bus_subs ?b) ''x'' = Some \<lparr>sub_ID = ''x'', sub_Ch = 0, sub_Closed = False\<rparr>"
    and "buffer ?b \<lparr>sub_ID = ''x'', sub_Ch = 0, sub_Closed = False\<rparr> = []"
    by (simp_all add: Bus_Subscribe_def NewBus_def Let_def buffer_def)
  with b' show ?thesis by (metis append_Nil length_0_conv zero_less_numeral)
qed

section \<open>The event log\<close>

fun log_linked :: "string \<Rightarrow> i64 list \<Rightarrow> Event list \<Rightarrow> bool" where
  "log_linked prev [] [] = True"
| "log_linked prev (n # ns) (e # es) \<longleftrightarrow>
     ev_Hash e = sha256Hex (prev @ ev_Action e @ ev_Detail e @ fmt_d (sint n)) \<and> log_linked (ev_Hash e) ns es"
| "log_linked prev ns es = False"

lemma log_linked_snoc:
  "log_linked prev ns es \<Longrightarrow>
   ev_Hash e = sha256Hex ((if es = [] then prev else ev_Hash (last es)) @ ev_Action e @ ev_Detail e @ fmt_d (sint n)) \<Longrightarrow>
   log_linked prev (ns @ [n]) (es @ [e])"
  by (induction prev ns es rule: log_linked.induct) auto

text \<open>Each event is hashed with the hash before it and some reading of the clock, which the log does not keep.\<close>

definition log_inv :: "Log \<Rightarrow> bool" where
  "log_inv l \<longleftrightarrow> (\<exists>ns. log_linked '''' ns (log_events l)) \<and>
     log_prev l = (if log_events l = [] then '''' else ev_Hash (last (log_events l)))"

lemma log_inv_New [inv_intros]: "log_inv Log_New"
  by (auto simp: log_inv_def Log_New_def intro: exI [of _ "[]"])

lemma log_inv_Append [inv_intros]:
  assumes "log_inv l"
  shows "log_inv (snd (Log_Append nano now l a d))"
proof -
  from assms obtain ns where "log_linked '''' ns (log_events l)"
    and "log_prev l = (if log_events l = [] then '''' else ev_Hash (last (log_events l)))"
    by (auto simp: log_inv_def)
  then have "log_linked '''' (ns @ [nano]) (log_events l @ [fst (Log_Append nano now l a d)])"
    by (intro log_linked_snoc) (simp_all add: Log_Append_def Let_def sha256Hex_def)
  then have "log_linked '''' (ns @ [nano]) (log_events (snd (Log_Append nano now l a d)))"
    by (simp add: Log_Append_def Let_def)
  then show ?thesis by (auto simp: log_inv_def Log_Append_def Let_def)
qed

end
