(* ===== verification/Consensus.thy ===== *)
theory Consensus
  imports Chain_Domain
begin

text \<open>
  \<open>internal/consensus\<close>: the voting engine (\<open>bft.go\<close>), its round control and the message network of the
  simulator (\<open>simulator.go\<close>), and evidence, rounds and the validator schedule (\<open>evidence.go\<close>).
\<close>

section \<open>\<open>bft.go\<close>\<close>

datatype Phase = Proposal | Prevote | Precommit | Commit | ViewChange

fun phase_string :: "Phase \<Rightarrow> string" where
  "phase_string Proposal = ''proposal''"
| "phase_string Prevote = ''prevote''"
| "phase_string Precommit = ''precommit''"
| "phase_string Commit = ''commit''"
| "phase_string ViewChange = ''view_change''"

record Engine =
  en_height :: Height
  en_view :: View
  en_phase :: Phase
  en_validators :: "Validator list"
  en_votes :: "(string, Vote) fmap"

definition Engine_New :: "Validator list \<Rightarrow> Engine" where
  "Engine_New v = \<lparr>en_height = 0, en_view = 0, en_phase = Proposal, en_validators = v, en_votes = fmempty\<rparr>"

definition Engine_Step :: "Engine \<Rightarrow> Engine" where
  "Engine_Step e =
     (case en_phase e of
        Proposal \<Rightarrow> e\<lparr>en_phase := Prevote\<rparr>
      | Prevote \<Rightarrow> e\<lparr>en_phase := Precommit\<rparr>
      | Precommit \<Rightarrow> e\<lparr>en_phase := Commit\<rparr>
      | Commit \<Rightarrow> e\<lparr>en_height := en_height e + 1, en_view := 0, en_phase := Proposal\<rparr>
      | _ \<Rightarrow> e\<lparr>en_phase := Proposal\<rparr>)"

definition Engine_Vote :: "Engine \<Rightarrow> Vote \<Rightarrow> bool \<times> Engine" where
  "Engine_Vote e v =
     (if vote_Height v \<noteq> en_height e \<or> vote_View v \<noteq> en_view e then (False, e)
      else if mapget (en_votes e) (vote_Validator v) \<noteq> None then (False, e)
      else (True, e\<lparr>en_votes := fmupd (vote_Validator v) v (en_votes e)\<rparr>))"

definition Engine_Status :: "Engine \<Rightarrow> Height \<times> View \<times> Phase \<times> nat" where
  "Engine_Status e = (en_height e, en_view e, en_phase e, maplen (en_votes e))"

section \<open>\<open>simulator.go\<close>\<close>

record Message =
  msg_From :: string
  msg_To :: string
  msg_Height :: Height
  msg_View :: View
  msg_Phase :: Phase
  msg_BlockHash :: string
  msg_SentAt :: time

record Network =
  nw_queues :: "(string, Message list) fmap"
  nw_dropped :: "(string, int) fmap"
  nw_latency :: duration

definition NewNetwork :: Network where
  "NewNetwork = \<lparr>nw_queues = fmempty, nw_dropped = fmempty, nw_latency = 1000000\<rparr>"

datatype send_error = RouteRequired

definition Network_Send :: "Network \<Rightarrow> Message \<Rightarrow> send_error option \<times> Network" where
  "Network_Send n m =
     (if msg_To m = '''' \<or> msg_From m = '''' then (Some RouteRequired, n)
      else (None, n\<lparr>nw_queues := fmupd (msg_To m) (mapget0 [] (nw_queues n) (msg_To m) @ [m]) (nw_queues n)\<rparr>))"

definition Network_Recv :: "Network \<Rightarrow> string \<Rightarrow> Message list \<times> Network" where
  "Network_Recv n i = (mapget0 [] (nw_queues n) i, n\<lparr>nw_queues := fmdrop i (nw_queues n)\<rparr>)"

definition Network_DropPeer :: "Network \<Rightarrow> string \<Rightarrow> Network" where
  "Network_DropPeer n i = n\<lparr>nw_dropped := fmupd i (mapget0 0 (nw_dropped n) i + 1) (nw_dropped n)\<rparr>"

definition Network_Dropped :: "Network \<Rightarrow> string \<Rightarrow> int" where
  "Network_Dropped n i = mapget0 0 (nw_dropped n) i"

definition Engine_SetHeight :: "Engine \<Rightarrow> Height \<Rightarrow> Engine" where
  "Engine_SetHeight e h = e\<lparr>en_height := h, en_votes := fmempty\<rparr>"

definition Engine_SetView :: "Engine \<Rightarrow> View \<Rightarrow> Engine" where
  "Engine_SetView e v = e\<lparr>en_view := v, en_phase := Proposal, en_votes := fmempty\<rparr>"

definition Engine_Quorum :: "Engine \<Rightarrow> u64" where
  "Engine_Quorum e = Quorum (en_validators e)"

definition Engine_Finalized :: "Engine \<Rightarrow> bool" where
  "Engine_Finalized e \<longleftrightarrow> en_phase e = Commit \<and> of_nat (maplen (en_votes e)) \<ge> Quorum (en_validators e)"

text \<open>
  \<open>vs[int(view) % len(vs)].Address\<close>: the conversion gives a negative number from \<open>2^63\<close> on, Go's
  remainder has the sign of the dividend, and a negative index panics, the result \<^const>\<open>None\<close>.
\<close>

definition go_rem :: "int \<Rightarrow> int \<Rightarrow> int" where
  "go_rem a b = (if a < 0 then - ((- a) mod b) else a mod b)"

definition proposer_at :: "Validator list \<Rightarrow> View \<Rightarrow> string option" where
  "proposer_at vs v =
     (let i = go_rem (sint v) (int (length vs))
      in if i < 0 then None else Some (val_Address (vs ! nat i)))"

definition Engine_Proposer :: "Engine \<Rightarrow> string option" where
  "Engine_Proposer e =
     (if length (en_validators e) = 0 then Some '''' else proposer_at (en_validators e) (en_view e))"

datatype vote_error = VoteIdentityMissing | PhaseMismatch string | SignatureMissing

definition ValidateVote :: "Vote \<Rightarrow> Phase \<Rightarrow> vote_error option" where
  "ValidateVote v phase =
     (if vote_Validator v = '''' \<or> vote_Height v = 0 then Some VoteIdentityMissing
      else if vote_Type v \<noteq> phase_string phase then Some (PhaseMismatch (vote_Type v))
      else if vote_Signature v = '''' then Some SignatureMissing
      else None)"

text \<open>\<open>SimulateRound\<close> reads the clock for each message: \<open>now a p\<close> is the reading for address \<open>a\<close> and phase \<open>p\<close>.\<close>

definition round_messages :: "(string \<Rightarrow> Phase \<Rightarrow> time) \<Rightarrow> Engine \<Rightarrow> Block \<Rightarrow> Message list" where
  "round_messages now e b =
     concat (map (\<lambda>v. map (\<lambda>p. \<lparr>msg_From = val_Address v, msg_To = val_Address v, msg_Height = hdr_Height (blk_Header b),
                               msg_View = hdr_View (blk_Header b), msg_Phase = p, msg_BlockHash = blk_Hash b,
                               msg_SentAt = now (val_Address v) p\<rparr>) [Proposal, Prevote, Precommit]) (en_validators e))"

definition SimulateRound :: "(string \<Rightarrow> Phase \<Rightarrow> time) \<Rightarrow> Engine \<Rightarrow> Network \<Rightarrow> Block \<Rightarrow> Message list \<times> Network" where
  "SimulateRound now e net b =
     foldl (\<lambda>(out, net) m. (out @ [m], snd (Network_Send net m))) ([], net) (round_messages now e b)"

section \<open>\<open>evidence.go\<close>\<close>

datatype EvidenceKind = DoubleProposal | DoublePrevote | InvalidCommit | OldVote

record Evidence =
  evd_ID :: string
  evd_Kind :: EvidenceKind
  evd_Validator :: string
  evd_Height :: Height
  evd_View :: View
  evd_First :: Vote
  evd_Second :: Vote
  evd_Reason :: string
  evd_CreatedAt :: time
  evd_Resolved :: bool

record EvidencePool =
  ep_items :: "(string, Evidence) fmap"
  ep_max :: int

definition NewEvidencePool :: "int \<Rightarrow> EvidencePool" where
  "NewEvidencePool mx = \<lparr>ep_items = fmempty, ep_max = mx\<rparr>"

datatype evidence_error = EvidenceIdentityRequired | EvidenceDuplicate | EvidenceFull | EvidenceMissing

definition EvidencePool_Add :: "time \<Rightarrow> EvidencePool \<Rightarrow> Evidence \<Rightarrow> evidence_error + EvidencePool" where
  "EvidencePool_Add now p e =
     (if evd_ID e = '''' \<or> evd_Validator e = '''' then Inl EvidenceIdentityRequired
      else if mapget (ep_items p) (evd_ID e) \<noteq> None then Inl EvidenceDuplicate
      else if int (maplen (ep_items p)) \<ge> ep_max p then Inl EvidenceFull
      else let e' = (if time_IsZero (evd_CreatedAt e) then e\<lparr>evd_CreatedAt := now\<rparr> else e)
           in Inr (p\<lparr>ep_items := fmupd (evd_ID e') e' (ep_items p)\<rparr>))"

definition EvidencePool_Get :: "EvidencePool \<Rightarrow> string \<Rightarrow> Evidence option" where
  "EvidencePool_Get p i = mapget (ep_items p) i"

definition created_before :: "Evidence \<Rightarrow> Evidence \<Rightarrow> bool" where
  "created_before a b \<longleftrightarrow> evd_CreatedAt a < evd_CreatedAt b"

definition EvidencePool_List :: "string list \<Rightarrow> EvidencePool \<Rightarrow> Evidence list" where
  "EvidencePool_List ord p = sort_slice created_before (map (\<lambda>i. the (mapget (ep_items p) i)) ord)"

definition EvidencePool_Resolve :: "EvidencePool \<Rightarrow> string \<Rightarrow> evidence_error + EvidencePool" where
  "EvidencePool_Resolve p i =
     (case mapget (ep_items p) i of
        None \<Rightarrow> Inl EvidenceMissing
      | Some e \<Rightarrow> Inr (p\<lparr>ep_items := fmupd i (e\<lparr>evd_Resolved := True\<rparr>) (ep_items p)\<rparr>))"

definition EvidencePool_Unresolved :: "string list \<Rightarrow> EvidencePool \<Rightarrow> Evidence list" where
  "EvidencePool_Unresolved ord p =
     foldl (\<lambda>out e. if \<not> evd_Resolved e then out @ [e] else out) [] (EvidencePool_List ord p)"

definition EvidencePool_Count :: "EvidencePool \<Rightarrow> nat" where
  "EvidencePool_Count p = maplen (ep_items p)"

record RoundState =
  rd_Height :: Height
  rd_View :: View
  rd_Phase :: Phase
  rd_Proposer :: string
  rd_Proposals :: "(string, Block) fmap"
  rd_Votes :: "(string, Vote) fmap"
  rd_StartedAt :: time
  rd_Deadline :: time

definition NewRound :: "time \<Rightarrow> time \<Rightarrow> Height \<Rightarrow> View \<Rightarrow> string \<Rightarrow> RoundState" where
  "NewRound now now' h v p =
     \<lparr>rd_Height = h, rd_View = v, rd_Phase = Proposal, rd_Proposer = p, rd_Proposals = fmempty, rd_Votes = fmempty,
      rd_StartedAt = now, rd_Deadline = now' + 5000000000\<rparr>"

datatype round_error = ProposalPhaseClosed | ProposalRoundMismatch | ProposalDuplicate | VoteRoundMismatch | VoteDuplicate

definition RoundState_AddProposal :: "RoundState \<Rightarrow> Block \<Rightarrow> round_error + RoundState" where
  "RoundState_AddProposal r b =
     (if rd_Phase r \<noteq> Proposal then Inl ProposalPhaseClosed
      else if hdr_Height (blk_Header b) \<noteq> rd_Height r \<or> hdr_View (blk_Header b) \<noteq> rd_View r then Inl ProposalRoundMismatch
      else if mapget (rd_Proposals r) (blk_Hash b) \<noteq> None then Inl ProposalDuplicate
      else Inr (r\<lparr>rd_Proposals := fmupd (blk_Hash b) b (rd_Proposals r)\<rparr>))"

definition RoundState_AddVote :: "RoundState \<Rightarrow> Vote \<Rightarrow> round_error + RoundState" where
  "RoundState_AddVote r v =
     (if vote_Height v \<noteq> rd_Height r \<or> vote_View v \<noteq> rd_View r then Inl VoteRoundMismatch
      else if mapget (rd_Votes r) (vote_Validator v) \<noteq> None then Inl VoteDuplicate
      else Inr (r\<lparr>rd_Votes := fmupd (vote_Validator v) v (rd_Votes r)\<rparr>))"

definition RoundState_Advance :: "RoundState \<Rightarrow> Phase \<times> RoundState" where
  "RoundState_Advance r =
     (let r' = (case rd_Phase r of
                  Proposal \<Rightarrow> r\<lparr>rd_Phase := Prevote\<rparr>
                | Prevote \<Rightarrow> r\<lparr>rd_Phase := Precommit\<rparr>
                | Precommit \<Rightarrow> r\<lparr>rd_Phase := Commit\<rparr>
                | Commit \<Rightarrow> r\<lparr>rd_View := rd_View r + 1, rd_Phase := Proposal\<rparr>
                | _ \<Rightarrow> r\<lparr>rd_Phase := Proposal\<rparr>)
      in (rd_Phase r', r'))"

definition RoundState_TimedOut :: "RoundState \<Rightarrow> time \<Rightarrow> bool" where
  "RoundState_TimedOut r now \<longleftrightarrow> now > rd_Deadline r"

definition RoundState_VoteCount :: "RoundState \<Rightarrow> nat" where
  "RoundState_VoteCount r = maplen (rd_Votes r)"

definition RoundState_ProposalCount :: "RoundState \<Rightarrow> nat" where
  "RoundState_ProposalCount r = maplen (rd_Proposals r)"

definition RoundState_Committed :: "RoundState \<Rightarrow> bool" where
  "RoundState_Committed r \<longleftrightarrow> rd_Phase r = Commit"

definition RoundState_Valid :: "RoundState \<Rightarrow> bool" where
  "RoundState_Valid r \<longleftrightarrow> rd_Height r > 0 \<and> rd_Proposer r \<noteq> '''' \<and> \<not> time_IsZero (rd_StartedAt r)"

record Schedule =
  sc_validators :: "Validator list"
  sc_epoch :: Height
  sc_history :: "(Height, Validator list) fmap"

definition NewSchedule :: "Validator list \<Rightarrow> Height \<Rightarrow> Schedule" where
  "NewSchedule v epoch = \<lparr>sc_validators = [] @ v, sc_epoch = epoch, sc_history = fmempty\<rparr>"

definition at_step :: "(Height, Validator list) fmap \<Rightarrow> Height \<Rightarrow> Height \<times> Validator list \<Rightarrow> Height \<Rightarrow> Height \<times> Validator list" where
  "at_step history h acc x =
     (case acc of (best, out) \<Rightarrow> if x \<le> h \<and> x \<ge> best then (x, the (mapget history x)) else (best, out))"

definition Schedule_At :: "Height list \<Rightarrow> Schedule \<Rightarrow> Height \<Rightarrow> Validator list" where
  "Schedule_At ord s h = [] @ snd (foldl (at_step (sc_history s) h) (0, sc_validators s) ord)"

datatype schedule_error = InvalidRotation

definition Schedule_Rotate :: "Schedule \<Rightarrow> Height \<Rightarrow> Validator list \<Rightarrow> schedule_error + Schedule" where
  "Schedule_Rotate s h v =
     (if h = 0 \<or> length v = 0 then Inl InvalidRotation
      else Inr (s\<lparr>sc_history := fmupd h ([] @ v) (sc_history s)\<rparr>))"

definition Schedule_Epoch :: "Schedule \<Rightarrow> Height \<Rightarrow> u64" where
  "Schedule_Epoch s h = (if sc_epoch s = 0 then 0 else h div sc_epoch s)"

definition Schedule_Proposer :: "Height list \<Rightarrow> Schedule \<Rightarrow> Height \<Rightarrow> View \<Rightarrow> string option" where
  "Schedule_Proposer ord s h v =
     (let vs = Schedule_At ord s h in if length vs = 0 then Some '''' else proposer_at vs v)"

definition Schedule_History :: "Schedule \<Rightarrow> (Height, Validator list) fmap" where
  "Schedule_History s = fmmap (\<lambda>v. [] @ v) (sc_history s)"

definition Schedule_Validator :: "Height list \<Rightarrow> Schedule \<Rightarrow> Height \<Rightarrow> string \<Rightarrow> bool" where
  "Schedule_Validator ord s h i = list_ex (\<lambda>v. val_Address v = i) (Schedule_At ord s h)"

definition Schedule_Power :: "Height list \<Rightarrow> Schedule \<Rightarrow> Height \<Rightarrow> u64" where
  "Schedule_Power ord s h = foldl (\<lambda>p v. p + val_Power v) 0 (Schedule_At ord s h)"

definition Schedule_Quorum :: "Height list \<Rightarrow> Schedule \<Rightarrow> Height \<Rightarrow> u64" where
  "Schedule_Quorum ord s h = (Schedule_Power ord s h * 2) div 3 + 1"

section \<open>Rotation of the proposer\<close>

lemma sint_small: "unat (v :: u64) < 2 ^ 63 \<Longrightarrow> sint v = int (unat v)"
proof -
  assume v: "unat v < 2 ^ 63"
  have u: "int (unat v) = uint v" by simp
  have "int (unat v) < int (2 ^ 63)" using v by (simp only: of_nat_less_iff)
  then have "uint v < 2 ^ 63" by (simp only: u) simp
  then have "signed_take_bit 63 (uint v) = uint v"
    using uint_ge_0 [of v] by (intro signed_take_bit_int_eq_self) linarith+
  then show ?thesis by (simp add: sint_uint)
qed

lemma proposer_at_small:
  assumes "vs \<noteq> []" and "unat v < 2 ^ 63"
  shows "proposer_at vs v = Some (val_Address (vs ! (unat v mod length vs)))"
proof -
  have "go_rem (int (unat v)) (int (length vs)) = int (unat v mod length vs)"
    by (simp only: go_rem_def zmod_int) simp
  then have "go_rem (sint v) (int (length vs)) = int (unat v mod length vs)"
    by (simp only: sint_small [OF assms(2)])
  then show ?thesis by (simp only: proposer_at_def Let_def nat_int) simp
qed

text \<open>C36: while views stay below \<open>2^63\<close>, as many consecutive views as there are validators give each
  validator one turn as proposer, in the order of the validator list.\<close>

theorem Proposer_rotates:
  assumes "en_validators e \<noteq> []" and "unat v + length (en_validators e) \<le> 2 ^ 63"
  shows "map (\<lambda>i. Engine_Proposer (Engine_SetView e (v + of_nat i))) [0..<length (en_validators e)] =
         rotate (unat v) (map (\<lambda>x. Some (val_Address x)) (en_validators e))"
proof (rule nth_equalityI)
  let ?vs = "en_validators e" and ?n = "length (en_validators e)"
  fix i assume "i < length (map (\<lambda>i. Engine_Proposer (Engine_SetView e (v + of_nat i))) [0..<?n])"
  then have i: "i < ?n" by simp
  then have u: "unat (v + of_nat i) = unat v + i"
    using assms(2) by (simp add: unat_word_ariths unat_of_nat)
  then have "Engine_Proposer (Engine_SetView e (v + of_nat i)) = Some (val_Address (?vs ! ((unat v + i) mod ?n)))"
    using assms i by (simp add: Engine_Proposer_def Engine_SetView_def proposer_at_small)
  moreover have "(unat v + i) mod ?n < ?n" using assms(1) by (intro mod_less_divisor) simp
  ultimately show "map (\<lambda>i. Engine_Proposer (Engine_SetView e (v + of_nat i))) [0..<?n] ! i =
      rotate (unat v) (map (\<lambda>x. Some (val_Address x)) ?vs) ! i"
    using i by (simp add: nth_rotate)
qed simp

theorem Proposer_rotates_witness:
  "map (\<lambda>i. Engine_Proposer (Engine_SetView (Engine_New example_validators) (1 + of_nat i))) [0..<length example_validators] =
   rotate 1 (map (\<lambda>x. Some (val_Address x)) example_validators)"
  using Proposer_rotates [of "Engine_New example_validators" 1] by (simp add: Engine_New_def example_validators_def)

text \<open>From \<open>2^63\<close> on the index is negative unless the number of validators divides it.\<close>

lemma Proposer_panics:
  "Engine_Proposer (Engine_SetView (Engine_New [a, b, c]) 18446744073709551615) = None"
  by (simp add: Engine_Proposer_def Engine_SetView_def Engine_New_def proposer_at_def go_rem_def)

section \<open>Votes of the engine\<close>

inductive engine_step :: "Engine \<Rightarrow> Engine \<Rightarrow> bool" where
  engine_Step: "engine_step e (Engine_Step e)"
| engine_Vote: "Engine_Vote e v = (b, e') \<Longrightarrow> engine_step e e'"

inductive_cases engine_stepE: "engine_step e e'"

lemma Engine_Step_votes [simp]: "en_votes (Engine_Step e) = en_votes e" "en_validators (Engine_Step e) = en_validators e"
  by (simp_all add: Engine_Step_def split: Phase.splits)

lemma Engine_Vote_votes: "Engine_Vote e v = (b, e') \<Longrightarrow> mapget (en_votes e) a \<noteq> None \<Longrightarrow> mapget (en_votes e') a = mapget (en_votes e) a"
  by (auto simp: Engine_Vote_def split: if_splits)

interpretation voted: invariant_system "\<lambda>e. mapget (en_votes e) a = Some v" engine_step "\<lambda>e. mapget (en_votes e) a = Some v" for a v
  by unfold_locales (auto elim!: engine_stepE dest: Engine_Vote_votes)

text \<open>C34: once the engine has accepted a vote it accepts no second vote of that validator, through any
  number of steps and further votes: not a double vote in the same round, and not a vote in a later
  height either, since a step to the next height keeps the votes.\<close>

theorem Engine_votes_once:
  assumes "Engine_Vote e v = (True, e1)" and "engine_step\<^sup>*\<^sup>* e1 e2" and "vote_Validator w = vote_Validator v"
  shows "Engine_Vote e2 w = (False, e2) \<and> mapget (en_votes e2) (vote_Validator v) = Some v"
proof -
  have "mapget (en_votes e1) (vote_Validator v) = Some v"
    using assms(1) by (auto simp: Engine_Vote_def split: if_splits)
  then have "mapget (en_votes e2) (vote_Validator v) = Some v"
    using assms(2) by (rule voted.reachable_inv)
  with assms(3) show ?thesis by (simp add: Engine_Vote_def)
qed

theorem Engine_votes_once_witness:
  "fst (Engine_Vote (Engine_New []) ((example_vote ''a'')\<lparr>vote_Height := 0, vote_View := 0\<rparr>)) \<and>
   \<not> fst (Engine_Vote ((Engine_Step ^^ 4) (snd (Engine_Vote (Engine_New []) ((example_vote ''a'')\<lparr>vote_Height := 0, vote_View := 0\<rparr>))))
        ((example_vote ''a'')\<lparr>vote_Height := 1, vote_View := 0\<rparr>))"
proof -
  let ?v = "(example_vote ''a'')\<lparr>vote_Height := 0, vote_View := 0\<rparr>"
  have e1: "Engine_Vote (Engine_New []) ?v = (True, snd (Engine_Vote (Engine_New []) ?v))"
    by (simp add: Engine_Vote_def Engine_New_def)
  have "engine_step\<^sup>*\<^sup>* e ((Engine_Step ^^ n) e)" for n e
    by (induction n) (auto intro: rtranclp.rtrancl_into_rtrancl engine_Step)
  from Engine_votes_once [OF e1 this, of "(example_vote ''a'')\<lparr>vote_Height := 1, vote_View := 0\<rparr>" 4] show ?thesis
    by (simp add: e1 [THEN arg_cong [of _ _ fst]])
qed

text \<open>a height that is finalized makes the next one finalized without a single vote for it: four steps
  on, the engine is in the commit phase of the next height with the same votes.\<close>

theorem Finalized_carries_over:
  assumes "Engine_Finalized e"
  shows "Engine_Finalized ((Engine_Step ^^ 4) e) \<and> en_height ((Engine_Step ^^ 4) e) = en_height e + 1 \<and>
         en_votes ((Engine_Step ^^ 4) e) = en_votes e"
  using assms by (simp add: Engine_Finalized_def Engine_Step_def eval_nat_numeral)

definition voted_engine :: Engine where
  "voted_engine = (Engine_New [\<lparr>val_Address = ''a'', val_Power = 1, val_PublicKey = ''''\<rparr>])\<lparr>en_phase := Commit, en_votes := fmupd ''a'' (example_vote ''a'') fmempty\<rparr>"

theorem Finalized_carries_over_witness:
  "Engine_Finalized voted_engine \<and> Engine_Finalized ((Engine_Step ^^ 4) voted_engine)"
proof -
  have "Engine_Finalized voted_engine"
    by (simp add: Engine_Finalized_def voted_engine_def Engine_New_def maplen_upd Quorum_def total_power_def)
  with Finalized_carries_over [OF this] show ?thesis by blast
qed

text \<open>
  \<open>Finalized\<close> counts votes, not power, and not only votes of validators.  Where the voters are
  validators of power one, the count is the quorum rule of \<^const>\<open>HasQuorum\<close>.
\<close>

lemma power_sum_unit: "\<forall>x \<in> set v. val_Power x = 1 \<Longrightarrow> power_sum v = length v"
  by (induction v) (simp_all add: power_sum_def)

text \<open>C35: for validators of power one with distinct addresses and votes of validators only, \<open>Finalized\<close> is
  the two-thirds rule \<open>HasQuorum\<close> in the commit phase.\<close>

theorem Finalized_iff_HasQuorum:
  assumes "\<forall>x \<in> set (en_validators e). val_Power x = 1" and "distinct (map val_Address (en_validators e))"
    and "2 * length (en_validators e) < 2 ^ 64"
    and "fmdom' (en_votes e) \<subseteq> val_Address ` set (en_validators e)"
    and "vote_Validator ` set votes = fmdom' (en_votes e)"
  shows "Engine_Finalized e \<longleftrightarrow> en_phase e = Commit \<and> HasQuorum (en_validators e) votes"
proof -
  let ?vs = "en_validators e" and ?D = "fmdom' (en_votes e)"
  let ?f = "filter (\<lambda>x. val_Address x \<in> ?D) ?vs"
  have n: "power_sum ?vs = length ?vs" by (rule power_sum_unit [OF assms(1)])
  have "val_Address ` set ?f = ?D" using assms(4) by auto
  moreover have "distinct (map val_Address ?f)" using assms(2) by (simp add: distinct_map_filter)
  ultimately have "length ?f = card ?D" by (metis distinct_card length_map set_map)
  also have "\<dots> = maplen (en_votes e)" by (simp add: maplen_def fcard.rep_eq fmdom'_alt_def)
  finally have f: "power_sum ?f = maplen (en_votes e)"
    using power_sum_unit [of ?f] assms(1) by simp
  have le: "maplen (en_votes e) \<le> length ?vs"
    using f n power_sum_filter_le [of "\<lambda>x. val_Address x \<in> ?D" ?vs] by simp
  have "HasQuorum ?vs votes \<longleftrightarrow> 2 * length ?vs < 3 * maplen (en_votes e)"
    using HasQuorum_exact [OF assms(2), of votes] assms(3) unfolding assms(5) n f by simp
  moreover have "Quorum ?vs \<le> of_nat (maplen (en_votes e)) \<longleftrightarrow> 2 * length ?vs div 3 + 1 \<le> maplen (en_votes e)"
    using assms(3) le by (simp add: word_le_nat_alt unat_Quorum n unat_of_nat)
  moreover have "2 * length ?vs div 3 + 1 \<le> k \<longleftrightarrow> 2 * length ?vs < 3 * k" for k by linarith
  ultimately show ?thesis by (simp add: Engine_Finalized_def)
qed

theorem Finalized_iff_HasQuorum_witness:
  "Engine_Finalized voted_engine \<longleftrightarrow> en_phase voted_engine = Commit \<and> HasQuorum (en_validators voted_engine) [example_vote ''a'']"
  by (rule Finalized_iff_HasQuorum) (auto simp: voted_engine_def Engine_New_def example_vote_def)

text \<open>Strangers' votes finalize a block.\<close>

lemma Finalized_by_strangers:
  assumes "en_phase e = Commit" and "en_validators e = [\<lparr>val_Address = ''a'', val_Power = 1, val_PublicKey = ''''\<rparr>]"
    and "en_votes e = fmupd ''mallory'' v fmempty"
  shows "Engine_Finalized e"
  using assms by (simp add: Engine_Finalized_def maplen_upd Quorum_def total_power_def)

section \<open>The message network\<close>

text \<open>
  A mailbox: sending appends to the queue of the addressee, receiving empties it.  Then receiving
  returns what was sent since the last time, in order, and what others send or receive does not matter.
\<close>

locale mailbox =
  fixes queue :: "'s \<Rightarrow> 'k \<Rightarrow> 'm list" and dest :: "'m \<Rightarrow> 'k" and accepts :: "'m \<Rightarrow> bool"
    and send :: "'s \<Rightarrow> 'm \<Rightarrow> 's" and recv :: "'s \<Rightarrow> 'k \<Rightarrow> 'm list \<times> 's"
  assumes send_queue: "queue (send s m) k = (if k = dest m \<and> accepts m then queue s k @ [m] else queue s k)"
    and recv_messages: "fst (recv s k) = queue s k"
    and recv_queue: "queue (snd (recv s k)) j = (if j = k then [] else queue s j)"
begin

lemma sends_queue: "queue (foldl send s ms) k = queue s k @ filter (\<lambda>m. dest m = k \<and> accepts m) ms"
  by (induction ms arbitrary: s) (auto simp: send_queue)

lemma recv_after_sends:
  "fst (recv (foldl send (snd (recv s k)) ms) k) = filter (\<lambda>m. dest m = k \<and> accepts m) ms"
  by (simp add: recv_messages sends_queue recv_queue)

end

interpretation net: mailbox "\<lambda>n i. mapget0 [] (nw_queues n) i" msg_To "\<lambda>m. msg_To m \<noteq> '''' \<and> msg_From m \<noteq> ''''"
  "\<lambda>n m. snd (Network_Send n m)" Network_Recv
  by unfold_locales (auto simp: Network_Send_def Network_Recv_def mapget0_def)

lemma SimulateRound_eq:
  "SimulateRound now e n b = (round_messages now e b, foldl (\<lambda>n m. snd (Network_Send n m)) n (round_messages now e b))"
proof -
  have "foldl (\<lambda>(out, n) m. (out @ [m], snd (Network_Send n m))) (out, n) ms =
      (out @ ms, foldl (\<lambda>n m. snd (Network_Send n m)) n ms)" for out ms
    by (induction ms arbitrary: out n) simp_all
  then show ?thesis by (simp add: SimulateRound_def)
qed

text \<open>after a simulated round each addressed validator receives, in order, exactly the messages of the
  round sent to it, and a second receive is empty.\<close>

theorem SimulateRound_delivers:
  assumes "mapget (nw_queues n) i = None" and "i \<noteq> ''''"
  shows "let (out, n') = SimulateRound now e n b; (ms, n'') = Network_Recv n' i
         in ms = filter (\<lambda>m. msg_To m = i) out \<and> length out = 3 * length (en_validators e) \<and> fst (Network_Recv n'' i) = []"
proof -
  let ?ms = "round_messages now e b"
  have self: "msg_From m = msg_To m" if "m \<in> set ?ms" for m
    using that by (auto simp: round_messages_def)
  have "filter (\<lambda>m. msg_To m = i \<and> msg_To m \<noteq> '''' \<and> msg_From m \<noteq> '''') ?ms = filter (\<lambda>m. msg_To m = i) ?ms"
    using assms(2) self by (intro filter_cong) auto
  then have "fst (Network_Recv (foldl (\<lambda>n m. snd (Network_Send n m)) n ?ms) i) = filter (\<lambda>m. msg_To m = i) ?ms"
    using assms(1) by (simp add: net.recv_messages net.sends_queue mapget0_def [of _ "nw_queues n"])
  moreover have "length ?ms = 3 * length (en_validators e)"
    by (simp add: round_messages_def length_concat comp_def sum_list_triv)
  ultimately show ?thesis
    using net.recv_queue by (simp add: SimulateRound_eq Let_def net.recv_messages split: prod.splits)
      (metis net.recv_messages net.recv_queue fst_conv snd_conv)
qed

theorem SimulateRound_delivers_witness:
  "let (out, n') = SimulateRound (\<lambda>a p. 0) voted_engine NewNetwork zero_Block; (ms, n'') = Network_Recv n' ''a''
   in ms = filter (\<lambda>m. msg_To m = ''a'') out \<and> length out = 3 * length (en_validators voted_engine) \<and> fst (Network_Recv n'' ''a'') = []"
  by (rule SimulateRound_delivers) (simp_all add: NewNetwork_def)

section \<open>Evidence\<close>

interpretation evidence: bounded_store ep_items ep_max "\<lambda>(now, e). evd_ID e"
  "\<lambda>p (now, e). case EvidencePool_Add now p e of Inl _ \<Rightarrow> None | Inr p' \<Rightarrow> Some p'"
  by unfold_locales ((auto simp: EvidencePool_Add_def Let_def split: if_splits sum.splits)[1], blast?)+

interpretation by_creation: slice_less created_before
  by unfold_locales (auto simp: created_before_def)

text \<open>C39: after an accepted \<open>Add\<close> the evidence pool holds at most its maximum, keeps what it held and the new
  evidence, and lists exactly the evidence it holds, one entry for each identifier, oldest first, for every
  loop order.\<close>

theorem EvidencePool_Add_keeps:
  assumes "EvidencePool_Add now p e = Inr p'" and "iterates ord (ep_items p')"
  shows "int (EvidencePool_Count p') \<le> ep_max p' \<and>
         (\<forall>i x. EvidencePool_Get p i = Some x \<longrightarrow> EvidencePool_Get p' i = Some x) \<and>
         (\<exists>t. EvidencePool_Get p' (evd_ID e) = Some (e\<lparr>evd_CreatedAt := t\<rparr>)) \<and>
         sorted_wrt (\<lambda>a b. evd_CreatedAt a \<le> evd_CreatedAt b) (EvidencePool_List ord p') \<and>
         set (EvidencePool_List ord p') = {x. \<exists>i. EvidencePool_Get p' i = Some x} \<and>
         length (EvidencePool_List ord p') = EvidencePool_Count p'"
proof (intro conjI)
  show "int (EvidencePool_Count p') \<le> ep_max p'"
    using evidence.put_bounded [of p "(now, e)" p'] assms(1) by (simp add: EvidencePool_Count_def)
  show "\<forall>i x. EvidencePool_Get p i = Some x \<longrightarrow> EvidencePool_Get p' i = Some x"
    using assms(1) by (auto simp: EvidencePool_Add_def EvidencePool_Get_def Let_def split: if_splits)
  show "\<exists>t. EvidencePool_Get p' (evd_ID e) = Some (e\<lparr>evd_CreatedAt := t\<rparr>)"
    using assms(1)
    by (intro exI [of _ "if time_IsZero (evd_CreatedAt e) then now else evd_CreatedAt e"])
       (auto simp: EvidencePool_Add_def EvidencePool_Get_def Let_def split: if_splits)
  show "sorted_wrt (\<lambda>a b. evd_CreatedAt a \<le> evd_CreatedAt b) (EvidencePool_List ord p')"
    using by_creation.sort_slice_in_order by (simp add: EvidencePool_List_def created_before_def not_less)
  show "set (EvidencePool_List ord p') = {x. \<exists>i. EvidencePool_Get p' i = Some x}"
    using iterates_lookup [OF assms(2)] by (force simp: EvidencePool_List_def EvidencePool_Get_def)
  show "length (EvidencePool_List ord p') = EvidencePool_Count p'"
    by (simp add: EvidencePool_List_def EvidencePool_Count_def iterates_length [OF assms(2)])
qed

lemma Unresolved_filter: "EvidencePool_Unresolved ord p = filter (\<lambda>e. \<not> evd_Resolved e) (EvidencePool_List ord p)"
proof -
  have "foldl (\<lambda>out e. if \<not> evd_Resolved e then out @ [e] else out) out es = out @ filter (\<lambda>e. \<not> evd_Resolved e) es" for out es
    by (induction es arbitrary: out) auto
  from this [of "[]"] show ?thesis by (simp only: EvidencePool_Unresolved_def append_Nil)
qed

definition example_evidence :: Evidence where
  "example_evidence = \<lparr>evd_ID = ''e1'', evd_Kind = DoublePrevote, evd_Validator = ''a'', evd_Height = 1, evd_View = 0,
     evd_First = example_vote ''a'', evd_Second = example_vote ''a'', evd_Reason = '''', evd_CreatedAt = 0, evd_Resolved = False\<rparr>"

theorem EvidencePool_Add_keeps_witness:
  "\<exists>p'. EvidencePool_Add 5 (NewEvidencePool 1) example_evidence = Inr p' \<and> int (EvidencePool_Count p') \<le> ep_max p'"
proof -
  obtain p' where p': "EvidencePool_Add 5 (NewEvidencePool 1) example_evidence = Inr p'"
    by (simp add: EvidencePool_Add_def NewEvidencePool_def example_evidence_def time_IsZero_def)
  obtain ord where "iterates ord (ep_items p')" using iterates_exists by blast
  from EvidencePool_Add_keeps [OF p' this] p' show ?thesis by blast
qed

section \<open>The validator schedule\<close>

lemma at_fold:
  assumes "\<forall>x \<in> set ord. 0 < x"
  shows "let (best, out) = foldl (at_step history h) (0, base) ord; S = {x \<in> set ord. x \<le> h}
         in if S = {} then (best, out) = (0, base) else best = Max S \<and> out = the (mapget history (Max S))"
  using assms
proof (induction ord rule: rev_induct)
  case (snoc x ord)
  let ?S = "{y \<in> set ord. y \<le> h}"
  obtain best out where bo: "foldl (at_step history h) (0, base) ord = (best, out)" by fastforce
  have IH: "if ?S = {} then (best, out) = (0, base) else best = Max ?S \<and> out = the (mapget history (Max ?S))"
    using snoc by (simp add: bo Let_def)
  have S': "{y \<in> set (ord @ [x]). y \<le> h} = (if x \<le> h then insert x ?S else ?S)" by auto
  have fin: "finite ?S" by simp
  show ?case
  proof (cases "x \<le> h")
    case False
    then show ?thesis using IH by (simp only: S' foldl_append foldl.simps bo) (simp add: at_step_def Let_def)
  next
    case True
    show ?thesis
    proof (cases "?S = {}")
      case True
      then show ?thesis using IH \<open>x \<le> h\<close> by (simp only: S' foldl_append foldl.simps bo) (simp add: at_step_def Let_def)
    next
      case False
      have best: "best = Max ?S" "out = the (mapget history (Max ?S))"
        using IH unfolding if_not_P [OF False] by simp_all
      have "max x best = (if best \<le> x then x else best)" by (auto simp: max_def)
      then have "Max (insert x ?S) = (if best \<le> x then x else best)"
        by (simp only: Max_insert [OF fin False] best)
      then show ?thesis
        using \<open>x \<le> h\<close> best by (simp only: S' foldl_append foldl.simps bo) (auto simp: at_step_def Let_def)
    qed
  qed
qed simp

definition schedule_inv :: "Schedule \<Rightarrow> bool" where
  "schedule_inv s \<longleftrightarrow> (\<forall>x v. mapget (sc_history s) x = Some v \<longrightarrow> 0 < x \<and> v \<noteq> [])"

lemma schedule_inv_New [inv_intros]: "schedule_inv (NewSchedule v epoch)"
  by (simp add: schedule_inv_def NewSchedule_def)

lemma schedule_inv_Rotate [inv_intros]:
  assumes "schedule_inv s" and "Schedule_Rotate s h v = Inr s'"
  shows "schedule_inv s'"
proof -
  from assms(2) have "0 < h" "v \<noteq> []" and s': "sc_history s' = fmupd h v (sc_history s)"
    by (auto simp: Schedule_Rotate_def word_gt_0 split: if_splits)
  then show ?thesis using assms(1) unfolding schedule_inv_def s' by (metis fmupd_lookup option.inject)
qed

text \<open>C33: the validators at a height are those of the latest rotation at or below it, or the initial ones
  when there is none, whatever order the history is visited in; and their quorum is the quorum rule of
  the chain.\<close>

theorem Schedule_At_latest:
  assumes "schedule_inv s" and "iterates ord (sc_history s)"
  shows "(\<forall>x v. mapget (sc_history s) x = Some v \<and> x \<le> h \<and>
            (\<forall>y \<in> fmdom' (sc_history s). y \<le> h \<longrightarrow> y \<le> x) \<longrightarrow> Schedule_At ord s h = v) \<and>
         ((\<forall>y \<in> fmdom' (sc_history s). \<not> y \<le> h) \<longrightarrow> Schedule_At ord s h = sc_validators s) \<and>
         Schedule_Quorum ord s h = Quorum (Schedule_At ord s h)"
proof -
  let ?S = "{x \<in> set ord. x \<le> h}"
  have dom: "set ord = fmdom' (sc_history s)" by (rule iterates_set [OF assms(2)])
  have "\<forall>x \<in> set ord. 0 < x" using assms by (auto simp: schedule_inv_def iterates_lookup)
  note fold = at_fold [OF this, of "sc_history s" h "sc_validators s"]
  have "Schedule_At ord s h = v"
    if "mapget (sc_history s) x = Some v" "x \<le> h" "\<forall>y \<in> fmdom' (sc_history s). y \<le> h \<longrightarrow> y \<le> x" for x v
  proof -
    have x: "x \<in> ?S" using that(1,2) iterates_lookup [OF assms(2), of x] by auto
    moreover have "Max ?S = x" by (rule Max_eqI) (use x that(3) in \<open>auto simp: dom\<close>)
    ultimately show ?thesis using fold that(1) by (auto simp: Schedule_At_def Let_def split: prod.splits if_splits)
  qed
  moreover have "Schedule_At ord s h = sc_validators s" if "\<forall>y \<in> fmdom' (sc_history s). \<not> y \<le> h"
  proof -
    have "?S = {}" using that dom by auto
    then show ?thesis using fold by (auto simp: Schedule_At_def Let_def split: prod.splits)
  qed
  moreover have "Schedule_Quorum ord s h = Quorum (Schedule_At ord s h)"
    by (simp add: Schedule_Quorum_def Schedule_Power_def Quorum_def total_power_def)
  ultimately show ?thesis by blast
qed

theorem Schedule_At_latest_witness:
  "\<exists>s. Schedule_Rotate (NewSchedule [] 10) 5 example_validators = Inr s \<and> Schedule_At [5] s 7 = example_validators"
proof -
  let ?s = "(NewSchedule [] 10)\<lparr>sc_history := fmupd 5 example_validators fmempty\<rparr>"
  have s: "Schedule_Rotate (NewSchedule [] 10) 5 example_validators = Inr ?s"
    by (simp add: Schedule_Rotate_def NewSchedule_def example_validators_def)
  have "schedule_inv ?s" by (rule schedule_inv_Rotate [OF schedule_inv_New s])
  moreover have "iterates [5] (sc_history ?s)" by (auto simp: iterates_def fset_of_list.rep_eq)
  ultimately have "Schedule_At [5] ?s 7 = example_validators"
    using Schedule_At_latest [of ?s "[5]" 7, THEN conjunct1, rule_format, of 5 example_validators]
    by (simp add: fmdom'_alt_def)
  with s show ?thesis by blast
qed

section \<open>Rounds\<close>

text \<open>A round accepts one vote of each validator, whatever is added or advanced in between: \<open>Advance\<close> goes to the
  next view without clearing the votes, so a validator that voted in one view is refused in the next.\<close>

inductive round_step :: "RoundState \<Rightarrow> RoundState \<Rightarrow> bool" where
  "RoundState_AddProposal r b = Inr r' \<Longrightarrow> round_step r r'"
| "RoundState_AddVote r v = Inr r' \<Longrightarrow> round_step r r'"
| "round_step r (snd (RoundState_Advance r))"

inductive_cases round_stepE: "round_step r r'"

lemma Advance_frame:
  "rd_Height (snd (RoundState_Advance r)) = rd_Height r" "rd_Votes (snd (RoundState_Advance r)) = rd_Votes r"
  by (simp_all add: RoundState_Advance_def Let_def split: Phase.splits)

interpretation round_vote: invariant_system "\<lambda>r. mapget (rd_Votes r) a = Some v" round_step "\<lambda>r. mapget (rd_Votes r) a = Some v" for a v
  by unfold_locales
    (auto elim!: round_stepE simp: RoundState_AddProposal_def RoundState_AddVote_def Advance_frame split: if_splits)

lemma round_votes_once:
  assumes "RoundState_AddVote r v = Inr r1" and "round_step\<^sup>*\<^sup>* r1 r2" and "vote_Validator v' = vote_Validator v"
  shows "\<exists>err. RoundState_AddVote r2 v' = Inl err"
proof -
  have "mapget (rd_Votes r1) (vote_Validator v) = Some v"
    using assms(1) by (auto simp: RoundState_AddVote_def split: if_splits)
  from round_vote.reachable_inv [OF this assms(2)] assms(3) show ?thesis by (simp add: RoundState_AddVote_def)
qed

lemma Advance_keeps_votes:
  assumes "rd_Phase r = Commit" and "mapget (rd_Votes r) a = Some v"
  shows "RoundState_AddVote (snd (RoundState_Advance r))
           \<lparr>vote_Validator = a, vote_Height = rd_Height r, vote_View = rd_View r + 1, vote_Type = ty, vote_Signature = sg\<rparr> = Inl VoteDuplicate"
  using assms by (simp add: RoundState_AddVote_def RoundState_Advance_def)

end
