(* ===== verification/P2P.thy ===== *)
theory P2P
  imports Chain_Domain
begin

text \<open>
  \<open>internal/p2p\<close>: the peer manager (\<open>peers.go\<close>) and the handshake, backoff and topic rules
  (\<open>protocol.go\<close>).
\<close>

section \<open>\<open>peers.go\<close>\<close>

text \<open>A score is a Go \<open>int\<close>, which wraps around.\<close>

record Peer =
  peer_ID :: string
  peer_Address :: string
  peer_Score :: i64
  peer_LastSeen :: time
  peer_Banned :: bool

definition zero_Peer :: Peer where
  "zero_Peer = \<lparr>peer_ID = '''', peer_Address = '''', peer_Score = 0, peer_LastSeen = 0, peer_Banned = False\<rparr>"

record Manager =
  mgr_peers :: "(string, Peer) fmap"

definition Manager_New :: Manager where
  "Manager_New = \<lparr>mgr_peers = fmempty\<rparr>"

definition Manager_Add :: "time \<Rightarrow> Manager \<Rightarrow> Peer \<Rightarrow> Manager" where
  "Manager_Add now m p = m\<lparr>mgr_peers := fmupd (peer_ID p) (p\<lparr>peer_LastSeen := now\<rparr>) (mgr_peers m)\<rparr>"

definition Manager_List :: "string list \<Rightarrow> Manager \<Rightarrow> Peer list" where
  "Manager_List ord m = map (\<lambda>i. the (mapget (mgr_peers m) i)) ord"

definition Manager_Penalize :: "Manager \<Rightarrow> string \<Rightarrow> i64 \<Rightarrow> Manager" where
  "Manager_Penalize m i n =
     (let p = mapget0 zero_Peer (mgr_peers m) i;
          p1 = p\<lparr>peer_Score := peer_Score p - n\<rparr>;
          p2 = (if sint (peer_Score p1) < - 100 then p1\<lparr>peer_Banned := True\<rparr> else p1)
      in m\<lparr>mgr_peers := fmupd i p2 (mgr_peers m)\<rparr>)"

section \<open>\<open>protocol.go\<close>\<close>

record Handshake =
  hs_NodeID :: string
  hs_NetworkID :: string
  hs_ChainID :: string
  hs_Version :: u32
  hs_Features :: "string list"
  hs_Nonce :: u64

record Limits =
  lim_MaxPeers :: int
  lim_MaxMessage :: int
  lim_RatePerSecond :: int
  lim_Burst :: int

definition DefaultLimits :: Limits where
  "DefaultLimits = \<lparr>lim_MaxPeers = 64, lim_MaxMessage = 2 * 2 ^ 20, lim_RatePerSecond = 100, lim_Burst = 200\<rparr>"

datatype handshake_error = IdentityMissing | VersionMissing | TooManyFeatures

definition ValidateHandshake :: "Handshake \<Rightarrow> handshake_error option" where
  "ValidateHandshake h =
     (if hs_NodeID h = '''' \<or> hs_NetworkID h = '''' \<or> hs_ChainID h = '''' then Some IdentityMissing
      else if hs_Version h = 0 then Some VersionMissing
      else if length (hs_Features h) > 32 then Some TooManyFeatures
      else None)"

definition Compatible :: "Handshake \<Rightarrow> Handshake \<Rightarrow> bool" where
  "Compatible a b \<longleftrightarrow> hs_NetworkID a = hs_NetworkID b \<and> hs_ChainID a = hs_ChainID b \<and> hs_Version a = hs_Version b"

record Backoff =
  bo_attempts :: "(string, nat) fmap"

definition NewBackoff :: Backoff where
  "NewBackoff = \<lparr>bo_attempts = fmempty\<rparr>"

definition Backoff_Next :: "Backoff \<Rightarrow> string \<Rightarrow> duration \<times> Backoff" where
  "Backoff_Next b i =
     (let k = mapget0 0 (bo_attempts b) i + 1; n = (if k > 8 then 8 else k)
      in (2 ^ n * 1000000000, b\<lparr>bo_attempts := fmupd i k (bo_attempts b)\<rparr>))"

definition Backoff_Reset :: "Backoff \<Rightarrow> string \<Rightarrow> Backoff" where
  "Backoff_Reset b i = b\<lparr>bo_attempts := fmdrop i (bo_attempts b)\<rparr>"

text \<open>
  \<open>net.SplitHostPort\<close>: the port follows the last colon; a host with colons stands in brackets.
\<close>

definition split_last :: "char \<Rightarrow> string \<Rightarrow> (string \<times> string) option" where
  "split_last c s =
     (if c \<in> set s
      then Some (rev (tl (dropWhile (\<lambda>x. x \<noteq> c) (rev s))), rev (takeWhile (\<lambda>x. x \<noteq> c) (rev s)))
      else None)"

definition SplitHostPort :: "string \<Rightarrow> (string \<times> string) option" where
  "SplitHostPort s =
     (case split_last CHR '':'' s of
        None \<Rightarrow> None
      | Some (before, port) \<Rightarrow>
          if take 1 s = ''['' then
            (let host = takeWhile (\<lambda>x. x \<noteq> CHR '']'') (tl s); after = drop (length host + 2) s
             in if CHR '']'' \<notin> set s \<or> length before \<noteq> length host + 2 then None
                else if CHR ''['' \<in> set (tl s) \<or> CHR '']'' \<in> set after then None
                else Some (host, port))
          else if CHR '':'' \<in> set before \<or> CHR ''['' \<in> set s \<or> CHR '']'' \<in> set s then None
          else Some (before, port))"

text \<open>
  \<open>fmt.Sscanf(p, "%d", &n)\<close>: white space but no line break is skipped, a sign may follow, then the longest
  run of digits is read and must fit an \<open>int\<close>; what comes after it is not looked at.
\<close>

definition scan_d :: "string \<Rightarrow> int option" where
  "scan_d s =
     (let s1 = trim_left (filter (\<lambda>r. r \<noteq> [CHR 0x0A]) space_runes) s;
          (neg, s2) = (case s1 of [] \<Rightarrow> (False, [])
                       | c # cs \<Rightarrow> if c = CHR ''-'' then (True, cs) else if c = CHR ''+'' then (False, cs) else (False, s1));
          ds = takeWhile is_digit s2;
          v = (if neg then - dec_val ds else dec_val ds)
      in if ds = [] \<or> v < - (2 ^ 63) \<or> v \<ge> 2 ^ 63 then None else Some v)"

datatype addr_error = InvalidAddress | InvalidPort

definition ParseAddr :: "string \<Rightarrow> addr_error + string \<times> int" where
  "ParseAddr s =
     (case SplitHostPort s of
        None \<Rightarrow> Inl InvalidAddress
      | Some (h, p) \<Rightarrow>
          if h = '''' then Inl InvalidAddress
          else (case scan_d p of
                  None \<Rightarrow> Inl InvalidPort
                | Some n \<Rightarrow> if n < 1 \<or> n > 65535 then Inl InvalidPort else Inr (h, n)))"

definition Trim_slash :: "string \<Rightarrow> string" where
  "Trim_slash s = rev (dropWhile (\<lambda>c. c = CHR ''/'') (rev (dropWhile (\<lambda>c. c = CHR ''/'') s)))"

definition EncodeTopic :: "string \<Rightarrow> string \<Rightarrow> string" where
  "EncodeTopic network topic = Trim_slash network @ ''/'' @ Trim_slash topic"

definition TopicAllowed :: "string \<Rightarrow> bool" where
  "TopicAllowed topic = list_ex (\<lambda>p. topic = p) [''blocks'', ''transactions'', ''votes'', ''snapshots'']"

definition Manager_HealthyCount :: "string list \<Rightarrow> Manager \<Rightarrow> nat" where
  "Manager_HealthyCount ord m =
     foldl (\<lambda>n p. if \<not> peer_Banned p \<and> sint (peer_Score p) \<ge> 0 then n + 1 else n) 0 (Manager_List ord m)"

definition Manager_Ban :: "time \<Rightarrow> Manager \<Rightarrow> string \<Rightarrow> duration \<Rightarrow> Manager" where
  "Manager_Ban now m i d =
     m\<lparr>mgr_peers := fmupd i ((mapget0 zero_Peer (mgr_peers m) i)\<lparr>peer_Banned := True, peer_LastSeen := now + d\<rparr>) (mgr_peers m)\<rparr>"

definition Manager_Unban :: "Manager \<Rightarrow> string \<Rightarrow> Manager" where
  "Manager_Unban m i =
     m\<lparr>mgr_peers := fmupd i ((mapget0 zero_Peer (mgr_peers m) i)\<lparr>peer_Banned := False\<rparr>) (mgr_peers m)\<rparr>"

section \<open>Bans\<close>

definition banned :: "Manager \<Rightarrow> string \<Rightarrow> bool" where
  "banned m i \<longleftrightarrow> peer_Banned (mapget0 zero_Peer (mgr_peers m) i)"

text \<open>The operations that do not lift the ban of \<open>i\<close>.\<close>

inductive ban_step :: "string \<Rightarrow> Manager \<Rightarrow> Manager \<Rightarrow> bool" for i where
  ban_Add: "peer_ID p \<noteq> i \<Longrightarrow> ban_step i m (Manager_Add now m p)"
| ban_Penalize: "ban_step i m (Manager_Penalize m j n)"
| ban_Ban: "ban_step i m (Manager_Ban now m j d)"
| ban_Unban: "j \<noteq> i \<Longrightarrow> ban_step i m (Manager_Unban m j)"

inductive_cases ban_stepE: "ban_step i m m'"

lemma banned_step: "banned m i \<Longrightarrow> ban_step i m m' \<Longrightarrow> banned m' i"
  by (auto elim!: ban_stepE simp: banned_def Manager_Add_def Manager_Penalize_def Manager_Ban_def Manager_Unban_def Let_def mapget0_upd)

interpretation bans: invariant_system "\<lambda>m. banned m i" "ban_step i" "\<lambda>m. banned m i" for i
  by unfold_locales (auto intro: banned_step)

text \<open>a penalty that takes a score below -100 (without running over the smallest integer) bans the peer,
  and the peer stays banned until it is unbanned or added again.\<close>

theorem Penalize_bans:
  assumes "sint (peer_Score (mapget0 zero_Peer (mgr_peers m) i)) - sint n < - 100"
    and "- (2 ^ 63) \<le> sint (peer_Score (mapget0 zero_Peer (mgr_peers m) i)) - sint n"
    and "(ban_step i)\<^sup>*\<^sup>* (Manager_Penalize m i n) m'"
  shows "banned m' i"
proof -
  let ?p = "mapget0 zero_Peer (mgr_peers m) i"
  have "sint (peer_Score ?p - n) = sint (peer_Score ?p) - sint n"
    using assms(1,2) by (simp add: sint_word_ariths signed_take_bit_int_eq_self)
  then have "banned (Manager_Penalize m i n) i"
    using assms(1) by (simp add: banned_def Manager_Penalize_def Let_def mapget0_upd)
  then show ?thesis using assms(3) by (rule bans.reachable_inv)
qed

theorem Penalize_bans_witness: "banned (Manager_Penalize Manager_New ''p'' 101) ''p''"
  by (rule Penalize_bans [of Manager_New "''p''" 101]) (simp_all add: Manager_New_def mapget0_def zero_Peer_def)

text \<open>A penalty or ban of an unknown peer makes one with an empty identifier.\<close>

lemma Penalize_invents_peer:
  "mapget (mgr_peers m) i = None \<Longrightarrow> \<exists>p. mapget (mgr_peers (Manager_Penalize m i n)) i = Some p \<and> peer_ID p = ''''"
  by (simp add: Manager_Penalize_def Let_def mapget0_def zero_Peer_def)

lemma HealthyCount_filter:
  "Manager_HealthyCount ord m = length (filter (\<lambda>p. \<not> peer_Banned p \<and> sint (peer_Score p) \<ge> 0) (Manager_List ord m))"
proof -
  have "foldl (\<lambda>n p. if \<not> peer_Banned p \<and> sint (peer_Score p) \<ge> 0 then n + 1 else n) n ps =
      n + length (filter (\<lambda>p. \<not> peer_Banned p \<and> sint (peer_Score p) \<ge> 0) ps)" for n and ps :: "Peer list"
    by (induction ps arbitrary: n) auto
  from this [of 0] show ?thesis by (simp only: Manager_HealthyCount_def add_0)
qed

section \<open>Backoff\<close>

lemma Backoff_after:
  "mapget0 0 (bo_attempts (((\<lambda>b. snd (Backoff_Next b i)) ^^ k) b)) i = mapget0 0 (bo_attempts b) i + k"
  by (induction k) (simp_all add: Backoff_Next_def Let_def mapget0_upd)

text \<open>the \<open>k\<close>-th retry in a row waits \<open>2^k\<close> seconds, at most 256, and a reset starts over.\<close>

theorem Backoff_doubles:
  "fst (Backoff_Next (((\<lambda>b. snd (Backoff_Next b i)) ^^ k) (Backoff_Reset b i)) i) = 2 ^ min (Suc k) 8 * 1000000000"
proof -
  have "mapget0 0 (bo_attempts (Backoff_Reset b i)) i = 0" by (simp add: Backoff_Reset_def mapget0_def)
  then have "mapget0 0 (bo_attempts (((\<lambda>b. snd (Backoff_Next b i)) ^^ k) (Backoff_Reset b i))) i = k"
    by (simp add: Backoff_after)
  then show ?thesis by (simp add: Backoff_Next_def Let_def min_def)
qed

section \<open>Addresses\<close>

lemma split_last_append: "c \<notin> set port \<Longrightarrow> split_last c (host @ c # port) = Some (host, port)"
proof -
  assume "c \<notin> set port"
  then have "takeWhile (\<lambda>x. x \<noteq> c) (rev port @ c # rev host) = rev port"
    and "dropWhile (\<lambda>x. x \<noteq> c) (rev port @ c # rev host) = c # rev host"
    by (subst takeWhile_append2 dropWhile_append2; auto)+
  then show ?thesis by (simp add: split_last_def)
qed

lemma SplitHostPort_plain:
  assumes "set host \<inter> {CHR '':'', CHR ''['', CHR '']''} = {}" and "set port \<inter> {CHR '':'', CHR ''['', CHR '']''} = {}"
  shows "SplitHostPort (host @ CHR '':'' # port) = Some (host, port)"
proof -
  have "take 1 (host @ CHR '':'' # port) \<noteq> ''[''" using assms(1) by (cases host) auto
  with assms show ?thesis by (auto simp: SplitHostPort_def split_last_append)
qed

lemma takeWhile_digits: "(rest = [] \<or> \<not> is_digit (hd rest)) \<Longrightarrow> list_all is_digit ds \<Longrightarrow> takeWhile is_digit (ds @ rest) = ds"
  by (cases rest) (auto simp: list_all_iff takeWhile_append2)

lemma digit_not_trimmed:
  assumes "is_digit c"
  shows "trim_left (filter (\<lambda>r. r \<noteq> [CHR 0x0A]) space_runes) (c # s) = c # s"
proof -
  have "c \<noteq> x" if "x \<in> {CHR 0x09, CHR 0x0B, CHR 0x0C, CHR 0x0D, CHR 0x20, CHR 0xC2, CHR 0xE1, CHR 0xE2, CHR 0xE3}" for x
    using assms that by (auto simp: is_digit_def digit_val_def)
  then have "strip_prefix (filter (\<lambda>r. r \<noteq> [CHR 0x0A]) space_runes) (c # s) = None"
    by (simp add: strip_prefix_def space_runes_def)
  then show ?thesis by (simp add: trim_left.simps)
qed

lemma scan_d_digits:
  assumes "0 \<le> n" and "n < 2 ^ 63" and "rest = [] \<or> \<not> is_digit (hd rest)"
  shows "scan_d (dec n @ rest) = Some n"
proof -
  obtain c cs where d: "dec n = c # cs" by (cases "dec n") auto
  have all: "list_all is_digit (dec n)" using dec_digits [OF assms(1)] by (simp add: list_all_iff)
  then have c: "is_digit c" by (simp add: d)
  then have sign: "c \<noteq> CHR ''-''" "c \<noteq> CHR ''+''" by (auto simp: is_digit_def digit_val_def)
  have tw: "takeWhile is_digit (c # cs @ rest) = c # cs" using takeWhile_digits [OF assms(3) all] by (simp add: d)
  have "dec_val (c # cs) = n" using dec_val_dec [OF assms(1)] by (simp add: d)
  with sign assms(1,2) c tw show ?thesis
    by (simp add: scan_d_def d digit_not_trimmed Let_def del: takeWhile.simps)
qed

text \<open>a host and a port are read back from their address; whatever follows the digits of the port is ignored.\<close>

theorem ParseAddr_reads:
  assumes "host \<noteq> ''''" and "set host \<inter> {CHR '':'', CHR ''['', CHR '']''} = {}" and "1 \<le> n" and "n \<le> 65535"
    and "set rest \<inter> {CHR '':'', CHR ''['', CHR '']''} = {}" and "rest = [] \<or> \<not> is_digit (hd rest)"
  shows "ParseAddr (host @ CHR '':'' # dec n @ rest) = Inr (host, n)"
proof -
  have "\<not> is_digit CHR '':'' \<and> \<not> is_digit CHR ''['' \<and> \<not> is_digit CHR '']''" by (simp add: is_digit_def digit_val_def)
  then have "set (dec n @ rest) \<inter> {CHR '':'', CHR ''['', CHR '']''} = {}"
    using dec_digits [of n] assms(3,5) by auto
  then have "SplitHostPort (host @ CHR '':'' # dec n @ rest) = Some (host, dec n @ rest)"
    by (rule SplitHostPort_plain [OF assms(2)])
  moreover have "scan_d (dec n @ rest) = Some n" using assms by (intro scan_d_digits) auto
  ultimately show ?thesis using assms(1,3,4) by (simp add: ParseAddr_def)
qed

theorem ParseAddr_reads_witness: "ParseAddr (''node'' @ CHR '':'' # dec 9001 @ ''junk'') = Inr (''node'', 9001)"
  by (rule ParseAddr_reads) (simp_all add: is_digit_def digit_val_def)

end
