(* ===== verification/Observability.thy ===== *)
theory Observability
  imports Prelude
begin

text \<open>
  \<open>internal/observability\<close>: the counters of the node (\<open>metrics.go\<close>), the levelled logger, spans and
  labelled counters (\<open>log.go\<close>).  A log writer is the list of the entries written to it; how an entry is
  rendered as JSON is left out, and the field values, of Go type \<open>interface{}\<close>, are of a type \<open>'v\<close>.
\<close>

section \<open>\<open>metrics.go\<close>\<close>

record Metrics =
  mt_Requests :: u64
  mt_Blocks :: u64
  mt_Errors :: u64
  mt_Started :: time

definition Metrics_New :: "time \<Rightarrow> Metrics" where
  "Metrics_New now = \<lparr>mt_Requests = 0, mt_Blocks = 0, mt_Errors = 0, mt_Started = now\<rparr>"

text \<open>The snapshot: requests, blocks, errors and the uptime, here in nanoseconds.\<close>

definition Metrics_Snapshot :: "time \<Rightarrow> Metrics \<Rightarrow> u64 \<times> u64 \<times> u64 \<times> duration" where
  "Metrics_Snapshot now m = (mt_Requests m, mt_Blocks m, mt_Errors m, now - mt_Started m)"

section \<open>\<open>log.go\<close>\<close>

type_synonym Level = string

definition LevelDebug :: Level where "LevelDebug = ''debug''"
definition LevelInfo :: Level where "LevelInfo = ''info''"
definition LevelWarn :: Level where "LevelWarn = ''warn''"
definition LevelError :: Level where "LevelError = ''error''"

record 'v Entry =
  en_At :: time
  en_Level :: Level
  en_Message :: string
  en_Fields :: "(string, 'v) fmap"
  en_TraceID :: string

text \<open>
  Loggers share their writers: a writer is an address, and the entries written so far are kept in a store
  by address.  Address 0 is the standard output, which stands for a nil writer.
\<close>

type_synonym 'v sinks = "nat \<Rightarrow> 'v Entry list"

definition Stdout :: nat where
  "Stdout = 0"

record 'v Logger =
  lg_out :: nat
  lg_min :: Level
  lg_fields :: "(string, 'v) fmap"

definition NewLogger :: "nat option \<Rightarrow> Level \<Rightarrow> 'v Logger" where
  "NewLogger out mn = \<lparr>lg_out = (case out of None \<Rightarrow> Stdout | Some w \<Rightarrow> w), lg_min = mn, lg_fields = fmempty\<rparr>"

definition Logger_With :: "'v Logger \<Rightarrow> string \<Rightarrow> 'v \<Rightarrow> 'v Logger" where
  "Logger_With l k v = \<lparr>lg_out = lg_out l, lg_min = lg_min l, lg_fields = fmupd k v (lg_fields l)\<rparr>"

definition rank :: "Level \<Rightarrow> int" where
  "rank x = (if x = LevelDebug then 1 else if x = LevelInfo then 2 else if x = LevelWarn then 3
             else if x = LevelError then 4 else 2)"

text \<open>
  \<open>trace\<close> is the context's value for \<open>trace_id\<close> when it is a string.  \<open>encodes\<close> says which entries the
  JSON encoder accepts: it writes nothing for one with a field value it cannot encode.
\<close>

definition Logger_Log ::
  "('v Entry \<Rightarrow> bool) \<Rightarrow> time \<Rightarrow> 'v Logger \<Rightarrow> string option \<Rightarrow> Level \<Rightarrow> string \<Rightarrow> (string, 'v) fmap \<Rightarrow> 'v sinks \<Rightarrow> 'v sinks" where
  "Logger_Log encodes now l trace lv msg fs sinks =
     (if rank lv < rank (lg_min l) then sinks
      else let e = \<lparr>en_At = now, en_Level = lv, en_Message = msg, en_Fields = lg_fields l ++\<^sub>f fs,
                    en_TraceID = (case trace of Some i \<Rightarrow> i | None \<Rightarrow> '''')\<rparr>
           in if encodes e then sinks(lg_out l := sinks (lg_out l) @ [e]) else sinks)"

definition Logger_Debug ::
  "('v Entry \<Rightarrow> bool) \<Rightarrow> time \<Rightarrow> 'v Logger \<Rightarrow> string option \<Rightarrow> string \<Rightarrow> (string, 'v) fmap \<Rightarrow> 'v sinks \<Rightarrow> 'v sinks" where
  "Logger_Debug encodes now l c m f = Logger_Log encodes now l c LevelDebug m f"

definition Logger_Info ::
  "('v Entry \<Rightarrow> bool) \<Rightarrow> time \<Rightarrow> 'v Logger \<Rightarrow> string option \<Rightarrow> string \<Rightarrow> (string, 'v) fmap \<Rightarrow> 'v sinks \<Rightarrow> 'v sinks" where
  "Logger_Info encodes now l c m f = Logger_Log encodes now l c LevelInfo m f"

definition Logger_Warn ::
  "('v Entry \<Rightarrow> bool) \<Rightarrow> time \<Rightarrow> 'v Logger \<Rightarrow> string option \<Rightarrow> string \<Rightarrow> (string, 'v) fmap \<Rightarrow> 'v sinks \<Rightarrow> 'v sinks" where
  "Logger_Warn encodes now l c m f = Logger_Log encodes now l c LevelWarn m f"

definition Logger_Error ::
  "('v Entry \<Rightarrow> bool) \<Rightarrow> time \<Rightarrow> 'v Logger \<Rightarrow> string option \<Rightarrow> string \<Rightarrow> (string, 'v) fmap \<Rightarrow> 'v sinks \<Rightarrow> 'v sinks" where
  "Logger_Error encodes now l c m f = Logger_Log encodes now l c LevelError m f"

record Span =
  sp_TraceID :: string
  sp_Name :: string
  sp_Started :: time
  sp_Attrs :: "(string, string) fmap"
  sp_Err :: "string option"

definition StartSpan :: "i64 \<Rightarrow> time \<Rightarrow> string \<Rightarrow> Span" where
  "StartSpan nano now name = \<lparr>sp_TraceID = fmt_d (sint nano), sp_Name = name, sp_Started = now, sp_Attrs = fmempty, sp_Err = None\<rparr>"

definition Span_Set :: "Span \<Rightarrow> string \<Rightarrow> string \<Rightarrow> Span" where
  "Span_Set s k v = s\<lparr>sp_Attrs := fmupd k v (sp_Attrs s)\<rparr>"

definition Span_End :: "time \<Rightarrow> Span \<Rightarrow> string option \<Rightarrow> duration \<times> Span" where
  "Span_End now s err = (now - sp_Started s, s\<lparr>sp_Err := err\<rparr>)"

definition Span_Duration :: "time \<Rightarrow> Span \<Rightarrow> duration" where
  "Span_Duration now s = now - sp_Started s"

definition Span_Valid :: "Span \<Rightarrow> bool" where
  "Span_Valid s \<longleftrightarrow> sp_Name s \<noteq> '''' \<and> sp_TraceID s \<noteq> ''''"

record Counter =
  ct_name :: string
  ct_value :: u64
  ct_labels :: "(string, string) fmap"

definition NewCounter :: "string \<Rightarrow> Counter" where
  "NewCounter n = \<lparr>ct_name = n, ct_value = 0, ct_labels = fmempty\<rparr>"

definition Counter_Add :: "Counter \<Rightarrow> u64 \<Rightarrow> Counter" where
  "Counter_Add c n = c\<lparr>ct_value := ct_value c + n\<rparr>"

definition Counter_Value :: "Counter \<Rightarrow> u64" where
  "Counter_Value c = ct_value c"

definition Counter_Label :: "Counter \<Rightarrow> string \<Rightarrow> string \<Rightarrow> Counter" where
  "Counter_Label c k v = c\<lparr>ct_labels := fmupd k v (ct_labels c)\<rparr>"

definition Counter_Snapshot :: "Counter \<Rightarrow> string \<times> u64 \<times> (string, string) fmap" where
  "Counter_Snapshot c = (ct_name c, ct_value c, ct_labels c)"

section \<open>Behaviour\<close>

lemma Counter_Add_total:
  "unat (ct_value (foldl Counter_Add c ns)) = (unat (ct_value c) + sum_list (map unat ns)) mod 2 ^ 64"
proof -
  have "ct_value (foldl Counter_Add c ns) = foldl (\<lambda>p n. p + n) (ct_value c) ns"
    by (induction ns arbitrary: c) (simp_all add: Counter_Add_def)
  then show ?thesis using sum_list_unat_fold [of "\<lambda>n. n" "ct_value c" ns] by simp
qed

text \<open>A message is written exactly when its level reaches the logger's minimum and it can be encoded.\<close>

lemma Logger_Log_filters:
  assumes "\<And>e. encodes e"
  shows "Logger_Log encodes now l trace lv msg fs sinks (lg_out l) = sinks (lg_out l) \<longleftrightarrow> rank lv < rank (lg_min l)"
  using assms by (simp add: Logger_Log_def Let_def)

text \<open>A child made by \<open>With\<close> writes to its parent's writer, with the field it was given unless the call gives
  that field itself; other writers are not touched.\<close>

lemma Logger_With_shares:
  assumes "\<not> rank lv < rank (lg_min l)" and "\<And>e. encodes e"
  shows "\<exists>e. Logger_Log encodes now (Logger_With l k v) trace lv msg fs sinks =
               sinks(lg_out l := sinks (lg_out l) @ [e]) \<and> en_Message e = msg \<and>
             mapget (en_Fields e) k = (case mapget fs k of None \<Rightarrow> Some v | Some w \<Rightarrow> Some w)"
  using assms by (auto simp: Logger_Log_def Logger_With_def Let_def fmlookup_dom_iff split: option.splits)

end
