(* ===== verification/Chain_Node.thy ===== *)
theory Chain_Node
  imports Mempool Repository State_Machine Merkle_Proof Audit_Chain Consensus P2P Observability
begin

text \<open>
  \<open>internal/app/node.go\<close>: the node that joins the components and its HTTP handlers.  A handler takes
  the request's parts that the code reads, the method, the path and the decoded JSON body
  (\<^const>\<open>None\<close> when \<open>json.Decode\<close> fails), and returns the status code and the body written.  A handler
  as a function is its run without interruption; the transition system \<open>node_step\<close> below takes the
  handlers apart into single method calls, between which those of other requests come.
\<close>

section \<open>State\<close>

record Config =
  cfg_Network :: Chain_Domain.Network
  cfg_Addr :: string

definition default_validator :: "string \<Rightarrow> Validator" where
  "default_validator a = \<lparr>val_Address = a, val_Power = 1, val_PublicKey = ''''\<rparr>"

definition DefaultConfig :: Config where
  "DefaultConfig =
     \<lparr>cfg_Network = \<lparr>net_ID = ''local'', net_Name = ''Verifiable Chain'', net_ChainID = ''vchain-1'', net_Version = 1,
        net_Validators = map default_validator [''validator-1'', ''validator-2'', ''validator-3'']\<rparr>,
      cfg_Addr = '':8080''\<rparr>"

record Node =
  nd_cfg :: Config
  nd_pool :: Pool
  nd_state :: State
  nd_repo :: Repo
  nd_peers :: Manager
  nd_bft :: Engine
  nd_audit :: Log
  nd_metrics :: Metrics
  nd_checkpoints :: "Block list"

definition NewNode :: "time \<Rightarrow> time \<Rightarrow> Config \<Rightarrow> Node" where
  "NewNode started now c =
     \<lparr>nd_cfg = c, nd_pool = Pool_New 1000, nd_state = State_New, nd_repo = Repo_New,
      nd_peers = Manager_Add now Manager_New (zero_Peer\<lparr>peer_ID := ''validator-1'', peer_Address := ''127.0.0.1:9001'', peer_Score := 100\<rparr>),
      nd_bft = Engine_New (net_Validators (cfg_Network c)), nd_audit = Log_New, nd_metrics = Metrics_New started, nd_checkpoints = []\<rparr>"

text \<open>
  What the runtime decides in a call: the orders of its loops over maps, its readings of the clock and
  its random bytes.
\<close>

record Env =
  env_pool_ord :: "string list"
  env_pool_now :: "string \<Rightarrow> time"
  env_block_ord :: "Height list"
  env_state_ord :: "string list"
  env_data_ord :: "string list"
  env_peer_ord :: "string list"
  env_snap_ord :: "string list"
  env_now :: time
  env_nano :: i64
  env_log_nano :: i64
  env_log_now :: time
  env_rand :: bytes

datatype body =
    ErrorBody string
  | RedirectBody string
  | HealthBody string Height
  | MetricsBody "u64 \<times> u64 \<times> u64 \<times> duration"
  | NetworksBody "Chain_Domain.Network list"
  | PeerBody Peer
  | PeersBody "Peer list"
  | TxBody Tx
  | TxsBody "Tx list"
  | BlockBody Block
  | BlocksBody "Block list"
  | SyncBody Height nat
  | SnapshotBody Snapshot
  | SnapshotsBody "Snapshot list"
  | VerifiedBody string bool
  | RollbackBody Height
  | ProofBody Item
  | ConsensusBody "Height \<times> View \<times> Phase \<times> nat"

type_synonym response = "nat \<times> body"

section \<open>Handlers\<close>

definition middleware :: "Node \<Rightarrow> Node" where
  "middleware n = n\<lparr>nd_metrics := (nd_metrics n)\<lparr>mt_Requests := mt_Requests (nd_metrics n) + 1\<rparr>\<rparr>"

definition audit_append :: "Env \<Rightarrow> Node \<Rightarrow> string \<Rightarrow> string \<Rightarrow> Node" where
  "audit_append env n a d = n\<lparr>nd_audit := snd (Log_Append (env_log_nano env) (env_log_now env) (nd_audit n) a d)\<rparr>"

definition latest_height :: "Env \<Rightarrow> Node \<Rightarrow> Height" where
  "latest_height env n = hdr_Height (blk_Header (Repo_Latest (env_block_ord env) (nd_repo n)))"

definition Node_health :: "Env \<Rightarrow> Node \<Rightarrow> response" where
  "Node_health env n = (200, HealthBody (net_ChainID (cfg_Network (nd_cfg n))) (latest_height env n))"

definition Node_metricsH :: "Env \<Rightarrow> Node \<Rightarrow> response" where
  "Node_metricsH env n = (200, MetricsBody (Metrics_Snapshot (env_now env) (nd_metrics n)))"

definition Node_networks :: "Node \<Rightarrow> response" where
  "Node_networks n = (200, NetworksBody [cfg_Network (nd_cfg n)])"

definition Node_peerH :: "Env \<Rightarrow> Node \<Rightarrow> string \<Rightarrow> Peer option \<Rightarrow> response \<times> Node" where
  "Node_peerH env n meth b =
     (if meth = ''POST'' then
        (case b of
           None \<Rightarrow> ((400, ErrorBody ''bad json''), n)
         | Some p \<Rightarrow>
             if peer_ID p = '''' then ((400, ErrorBody ''id required''), n)
             else ((201, PeerBody p), n\<lparr>nd_peers := Manager_Add (env_now env) (nd_peers n) p\<rparr>))
      else ((200, PeersBody (Manager_List (env_peer_ord env) (nd_peers n))), n))"

definition Node_txH :: "Env \<Rightarrow> Node \<Rightarrow> string \<Rightarrow> Tx option \<Rightarrow> response \<times> Node" where
  "Node_txH env n meth b =
     (if meth \<noteq> ''POST'' then ((405, ErrorBody ''method''), n)
      else (case b of
              None \<Rightarrow> ((400, ErrorBody ''bad json''), n)
            | Some t0 \<Rightarrow>
                (let t = (if tx_ID t0 = '''' then t0\<lparr>tx_ID := EncodeToString (env_rand env)\<rparr> else t0)
                 in (case Pool_Add (nd_pool n) t of
                       (Some e, p) \<Rightarrow>
                         ((409, ErrorBody (pool_error_msg e)),
                          n\<lparr>nd_pool := p, nd_metrics := (nd_metrics n)\<lparr>mt_Errors := mt_Errors (nd_metrics n) + 1\<rparr>\<rparr>)
                     | (None, p) \<Rightarrow>
                         ((202, TxBody t), audit_append env (n\<lparr>nd_pool := p\<rparr>) ''tx.accept'' (tx_ID t))))))"

definition Node_mempoolH :: "Env \<Rightarrow> Node \<Rightarrow> response" where
  "Node_mempoolH env n = (200, TxsBody (Pool_List (env_pool_ord env) (env_pool_now env) (nd_pool n)))"

definition Node_blockH :: "Node \<Rightarrow> string \<Rightarrow> response" where
  "Node_blockH n path =
     (case ParseUint (TrimPrefix path ''/api/v1/blocks/'') of
        None \<Rightarrow> (400, ErrorBody ''height'')
      | Some h \<Rightarrow>
          (case Repo_Block (nd_repo n) h of
             (b, ok) \<Rightarrow> if \<not> ok then (404, ErrorBody ''not found'') else (200, BlockBody b)))"

text \<open>
  \<open>mine\<close> in the parts that the code runs one after another, each a method call that locks its component
  for itself.  The lock \<open>opMu\<close> keeps out other calls of \<open>mine\<close> and the snapshot handlers only, so other
  requests can come in between all of them; \<open>Node_mine\<close> is the run without interruption.
\<close>

definition mine_list :: "Env \<Rightarrow> Node \<Rightarrow> Tx list" where
  "mine_list env n = Pool_List (env_pool_ord env) (env_pool_now env) (nd_pool n)"

definition apply_one :: "State \<Rightarrow> Tx \<Rightarrow> State" where
  "apply_one s t = (case State_Apply s t of Inl e \<Rightarrow> s | Inr s' \<Rightarrow> s')"

definition apply_all :: "State \<Rightarrow> Tx list \<Rightarrow> State" where
  "apply_all s txs = foldl apply_one s txs"

text \<open>The block over the transactions, the block found as the latest and the root computed before.\<close>

definition make_block :: "time \<Rightarrow> Block \<Rightarrow> string \<Rightarrow> Tx list \<Rightarrow> Block" where
  "make_block now prev r txs =
     (let b = \<lparr>blk_Header = \<lparr>hdr_Height = hdr_Height (blk_Header prev) + 1, hdr_View = 0, hdr_PrevHash = blk_Hash prev,
                 hdr_StateRoot = r, hdr_TxRoot = MerkleRoot txs, hdr_Proposer = ''validator-1'', hdr_Timestamp = Time_Unix now,
                 hdr_Version = 1\<rparr>,
               blk_Transactions = txs, blk_Commit = [], blk_Hash = ''''\<rparr>
      in b\<lparr>blk_Hash := Block_ComputeHash b\<rparr>)"

definition mine_block :: "Env \<Rightarrow> Node \<Rightarrow> Tx list \<Rightarrow> Block" where
  "mine_block env n txs =
     (let prev = Repo_Latest (env_block_ord env) (nd_repo n);
          r = State_Root (env_state_ord env) (apply_all (nd_state n) txs)
      in make_block (env_now env) prev r txs)"

definition mine_commit :: "Env \<Rightarrow> Node \<Rightarrow> Tx list \<Rightarrow> repo_error option \<times> Node" where
  "mine_commit env n txs =
     (case Repo_PutBlock (nd_repo n) (mine_block env n txs) of
        (e, r) \<Rightarrow> (e, n\<lparr>nd_state := apply_all (nd_state n) txs, nd_repo := r\<rparr>))"

definition drop_mined :: "Node \<Rightarrow> Tx list \<Rightarrow> Node" where
  "drop_mined n txs = n\<lparr>nd_pool := Pool_Remove (nd_pool n) (map tx_ID txs)\<rparr>"

definition count_block :: "Node \<Rightarrow> Node" where
  "count_block n = n\<lparr>nd_metrics := (nd_metrics n)\<lparr>mt_Blocks := mt_Blocks (nd_metrics n) + 1\<rparr>\<rparr>"

definition log_block :: "Env \<Rightarrow> Node \<Rightarrow> Height \<Rightarrow> Node" where
  "log_block env n h = audit_append env n ''block.commit'' (fmt_d (uint h))"

definition mine_remove :: "Env \<Rightarrow> Node \<Rightarrow> Tx list \<Rightarrow> Height \<Rightarrow> Node" where
  "mine_remove env n txs h = log_block env (count_block (drop_mined n txs)) h"

definition Node_mine :: "Env \<Rightarrow> Node \<Rightarrow> response \<times> Node" where
  "Node_mine env n =
     (let txs = mine_list env n; b = mine_block env n txs
      in (case mine_commit env n txs of
            (Some BlockExists, n1) \<Rightarrow> ((409, ErrorBody ''block exists''), n1)
          | (None, n1) \<Rightarrow> ((201, BlockBody b), mine_remove env n1 txs (hdr_Height (blk_Header b)))))"

definition Node_syncH :: "Env \<Rightarrow> Node \<Rightarrow> response" where
  "Node_syncH env n = (202, SyncBody (latest_height env n) (length (Manager_List (env_peer_ord env) (nd_peers n))))"

definition Node_snapH :: "Env \<Rightarrow> Node \<Rightarrow> string \<Rightarrow> response \<times> Node" where
  "Node_snapH env n meth =
     (if meth = ''GET'' then ((200, SnapshotsBody (Repo_Snapshots (env_snap_ord env) (nd_repo n))), n)
      else let i = ''snap-'' @ fmt_d (sint (env_nano env));
               s = \<lparr>snap_ID = i, snap_Height = latest_height env n, snap_Root = State_Root (env_state_ord env) (nd_state n),
                    snap_Data = State_Data (nd_state n), snap_CreatedAt = env_now env, snap_Verified = False\<rparr>
           in ((201, SnapshotBody s),
               audit_append env
                 (n\<lparr>nd_repo := Repo_PutSnapshot (nd_repo n) s, nd_state := snd (State_Snapshot (nd_state n) (snap_Height s))\<rparr>)
                 ''snapshot.create'' i))"

definition Node_snapVerify :: "Env \<Rightarrow> Node \<Rightarrow> string \<Rightarrow> response \<times> Node" where
  "Node_snapVerify env n path =
     (let i = TrimSuffix (TrimPrefix path ''/api/v1/snapshots/'') ''/verify''
      in if i = '''' then ((400, ErrorBody ''snapshot id required''), n)
         else (case Repo_Snapshot (nd_repo n) i of
                 (s, ok) \<Rightarrow>
                   if \<not> ok then ((404, ErrorBody ''not found''), n)
                   else let s' = s\<lparr>snap_Verified := (snap_Root s = State_Root (env_state_ord env) (nd_state n))\<rparr>
                        in ((200, VerifiedBody i (snap_Verified s')), n\<lparr>nd_repo := Repo_PutSnapshot (nd_repo n) s'\<rparr>)))"

definition Node_rollback :: "Env \<Rightarrow> Node \<Rightarrow> response" where
  "Node_rollback env n = (200, RollbackBody (latest_height env n))"

definition Node_checkpointsH :: "Node \<Rightarrow> response" where
  "Node_checkpointsH n = (200, BlocksBody (nd_checkpoints n))"

definition Node_proofH :: "Env \<Rightarrow> Node \<Rightarrow> string \<Rightarrow> response" where
  "Node_proofH env n path =
     (200, ProofBody (Build (env_data_ord env) (env_state_ord env) (nd_state n) (TrimPrefix path ''/api/v1/proofs/'')))"

definition Node_consensusH :: "Node \<Rightarrow> response" where
  "Node_consensusH n = (200, ConsensusBody (Engine_Status (nd_bft n)))"

section \<open>Routing\<close>

datatype handler = H_health | H_metrics | H_networks | H_peer | H_tx | H_mempool | H_block | H_mine | H_sync | H_snap
  | H_snapVerify | H_rollback | H_checkpoints | H_proof | H_consensus

definition routes :: "(string \<times> handler) list" where
  "routes =
     [(''/healthz'', H_health), (''/metrics'', H_metrics), (''/api/v1/networks'', H_networks), (''/api/v1/peers'', H_peer),
      (''/api/v1/transactions'', H_tx), (''/api/v1/mempool'', H_mempool), (''/api/v1/blocks/'', H_block),
      (''/api/v1/blocks/mine'', H_mine), (''/api/v1/sync'', H_sync), (''/api/v1/snapshots'', H_snap),
      (''/api/v1/snapshots/'', H_snapVerify), (''/api/v1/rollback-plan'', H_rollback),
      (''/api/v1/light/checkpoints'', H_checkpoints), (''/api/v1/proofs/'', H_proof), (''/api/v1/consensus/views'', H_consensus)]"

text \<open>
  \<open>http.ServeMux\<close>: a pattern that ends in a slash matches the paths below it, any other pattern itself,
  and the longest match wins.
\<close>

definition pattern_matches :: "string \<Rightarrow> string \<Rightarrow> bool" where
  "pattern_matches pat path \<longleftrightarrow>
     (if pat \<noteq> [] \<and> last pat = CHR ''/'' then take (length pat) path = pat else path = pat)"

fun longest_match :: "string \<Rightarrow> (string \<times> handler) option \<Rightarrow> (string \<times> handler) list \<Rightarrow> (string \<times> handler) option" where
  "longest_match path best [] = best"
| "longest_match path best ((pat, h) # rs) =
     longest_match path
       (if pattern_matches pat path \<and> (case best of None \<Rightarrow> True | Some (p, _) \<Rightarrow> length p < length pat)
        then Some (pat, h) else best) rs"

definition route :: "string \<Rightarrow> handler option" where
  "route path = map_option snd (longest_match path None routes)"

text \<open>
  Before the match the multiplexer cleans the path (not for \<open>CONNECT\<close>): empty segments and dots go, a
  double dot takes the segment before it away, a final slash stays.  A path that changes is answered with
  a redirection to the clean one, and a path that is no pattern but becomes one with a final slash with a
  redirection to that.  Paths are taken without percent escapes.
\<close>

fun segments :: "string \<Rightarrow> string list" where
  "segments [] = [[]]"
| "segments (c # s) =
     (if c = CHR ''/'' then [] # segments s
      else case segments s of [] \<Rightarrow> [[c]] | x # xs \<Rightarrow> (c # x) # xs)"

fun clean_segments :: "string list \<Rightarrow> string list \<Rightarrow> string list" where
  "clean_segments out [] = out"
| "clean_segments out (x # xs) =
     (if x = [] \<or> x = ''.'' then clean_segments out xs
      else if x = ''..'' then clean_segments (butlast out) xs
      else clean_segments (out @ [x]) xs)"

definition path_Clean :: "string \<Rightarrow> string" where
  "path_Clean p = (case clean_segments [] (segments p) of [] \<Rightarrow> ''/'' | xs \<Rightarrow> concat (map (\<lambda>x. CHR ''/'' # x) xs))"

definition cleanPath :: "string \<Rightarrow> string" where
  "cleanPath p0 =
     (if p0 = [] then ''/''
      else let p = (if hd p0 \<noteq> CHR ''/'' then CHR ''/'' # p0 else p0); np = path_Clean p
           in if last p = CHR ''/'' \<and> np \<noteq> ''/'' then np @ ''/'' else np)"

datatype routed = Serve handler | Redirect string | NotFound

definition slash_redirect :: "string \<Rightarrow> bool" where
  "slash_redirect path \<longleftrightarrow>
     path \<notin> fst ` set routes \<and> (path = [] \<or> last path \<noteq> CHR ''/'') \<and> path @ ''/'' \<in> fst ` set routes"

definition dispatch :: "string \<Rightarrow> string \<Rightarrow> routed" where
  "dispatch meth path =
     (let p = (if meth = ''CONNECT'' then path else cleanPath path)
      in if slash_redirect p then Redirect (cleanPath path @ ''/'')
         else if p \<noteq> path then Redirect p
         else case route p of None \<Rightarrow> NotFound | Some h \<Rightarrow> Serve h)"

record http_request =
  http_Method :: string
  http_Path :: string
  http_Body :: bytes

text \<open>
  A whole request, on its own: the middleware, the multiplexer and the handler.  \<open>dp\<close> and \<open>dt\<close> decode
  the JSON of a peer and of a transaction.
\<close>

definition Node_serve ::
  "(bytes \<Rightarrow> Peer option) \<Rightarrow> (bytes \<Rightarrow> Tx option) \<Rightarrow> Env \<Rightarrow> Node \<Rightarrow> http_request \<Rightarrow> response \<times> Node" where
  "Node_serve dp dt env n0 req =
     (let n = middleware n0
      in (case dispatch (http_Method req) (http_Path req) of
            NotFound \<Rightarrow> ((404, ErrorBody ''404 page not found''), n)
          | Redirect path \<Rightarrow> ((301, RedirectBody path), n)
          | Serve h \<Rightarrow>
              (case h of
                 H_health \<Rightarrow> (Node_health env n, n)
               | H_metrics \<Rightarrow> (Node_metricsH env n, n)
               | H_networks \<Rightarrow> (Node_networks n, n)
               | H_peer \<Rightarrow> Node_peerH env n (http_Method req) (dp (http_Body req))
               | H_tx \<Rightarrow> Node_txH env n (http_Method req) (dt (http_Body req))
               | H_mempool \<Rightarrow> (Node_mempoolH env n, n)
               | H_block \<Rightarrow> (Node_blockH n (http_Path req), n)
               | H_mine \<Rightarrow> Node_mine env n
               | H_sync \<Rightarrow> (Node_syncH env n, n)
               | H_snap \<Rightarrow> Node_snapH env n (http_Method req)
               | H_snapVerify \<Rightarrow> Node_snapVerify env n (http_Path req)
               | H_rollback \<Rightarrow> (Node_rollback env n, n)
               | H_checkpoints \<Rightarrow> (Node_checkpointsH n, n)
               | H_proof \<Rightarrow> (Node_proofH env n (http_Path req), n)
               | H_consensus \<Rightarrow> (Node_consensusH n, n))))"

section \<open>The node as a transition system\<close>

text \<open>
  Where the holder of \<open>opMu\<close> is.  \<open>mine\<close> has listed the transactions; is applying them (with the latest
  block it read, the transactions applied and those to come); has computed the root; has stored the block;
  has cleaned the pool; has counted the block.  A snapshot has its height; its root; its data; is
  stored; is kept by the state machine.  A verification has read the snapshot; has compared the root.
\<close>

datatype op_phase =
    Idle
  | Listed "Tx list"
  | Applying "Tx list" Block "Tx list" "Tx list"
  | Rooted "Tx list" Block string
  | Committed "Tx list" Height
  | Removed Height
  | Counted Height
  | SnapAt string Height
  | SnapRooted string Height string
  | SnapMade Snapshot
  | SnapStored Snapshot
  | SnapKept string
  | Verifying Snapshot
  | Verified Snapshot

text \<open>What a handler of transactions has left to do after the pool has answered: log the acceptance of an
  identifier, or count the refusal.  Any number of these handlers can be under way.\<close>

datatype pending = Accepted string | Refused

definition tx_finish :: "Env \<Rightarrow> Node \<Rightarrow> pending \<Rightarrow> Node" where
  "tx_finish env n p =
     (case p of
        Accepted i \<Rightarrow> audit_append env n ''tx.accept'' i
      | Refused \<Rightarrow> n\<lparr>nd_metrics := (nd_metrics n)\<lparr>mt_Errors := mt_Errors (nd_metrics n) + 1\<rparr>\<rparr>)"

definition snap_id :: "Env \<Rightarrow> string" where
  "snap_id env = ''snap-'' @ fmt_d (sint (env_nano env))"

text \<open>
  The requests as steps, interleaved as the locks allow: a step is one method call on one component, which
  holds that component's lock, or one atomic counter.  A handler that only reads takes no step.  The length
  of a Go map is an \<open>int\<close>, which bounds the number of blocks.
\<close>

type_synonym config = "Node \<times> op_phase \<times> pending multiset"

inductive node_step :: "config \<Rightarrow> config \<Rightarrow> bool" where
  step_middleware: "node_step (n, m, ps) (middleware n, m, ps)"
| step_tx_add:
    "t = (if tx_ID t0 = '''' then t0\<lparr>tx_ID := EncodeToString (env_rand (env :: Env))\<rparr> else t0) \<Longrightarrow>
     Pool_Add (nd_pool n) t = (e, p) \<Longrightarrow>
     node_step (n, m, ps) (n\<lparr>nd_pool := p\<rparr>, m, add_mset (if e = None then Accepted (tx_ID t) else Refused) ps)"
| step_tx_finish: "p \<in># ps \<Longrightarrow> node_step (n, m, ps) (tx_finish env n p, m, ps - {#p#})"
| step_peerH: "Node_peerH env n meth b = (r, n') \<Longrightarrow> node_step (n, m, ps) (n', m, ps)"
| step_mine_list:
    "iterates (env_pool_ord env) (pl_tx (nd_pool n)) \<Longrightarrow> node_step (n, Idle, ps) (n, Listed (mine_list env n), ps)"
| step_mine_latest:
    "iterates bord (rp_blocks (nd_repo n)) \<Longrightarrow>
     node_step (n, Listed txs, ps) (n, Applying txs (Repo_Latest bord (nd_repo n)) [] txs, ps)"
| step_mine_apply:
    "node_step (n, Applying txs prev dn (t # todo), ps)
       (n\<lparr>nd_state := apply_one (nd_state n) t\<rparr>, Applying txs prev (dn @ [t]) todo, ps)"
| step_mine_root:
    "iterates sord (st_data (nd_state n)) \<Longrightarrow>
     node_step (n, Applying txs prev dn [], ps) (n, Rooted txs prev (State_Root sord (nd_state n)), ps)"
| step_mine_put:
    "maplen (rp_blocks (nd_repo n)) < 2 ^ 63 - 1 \<Longrightarrow>
     Repo_PutBlock (nd_repo n) (make_block now prev r txs) = (e, rp) \<Longrightarrow>
     node_step (n, Rooted txs prev r, ps)
       (n\<lparr>nd_repo := rp\<rparr>, if e = None then Committed txs (hdr_Height (blk_Header prev) + 1) else Idle, ps)"
| step_mine_remove: "node_step (n, Committed txs h, ps) (drop_mined n txs, Removed h, ps)"
| step_mine_count: "node_step (n, Removed h, ps) (count_block n, Counted h, ps)"
| step_mine_log: "node_step (n, Counted h, ps) (log_block env n h, Idle, ps)"
| step_snap_latest:
    "iterates (env_block_ord env) (rp_blocks (nd_repo n)) \<Longrightarrow>
     node_step (n, Idle, ps) (n, SnapAt (snap_id env) (latest_height env n), ps)"
| step_snap_root:
    "iterates sord (st_data (nd_state n)) \<Longrightarrow>
     node_step (n, SnapAt i h, ps) (n, SnapRooted i h (State_Root sord (nd_state n)), ps)"
| step_snap_data:
    "node_step (n, SnapRooted i h r, ps)
       (n, SnapMade \<lparr>snap_ID = i, snap_Height = h, snap_Root = r, snap_Data = State_Data (nd_state n), snap_CreatedAt = now,
                     snap_Verified = False\<rparr>, ps)"
| step_snap_put: "node_step (n, SnapMade s, ps) (n\<lparr>nd_repo := Repo_PutSnapshot (nd_repo n) s\<rparr>, SnapStored s, ps)"
| step_snap_keep:
    "node_step (n, SnapStored s, ps)
       (n\<lparr>nd_state := snd (State_Snapshot (nd_state n) (snap_Height s))\<rparr>, SnapKept (snap_ID s), ps)"
| step_snap_log: "node_step (n, SnapKept i, ps) (audit_append env n ''snapshot.create'' i, Idle, ps)"
| step_verify_get: "Repo_Snapshot (nd_repo n) i = (s, True) \<Longrightarrow> i \<noteq> '''' \<Longrightarrow> node_step (n, Idle, ps) (n, Verifying s, ps)"
| step_verify_root:
    "iterates sord (st_data (nd_state n)) \<Longrightarrow>
     node_step (n, Verifying s, ps) (n, Verified (s\<lparr>snap_Verified := (snap_Root s = State_Root sord (nd_state n))\<rparr>), ps)"
| step_verify_put: "node_step (n, Verified s, ps) (n\<lparr>nd_repo := Repo_PutSnapshot (nd_repo n) s\<rparr>, Idle, ps)"

text \<open>The transactions that \<open>mine\<close> has applied to the state and that no stored block holds yet.\<close>

fun in_flight :: "op_phase \<Rightarrow> Tx list" where
  "in_flight (Applying txs prev dn todo) = dn"
| "in_flight (Rooted txs prev r) = txs"
| "in_flight m = []"

text \<open>
  The invariant of the node: the pool's, the store's and the log's; a verifying chain such that replaying it
  and the transactions in flight gives the data of the state, and each block carries the root of the
  replay up to it; and what \<open>mine\<close> remembers is still so.
\<close>

definition data_root :: "State \<Rightarrow> string" where
  "data_root s = sha256Hex (root_bytes (st_data s))"

definition chain_txs :: "Block list \<Rightarrow> Tx list" where
  "chain_txs bs = concat (map blk_Transactions bs)"

definition roots_replay :: "Block list \<Rightarrow> bool" where
  "roots_replay bs \<longleftrightarrow>
     (\<forall>i < length bs. hdr_StateRoot (blk_Header (bs ! i)) = data_root (apply_all State_New (chain_txs (take (Suc i) bs))))"

fun phase_ok :: "Block list \<Rightarrow> State \<Rightarrow> op_phase \<Rightarrow> bool" where
  "phase_ok bs s (Applying txs prev dn todo) \<longleftrightarrow> txs = dn @ todo \<and> prev = (if bs = [] then zero_Block else last bs)"
| "phase_ok bs s (Rooted txs prev r) \<longleftrightarrow> prev = (if bs = [] then zero_Block else last bs) \<and> r = data_root s"
| "phase_ok bs s (Committed txs h) \<longleftrightarrow> bs \<noteq> [] \<and> blk_Transactions (last bs) = txs"
| "phase_ok bs s m \<longleftrightarrow> True"

definition chain_inv :: "Block list \<Rightarrow> Node \<Rightarrow> op_phase \<Rightarrow> bool" where
  "chain_inv bs n m \<longleftrightarrow>
     chain (nd_repo n) bs \<and> well_linked None bs \<and> length bs < 2 ^ 63 \<and> roots_replay bs \<and>
     st_data (nd_state n) = st_data (apply_all State_New (chain_txs bs @ in_flight m)) \<and> phase_ok bs (nd_state n) m"

definition node_inv :: "config \<Rightarrow> bool" where
  "node_inv c \<longleftrightarrow> (case c of (n, m, ps) \<Rightarrow>
     pool_inv (nd_pool n) \<and> repo_inv (nd_repo n) \<and> log_inv (nd_audit n) \<and> (\<exists>bs. chain_inv bs n m))"

lemma node_invI:
  "pool_inv (nd_pool n) \<Longrightarrow> repo_inv (nd_repo n) \<Longrightarrow> log_inv (nd_audit n) \<Longrightarrow> chain_inv bs n m \<Longrightarrow> node_inv (n, m, ps)"
  by (auto simp: node_inv_def)

lemma node_invD:
  "node_inv (n, m, ps) \<Longrightarrow> pool_inv (nd_pool n)" "node_inv (n, m, ps) \<Longrightarrow> repo_inv (nd_repo n)"
  "node_inv (n, m, ps) \<Longrightarrow> log_inv (nd_audit n)"
  by (simp_all add: node_inv_def)

lemma node_invE:
  assumes "node_inv (n, m, ps)"
  obtains bs where "chain_inv bs n m"
  using assms by (auto simp: node_inv_def)

lemma chain_invD:
  "chain_inv bs n m \<Longrightarrow> chain (nd_repo n) bs" "chain_inv bs n m \<Longrightarrow> well_linked None bs" "chain_inv bs n m \<Longrightarrow> length bs < 2 ^ 63"
  "chain_inv bs n m \<Longrightarrow> length bs < 2 ^ 64" "chain_inv bs n m \<Longrightarrow> phase_ok bs (nd_state n) m"
  by (simp_all add: chain_inv_def)

lemma node_inv_New: "node_inv (NewNode started now c, Idle, ps)"
proof (rule node_invI)
  show "chain_inv [] (NewNode started now c) Idle"
    by (simp add: chain_inv_def chain_def NewNode_def Repo_New_def heights_upto_def roots_replay_def chain_txs_def apply_all_def)
qed (simp_all add: NewNode_def inv_intros)

section \<open>Blocks of the miner\<close>

lemma make_block_fields [simp]:
  "blk_Transactions (make_block now prev r txs) = txs" "hdr_TxRoot (blk_Header (make_block now prev r txs)) = MerkleRoot txs"
  "hdr_StateRoot (blk_Header (make_block now prev r txs)) = r"
  "hdr_Height (blk_Header (make_block now prev r txs)) = hdr_Height (blk_Header prev) + 1"
  "hdr_PrevHash (blk_Header (make_block now prev r txs)) = blk_Hash prev"
  "blk_Hash (make_block now prev r txs) = Header_Hash (blk_Header (make_block now prev r txs))"
  by (simp_all add: make_block_def Let_def Block_ComputeHash_def)

lemma mine_block_fields:
  "blk_Transactions (mine_block env n txs) = txs"
  "hdr_StateRoot (blk_Header (mine_block env n txs)) = State_Root (env_state_ord env) (apply_all (nd_state n) txs)"
  "hdr_Height (blk_Header (mine_block env n txs)) = latest_height env n + 1"
  by (simp_all add: mine_block_def latest_height_def Let_def)

lemma chain_last_height:
  assumes "repo_inv r" and "chain r bs" and "length bs < 2 ^ 64" and "bs \<noteq> []"
  shows "hdr_Height (blk_Header (last bs)) = of_nat (length bs)"
proof -
  have "mapget (rp_blocks r) (of_nat (Suc (length bs - 1))) = Some (bs ! (length bs - 1))"
    using assms(4) by (intro chain_lookup [OF assms(2,3)]) simp
  with assms(1,4) show ?thesis by (auto simp: repo_inv_def last_conv_nth)
qed

abbreviation latest :: "Block list \<Rightarrow> Block" where
  "latest bs \<equiv> if bs = [] then zero_Block else last bs"

lemma make_block_valid:
  assumes "repo_inv r" and "chain r bs" and "Suc (length bs) < 2 ^ 64"
  shows "hdr_Height (blk_Header (make_block now (latest bs) rt txs)) = of_nat (Suc (length bs))"
    and "ValidateBlock (make_block now (latest bs) rt txs) (last_of None bs) = None"
proof -
  let ?b = "make_block now (latest bs) rt txs"
  have lt: "length bs < 2 ^ 64" using assms(3) by simp
  show h: "hdr_Height (blk_Header ?b) = of_nat (Suc (length bs))"
    using chain_last_height [OF assms(1,2) lt] by (simp add: zero_Block_def zero_Header_def add.commute)
  have "unat (of_nat (Suc (length bs)) :: Height) = Suc (length bs)"
    unfolding unat_of_nat using assms(3) by simp
  then have "hdr_Height (blk_Header ?b) \<noteq> 0" unfolding h by auto
  moreover have "blk_Hash ?b \<noteq> ''''" by (simp add: Header_Hash_eq)
  ultimately show "ValidateBlock ?b (last_of None bs) = None"
    by (simp add: last_of_def del: make_block_fields(6))
qed

section \<open>The state as a replay of the chain\<close>

lemma apply_all_append: "apply_all s (xs @ ys) = apply_all (apply_all s xs) ys"
  by (simp add: apply_all_def)

lemma apply_all_simps [simp]: "apply_all s [] = s" "apply_all s (t # ts) = apply_all (apply_one s t) ts"
  by (simp_all add: apply_all_def)

text \<open>What a transaction does to the data depends on the data only, not on the kept versions.\<close>

lemma apply_all_data: "st_data s = st_data s' \<Longrightarrow> st_data (apply_all s txs) = st_data (apply_all s' txs)"
proof (induction txs arbitrary: s s')
  case (Cons t txs)
  have "st_data (apply_one s t) = st_data (apply_one s' t)"
    using Cons.prems by (simp add: apply_one_def State_Apply_def)
  from Cons.IH [OF this] show ?case by simp
qed simp

lemma chain_txs_snoc [simp]: "chain_txs (bs @ [b]) = chain_txs bs @ blk_Transactions b"
  by (simp add: chain_txs_def)

lemma data_root_cong: "st_data s = st_data s' \<Longrightarrow> data_root s = data_root s'"
  by (simp add: data_root_def)

lemma State_Root_data_root: "iterates ord (st_data s) \<Longrightarrow> State_Root ord s = data_root s"
  by (simp add: State_Root_def data_root_def root_eq)

lemma roots_replayD:
  "roots_replay bs \<Longrightarrow> i < length bs \<Longrightarrow>
   hdr_StateRoot (blk_Header (bs ! i)) = data_root (apply_all State_New (chain_txs (take (Suc i) bs)))"
  by (simp add: roots_replay_def)

lemma roots_replay_snoc:
  "roots_replay bs \<Longrightarrow> hdr_StateRoot (blk_Header b) = data_root (apply_all State_New (chain_txs (bs @ [b]))) \<Longrightarrow>
   roots_replay (bs @ [b])"
  by (auto simp: roots_replay_def nth_append less_Suc_eq)

lemma chain_inv_last_root:
  assumes "chain_inv bs n m" and "bs \<noteq> []" and "in_flight m = []"
  shows "hdr_StateRoot (blk_Header (last bs)) = data_root (nd_state n)"
proof -
  have "hdr_StateRoot (blk_Header (last bs)) = data_root (apply_all State_New (chain_txs bs))"
    using roots_replayD [of bs "length bs - 1"] assms(1,2) by (simp add: chain_inv_def last_conv_nth)
  also have "\<dots> = data_root (nd_state n)"
    by (rule data_root_cong) (use assms(1,3) in \<open>simp add: chain_inv_def\<close>)
  finally show ?thesis .
qed

text \<open>Applying one more transaction of the list in flight.\<close>

lemma chain_inv_apply:
  assumes "chain_inv bs n m" and "s' = apply_all (nd_state n) ts" and "in_flight m' = in_flight m @ ts" and "phase_ok bs s' m'"
  shows "chain_inv bs (n\<lparr>nd_state := s'\<rparr>) m'"
proof -
  have "st_data s' = st_data (apply_all (apply_all State_New (chain_txs bs @ in_flight m)) ts)"
    unfolding assms(2) by (rule apply_all_data) (use assms(1) in \<open>simp add: chain_inv_def\<close>)
  also have "\<dots> = st_data (apply_all State_New (chain_txs bs @ in_flight m'))"
    by (simp add: assms(3) flip: apply_all_append)
  finally show ?thesis using assms(1,4) by (simp add: chain_inv_def)
qed

text \<open>Storing the block of the transactions in flight.\<close>

lemma chain_inv_put:
  assumes inv: "chain_inv bs n (Rooted txs prev rt)" and repo: "repo_inv (nd_repo n)"
    and len: "maplen (rp_blocks (nd_repo n)) < 2 ^ 63 - 1"
  shows "\<exists>rp. Repo_PutBlock (nd_repo n) (make_block now prev rt txs) = (None, rp) \<and> repo_inv rp \<and>
              chain_inv (bs @ [make_block now prev rt txs]) (n\<lparr>nd_repo := rp\<rparr>) (Committed txs h)"
proof -
  let ?b = "make_block now prev rt txs"
  note c = chain_invD(1) [OF inv]
  have l: "Suc (length bs) < 2 ^ 63" using len c by (simp add: chain_def)
  then have l': "Suc (length bs) < 2 ^ 64" by simp
  have prev: "prev = latest bs" and rt: "rt = data_root (nd_state n)" using chain_invD(5) [OF inv] by simp_all
  note valid = make_block_valid [OF repo c l', of now rt txs, folded prev]
  from chain_PutBlock [OF c l' valid(1)] obtain rp where
    rp: "Repo_PutBlock (nd_repo n) ?b = (None, rp)" "chain rp (bs @ [?b])" by blast
  have "repo_inv rp" using repo_inv_PutBlock [OF repo, of ?b] rp(1) by simp
  moreover have "well_linked None (bs @ [?b])"
    unfolding well_linked_append using chain_invD(2) [OF inv] valid(2) by simp
  moreover have data: "st_data (nd_state n) = st_data (apply_all State_New (chain_txs bs @ txs))"
    using inv by (simp add: chain_inv_def)
  moreover have "roots_replay (bs @ [?b])"
  proof (rule roots_replay_snoc)
    show "roots_replay bs" using inv by (simp add: chain_inv_def)
    show "hdr_StateRoot (blk_Header ?b) = data_root (apply_all State_New (chain_txs (bs @ [?b])))"
      unfolding chain_txs_snoc make_block_fields(1,3) rt by (rule data_root_cong [OF data])
  qed
  ultimately have "chain_inv (bs @ [?b]) (n\<lparr>nd_repo := rp\<rparr>) (Committed txs h)"
    using rp(2) l unfolding chain_inv_def by simp
  with \<open>repo_inv rp\<close> rp(1) show ?thesis by blast
qed

section \<open>Every step keeps the invariant\<close>

text \<open>A change that leaves the blocks, the state's data and the transactions in flight alone.\<close>

lemma chain_inv_same:
  assumes "chain_inv bs n m" and "rp_blocks (nd_repo n') = rp_blocks (nd_repo n)"
    and "st_data (nd_state n') = st_data (nd_state n)" and "in_flight m' = in_flight m" and "phase_ok bs (nd_state n') m'"
  shows "chain_inv bs n' m'"
  using assms by (simp add: chain_inv_def chain_def)

lemma phase_ok_cong: "st_data s = st_data s' \<Longrightarrow> phase_ok bs s m = phase_ok bs s' m"
  by (cases m) (simp_all add: data_root_def)

lemma node_inv_same:
  assumes "node_inv (n, m, ps)" and "rp_blocks (nd_repo n') = rp_blocks (nd_repo n)"
    and "st_data (nd_state n') = st_data (nd_state n)" and "pool_inv (nd_pool n')" and "log_inv (nd_audit n')"
    and "in_flight m' = in_flight m" and "\<And>bs. chain_inv bs n m \<Longrightarrow> phase_ok bs (nd_state n') m'"
  shows "node_inv (n', m', ps')"
proof -
  from assms(1) obtain bs where bs: "chain_inv bs n m" by (rule node_invE)
  have "repo_inv (nd_repo n')" using node_invD(2) [OF assms(1)] assms(2) by (simp add: repo_inv_def)
  moreover have "chain_inv bs n' m'" by (rule chain_inv_same [OF bs assms(2,3,6) assms(7) [OF bs]])
  ultimately show ?thesis using assms(4,5) by (intro node_invI)
qed

text \<open>The special case of a step that leaves the phase alone.\<close>

lemma node_inv_same_phase:
  assumes "node_inv (n, m, ps)" and "rp_blocks (nd_repo n') = rp_blocks (nd_repo n)"
    and "st_data (nd_state n') = st_data (nd_state n)" and "pool_inv (nd_pool n')" and "log_inv (nd_audit n')"
  shows "node_inv (n', m, ps')"
  by (rule node_inv_same [OF assms refl]) (use assms(3) phase_ok_cong in \<open>blast dest: chain_invD(5)\<close>)

lemma audit_append_simps [simp]:
  "nd_pool (audit_append env n a d) = nd_pool n" "nd_repo (audit_append env n a d) = nd_repo n"
  "nd_state (audit_append env n a d) = nd_state n" "nd_metrics (audit_append env n a d) = nd_metrics n"
  "log_inv (nd_audit n) \<Longrightarrow> log_inv (nd_audit (audit_append env n a d))"
  by (simp_all add: audit_append_def inv_intros)

lemma mine_part_simps [simp]:
  "nd_pool (drop_mined n txs) = Pool_Remove (nd_pool n) (map tx_ID txs)" "nd_repo (drop_mined n txs) = nd_repo n"
  "nd_state (drop_mined n txs) = nd_state n" "nd_audit (drop_mined n txs) = nd_audit n" "nd_metrics (drop_mined n txs) = nd_metrics n"
  "nd_pool (count_block n) = nd_pool n" "nd_repo (count_block n) = nd_repo n" "nd_state (count_block n) = nd_state n"
  "nd_audit (count_block n) = nd_audit n"
  "nd_pool (log_block env n h) = nd_pool n" "nd_repo (log_block env n h) = nd_repo n"
  "nd_state (log_block env n h) = nd_state n" "nd_metrics (log_block env n h) = nd_metrics n"
  "log_inv (nd_audit n) \<Longrightarrow> log_inv (nd_audit (log_block env n h))"
  by (simp_all add: drop_mined_def count_block_def log_block_def)

lemma middleware_simps [simp]:
  "nd_pool (middleware n) = nd_pool n" "nd_repo (middleware n) = nd_repo n" "nd_state (middleware n) = nd_state n"
  "nd_audit (middleware n) = nd_audit n" "mine_list env (middleware n) = mine_list env n"
  by (simp_all add: middleware_def mine_list_def)

lemma tx_finish_simps [simp]:
  "nd_pool (tx_finish env n p) = nd_pool n" "nd_repo (tx_finish env n p) = nd_repo n" "nd_state (tx_finish env n p) = nd_state n"
  "log_inv (nd_audit n) \<Longrightarrow> log_inv (nd_audit (tx_finish env n p))"
  by (simp_all add: tx_finish_def split: pending.splits)

lemma peerH_simps:
  assumes "Node_peerH env n meth b = (r, n')"
  shows "nd_pool n' = nd_pool n" "nd_repo n' = nd_repo n" "nd_state n' = nd_state n" "nd_audit n' = nd_audit n" "nd_metrics n' = nd_metrics n"
  using assms by (auto simp: Node_peerH_def split: if_splits option.splits)

lemma snapshot_data [simp]:
  "st_data (snd (State_Snapshot s h)) = st_data s" "rp_blocks (Repo_PutSnapshot r s') = rp_blocks r"
  by (simp_all add: State_Snapshot_def Repo_PutSnapshot_def)

lemma node_inv_step:
  assumes "node_inv c" and "node_step c c'"
  shows "node_inv c'"
  using assms(2,1)
proof (induction rule: node_step.induct)
  case (step_tx_add t t0 env n e p m ps)
  then have "pool_inv p" using pool_inv_Add [OF node_invD(1) [OF step_tx_add(3)], of t] by simp
  then show ?case by (intro node_inv_same_phase [OF step_tx_add(3)]) (simp_all add: node_invD [OF step_tx_add(3)])
next
  case (step_peerH env n meth b r n' m ps)
  show ?case
    by (rule node_inv_same_phase [OF step_peerH(2)])
      (simp_all add: peerH_simps [OF step_peerH(1)] node_invD [OF step_peerH(2)])
next
  case (step_mine_latest bord n txs ps)
  note repo = node_invD(2) [OF step_mine_latest(2)]
  show ?case
  proof (rule node_inv_same [OF step_mine_latest(2)])
    fix bs assume "chain_inv bs n (Listed txs)"
    then show "phase_ok bs (nd_state n) (Applying txs (Repo_Latest bord (nd_repo n)) [] txs)"
      using Latest_chain [OF repo step_mine_latest(1) chain_invD(1,4)] by simp
  qed (simp_all add: node_invD [OF step_mine_latest(2)])
next
  case (step_mine_apply n txs prev dn t todo ps)
  note inv = step_mine_apply
  from inv obtain bs where bs: "chain_inv bs n (Applying txs prev dn (t # todo))" by (rule node_invE)
  have "chain_inv bs (n\<lparr>nd_state := apply_one (nd_state n) t\<rparr>) (Applying txs prev (dn @ [t]) todo)"
    by (rule chain_inv_apply [OF bs, of _ "[t]"]) (use chain_invD(5) [OF bs] in simp_all)
  then show ?case by (intro node_invI) (simp_all add: node_invD [OF inv])
next
  case (step_mine_root sord n txs prev dn ps)
  show ?case
  proof (rule node_inv_same [OF step_mine_root(2)])
    from node_invE [OF step_mine_root(2)] obtain bs where "chain_inv bs n (Applying txs prev dn [])" .
    then show "in_flight (Rooted txs prev (State_Root sord (nd_state n))) = in_flight (Applying txs prev dn [])"
      using chain_invD(5) by fastforce
    fix bs assume "chain_inv bs n (Applying txs prev dn [])"
    from chain_invD(5) [OF this] show "phase_ok bs (nd_state n) (Rooted txs prev (State_Root sord (nd_state n)))"
      by (simp add: State_Root_data_root [OF step_mine_root(1)])
  qed (simp_all add: node_invD [OF step_mine_root(2)])
next
  case (step_mine_put n now prev r txs e rp ps)
  from node_invE [OF step_mine_put(3)] obtain bs where bs: "chain_inv bs n (Rooted txs prev r)" .
  from chain_inv_put [OF bs node_invD(2) [OF step_mine_put(3)] step_mine_put(1), of now] step_mine_put(2)
  have put: "e = None" "repo_inv rp"
    "chain_inv (bs @ [make_block now prev r txs]) (n\<lparr>nd_repo := rp\<rparr>) (Committed txs h)" for h by auto
  have "node_inv (n\<lparr>nd_repo := rp\<rparr>, Committed txs (hdr_Height (blk_Header prev) + 1), ps)"
    by (rule node_invI [OF _ _ _ put(3)]) (simp_all add: put(2) node_invD [OF step_mine_put(3)])
  then show ?case by (simp add: put(1))
next
  case (step_mine_remove n txs h ps)
  show ?case
    by (rule node_inv_same [OF step_mine_remove]) (simp_all add: node_invD [OF step_mine_remove] pool_inv_Remove)
qed (((rule node_inv_same, assumption); simp add: node_invD chain_invD(5))+)

interpretation node: invariant_system "\<lambda>s. \<exists>started now c. s = (NewNode started now c, Idle, {#})" node_step node_inv
  by unfold_locales (auto intro: node_inv_New node_inv_step)

section \<open>What the node guarantees\<close>

definition state_root :: "Node \<Rightarrow> string" where
  "state_root n = data_root (nd_state n)"

lemma State_Root_state_root: "iterates ord (st_data (nd_state n)) \<Longrightarrow> State_Root ord (nd_state n) = state_root n"
  by (simp add: state_root_def State_Root_data_root)

text \<open>\<open>mine\<close> up to the stored block, from any state the node can be in when it takes \<open>opMu\<close>.\<close>

lemma node_inv_mine_commit:
  assumes inv: "node_inv (n, Idle, ps)"
    and "iterates (env_block_ord env) (rp_blocks (nd_repo n))"
    and "iterates (env_state_ord env) (st_data (apply_all (nd_state n) txs))"
    and "maplen (rp_blocks (nd_repo n)) < 2 ^ 63 - 1"
  shows "\<exists>n' bs. mine_commit env n txs = (None, n') \<and> node_inv (n', Committed txs h, ps) \<and> nd_pool n' = nd_pool n \<and>
           nd_state n' = apply_all (nd_state n) txs \<and> chain (nd_repo n') (bs @ [mine_block env n txs])"
proof -
  let ?s = "apply_all (nd_state n) txs"
  let ?n = "n\<lparr>nd_state := ?s\<rparr>"
  from node_invE [OF inv] obtain bs where bs: "chain_inv bs n Idle" .
  have "chain_inv bs ?n (Rooted txs (latest bs) (data_root ?s))"
    by (rule chain_inv_apply [OF bs refl]) simp_all
  from chain_inv_put [OF this] node_invD(2) [OF inv] assms(4) obtain rp where
    rp: "Repo_PutBlock (nd_repo n) (make_block (env_now env) (latest bs) (data_root ?s) txs) = (None, rp)" "repo_inv rp"
      "chain_inv (bs @ [make_block (env_now env) (latest bs) (data_root ?s) txs]) (?n\<lparr>nd_repo := rp\<rparr>) (Committed txs h)"
    by force
  have "mine_block env n txs = make_block (env_now env) (latest bs) (data_root ?s) txs"
    using Latest_chain [OF node_invD(2) [OF inv] assms(2) chain_invD(1,4) [OF bs]]
    by (simp add: mine_block_def Let_def State_Root_data_root [OF assms(3)])
  with rp show ?thesis
    using node_invD [OF inv] chain_invD(1) [OF rp(3)]
    by (intro exI [of _ "?n\<lparr>nd_repo := rp\<rparr>"] exI [of _ bs]) (auto simp: mine_commit_def intro: node_invI)
qed

text \<open>The parts of \<open>mine\<close> as single steps.\<close>

lemma apply_steps:
  "node_step\<^sup>*\<^sup>* (n, Applying txs prev dn todo, ps) (n\<lparr>nd_state := apply_all (nd_state n) todo\<rparr>, Applying txs prev (dn @ todo) [], ps)"
proof (induction todo arbitrary: n dn)
  case (Cons t todo)
  have "node_step\<^sup>*\<^sup>* (n\<lparr>nd_state := apply_one (nd_state n) t\<rparr>, Applying txs prev (dn @ [t]) todo, ps)
      (n\<lparr>nd_state := apply_all (nd_state n) (t # todo)\<rparr>, Applying txs prev (dn @ t # todo) [], ps)"
    using Cons.IH [of "n\<lparr>nd_state := apply_one (nd_state n) t\<rparr>" "dn @ [t]"] by simp
  with step_mine_apply show ?case by (rule converse_rtranclp_into_rtranclp)
qed simp

lemma mine_commit_steps:
  assumes "iterates (env_pool_ord env) (pl_tx (nd_pool n))" and "iterates (env_block_ord env) (rp_blocks (nd_repo n))"
    and "iterates (env_state_ord env) (st_data (apply_all (nd_state n) (mine_list env n)))"
    and "maplen (rp_blocks (nd_repo n)) < 2 ^ 63 - 1"
    and "mine_commit env n (mine_list env n) = (e, n1)"
  shows "node_step\<^sup>*\<^sup>* (n, Idle, ps) (n1, if e = None then Committed (mine_list env n) (latest_height env n + 1) else Idle, ps)"
proof -
  let ?txs = "mine_list env n" and ?prev = "Repo_Latest (env_block_ord env) (nd_repo n)"
  let ?n = "n\<lparr>nd_state := apply_all (nd_state n) ?txs\<rparr>"
  let ?r = "State_Root (env_state_ord env) (nd_state ?n)"
  have "node_step\<^sup>*\<^sup>* (n, Idle, ps) (n, Applying ?txs ?prev [] ?txs, ps)"
    by (rule converse_rtranclp_into_rtranclp, rule step_mine_list [OF assms(1)])
      (rule r_into_rtranclp, rule step_mine_latest [OF assms(2)])
  also have "node_step\<^sup>*\<^sup>* (n, Applying ?txs ?prev [] ?txs, ps) (?n, Applying ?txs ?prev ?txs [], ps)"
    using apply_steps [of n ?txs ?prev "[]"] by simp
  also have "node_step (?n, Applying ?txs ?prev ?txs [], ps) (?n, Rooted ?txs ?prev ?r, ps)"
    using assms(3) by (intro step_mine_root) simp
  also have "node_step (?n, Rooted ?txs ?prev ?r, ps)
      (n1, if e = None then Committed ?txs (latest_height env n + 1) else Idle, ps)"
  proof -
    obtain rp where rp: "Repo_PutBlock (nd_repo ?n) (make_block (env_now env) ?prev ?r ?txs) = (e, rp)" "n1 = ?n\<lparr>nd_repo := rp\<rparr>"
      using assms(5) by (auto simp: mine_commit_def mine_block_def Let_def split: prod.splits)
    have "maplen (rp_blocks (nd_repo ?n)) < 2 ^ 63 - 1" using assms(4) by simp
    from step_mine_put [OF this rp(1)] show ?thesis unfolding rp(2) latest_height_def .
  qed
  finally show ?thesis .
qed

definition example_env :: Env where
  "example_env = \<lparr>env_pool_ord = [], env_pool_now = (\<lambda>i. 0), env_block_ord = [], env_state_ord = [], env_data_ord = [],
     env_peer_ord = [], env_snap_ord = [], env_now = 0, env_nano = 7, env_log_nano = 0, env_log_now = 0, env_rand = []\<rparr>"

abbreviation fresh :: Node where
  "fresh \<equiv> NewNode 0 0 DefaultConfig"

lemma fresh_facts:
  "iterates [] (pl_tx (nd_pool fresh))" "iterates [] (rp_blocks (nd_repo fresh))" "iterates [] (st_data (nd_state fresh))"
  "mine_list example_env fresh = []" "maplen (rp_blocks (nd_repo fresh)) = 0"
  by (simp_all add: NewNode_def Pool_New_def Repo_New_def State_New_def iterates_def mine_list_def Pool_List_def example_env_def)

lemma fresh_mined:
  "\<exists>n h. node_step\<^sup>*\<^sup>* (fresh, Idle, {#}) (n, Committed [] h, {#}) \<and> rp_blocks (nd_repo n) \<noteq> fmempty"
proof -
  have ords: "iterates (env_pool_ord example_env) (pl_tx (nd_pool fresh))"
    "iterates (env_block_ord example_env) (rp_blocks (nd_repo fresh))"
    "iterates (env_state_ord example_env) (st_data (apply_all (nd_state fresh) (mine_list example_env fresh)))"
    "iterates (env_state_ord example_env) (st_data (apply_all (nd_state fresh) []))"
    and len: "maplen (rp_blocks (nd_repo fresh)) < 2 ^ 63 - 1"
    unfolding fresh_facts(4) using fresh_facts by (simp_all add: example_env_def)
  from node_inv_mine_commit [OF node_inv_New ords(2,4) len] obtain n' bs where
    n': "mine_commit example_env fresh [] = (None, n')" "chain (nd_repo n') (bs @ [mine_block example_env fresh []])"
    by blast
  have "node_step\<^sup>*\<^sup>* (fresh, Idle, {#}) (n', Committed [] (latest_height example_env fresh + 1), {#})"
    using mine_commit_steps [OF ords(1-3) len, unfolded fresh_facts(4), OF n'(1)] by simp
  moreover have "rp_blocks (nd_repo n') \<noteq> fmempty" using n'(2) by (auto simp: chain_def)
  ultimately show ?thesis by blast
qed

text \<open>C3: in every state the node can reach, whatever requests run in whatever interleaving of their calls,
  the chain in the store verifies, and the latest block carries the root of the current state whenever
  \<open>mine\<close> has not applied transactions that it has not stored yet.\<close>

theorem reachable_chain_verified:
  assumes "node_step\<^sup>*\<^sup>* (NewNode started now c, Idle, {#}) (n, m, ps)"
    and "iterates ord (rp_blocks (nd_repo n))" and "iterates sord (st_data (nd_state n))"
  shows "Repo_VerifyChain (nd_repo n) = None \<and>
         (rp_blocks (nd_repo n) \<noteq> fmempty \<and> in_flight m = [] \<longrightarrow>
            hdr_StateRoot (blk_Header (Repo_Latest ord (nd_repo n))) = State_Root sord (nd_state n))"
proof -
  have inv: "node_inv (n, m, ps)" by (rule node.reachable_inv [OF _ assms(1)]) blast
  then obtain bs where bs: "chain_inv bs n m" by (rule node_invE)
  note chain = chain_invD(1) [OF bs]
  note latest = Latest_chain [OF node_invD(2) [OF inv] assms(2) chain chain_invD(4) [OF bs]]
  have "hdr_StateRoot (blk_Header (last bs)) = State_Root sord (nd_state n)" if "bs \<noteq> []" "in_flight m = []"
    unfolding State_Root_data_root [OF assms(3)] by (rule chain_inv_last_root [OF bs that])
  moreover have "bs \<noteq> []" if "rp_blocks (nd_repo n) \<noteq> fmempty" using that chain by (auto simp: chain_def)
  moreover have "Repo_VerifyChain (nd_repo n) = None" using chain chain_invD(2) [OF bs] by (auto simp: VerifyChain_None)
  ultimately show ?thesis by (simp add: latest)
qed

theorem reachable_chain_verified_witness:
  "\<exists>(n :: Node) ord sord. rp_blocks (nd_repo n) \<noteq> fmempty \<and> Repo_VerifyChain (nd_repo n) = None \<and>
     hdr_StateRoot (blk_Header (Repo_Latest ord (nd_repo n))) = State_Root sord (nd_state n)"
proof -
  obtain n h where n: "node_step\<^sup>*\<^sup>* (fresh, Idle, {#}) (n, Committed [] h, {#})" "rp_blocks (nd_repo n) \<noteq> fmempty"
    using fresh_mined by blast
  obtain ord sord where "iterates ord (rp_blocks (nd_repo n))" "iterates sord (st_data (nd_state n))"
    using iterates_exists by metis
  from reachable_chain_verified [OF n(1) this] n(2) show ?thesis by auto
qed

lemma blockH_height:
  "Node_blockH n (''/api/v1/blocks/'' @ fmt_d (uint h)) =
     (case mapget (rp_blocks (nd_repo n)) h of None \<Rightarrow> (404, ErrorBody ''not found'') | Some b \<Rightarrow> (200, BlockBody b))"
  unfolding Node_blockH_def TrimPrefix_append ParseUint_fmt_d by (simp add: Repo_Block_def mapget0_def split: option.splits)

lemma contents_without_ids:
  assumes "pool_inv p" and "T \<subseteq> contents p"
  shows "{t \<in> contents p. tx_ID t \<notin> tx_ID ` T} = contents p - T"
proof -
  have "t \<in> T" if "t \<in> contents p" "tx_ID t \<in> tx_ID ` T" for t
  proof -
    from that(2) obtain u where u: "u \<in> T" "tx_ID t = tx_ID u" by blast
    with assms(2) have "u \<in> contents p" by blast
    with that(1) u(2) have "t = u" by (simp add: contents_iff [OF assms(1)])
    with u(1) show ?thesis by simp
  qed
  then show ?thesis by blast
qed

text \<open>C2: on a reachable node \<open>mine\<close> succeeds: it answers 201 with a new block one above the latest one, the
  chain with it verifies, the block can be fetched at its height, its header commits to the new state
  and its transactions are exactly the unexpired ones of the pool, which leave it.\<close>

theorem mine_commits_block:
  assumes "node_step\<^sup>*\<^sup>* (NewNode started now c, Idle, {#}) (n, Idle, ps)"
    and "iterates (env_pool_ord env) (pl_tx (nd_pool n))"
    and "iterates (env_block_ord env) (rp_blocks (nd_repo n))"
    and "iterates (env_state_ord env) (st_data (apply_all (nd_state n) (mine_list env n)))"
    and "maplen (rp_blocks (nd_repo n)) < 2 ^ 63 - 1"
  shows "\<exists>b n'. Node_mine env n = ((201, BlockBody b), n') \<and> Repo_VerifyChain (nd_repo n') = None \<and>
           hdr_Height (blk_Header b) = latest_height env n + 1 \<and>
           Node_blockH n' (''/api/v1/blocks/'' @ fmt_d (uint (hdr_Height (blk_Header b)))) = (200, BlockBody b) \<and>
           hdr_StateRoot (blk_Header b) = state_root n' \<and>
           set (blk_Transactions b) = {t \<in> contents (nd_pool n). \<not> expired_unix (Time_Unix (env_pool_now env (tx_ID t))) t} \<and>
           contents (nd_pool n') = contents (nd_pool n) - set (blk_Transactions b)"
proof -
  let ?txs = "mine_list env n" and ?b = "mine_block env n (mine_list env n)"
  have inv: "node_inv (n, Idle, ps)" by (rule node.reachable_inv [OF _ assms(1)]) blast
  from node_inv_mine_commit [OF inv assms(3-5), of 0] obtain n1 bs where
    n1: "mine_commit env n ?txs = (None, n1)" "node_inv (n1, Committed ?txs 0, ps)" "nd_pool n1 = nd_pool n"
      "nd_state n1 = apply_all (nd_state n) ?txs" "chain (nd_repo n1) (bs @ [?b])" by blast
  let ?n = "mine_remove env n1 ?txs (hdr_Height (blk_Header ?b))"
  from node_invE [OF n1(2)] obtain bs' where bs': "chain_inv bs' n1 (Committed ?txs 0)" .
  have len: "length (bs @ [?b]) < 2 ^ 64"
    using n1(5) chain_invD(1,4) [OF bs'] by (simp add: chain_def)
  have "hdr_Height (blk_Header ?b) = of_nat (Suc (length bs))"
    using chain_last_height [OF node_invD(2) [OF n1(2)] n1(5) len] by simp
  then have "mapget (rp_blocks (nd_repo n1)) (hdr_Height (blk_Header ?b)) = Some ?b"
    using chain_lookup [OF n1(5) len, of "length bs"] by simp
  moreover have "nd_repo ?n = nd_repo n1" "nd_pool ?n = Pool_Remove (nd_pool n) (map tx_ID ?txs)" "nd_state ?n = nd_state n1"
    by (simp_all add: mine_remove_def n1(3))
  ultimately have fetch: "Node_blockH ?n (''/api/v1/blocks/'' @ fmt_d (uint (hdr_Height (blk_Header ?b)))) = (200, BlockBody ?b)"
    unfolding blockH_height by simp
  have pool: "pool_inv (nd_pool n)" by (rule node_invD(1) [OF inv])
  have txs: "set ?txs = {t \<in> contents (nd_pool n). \<not> expired_unix (Time_Unix (env_pool_now env (tx_ID t))) t}"
    unfolding mine_list_def by (rule List_listed [OF pool assms(2)])
  have "contents (nd_pool ?n) = {t \<in> contents (nd_pool n). tx_ID t \<notin> tx_ID ` set ?txs}"
    by (simp add: mine_remove_def n1(3) contents_Remove [OF pool])
  also have "\<dots> = contents (nd_pool n) - set ?txs"
    by (rule contents_without_ids [OF pool]) (use txs in blast)
  finally have "contents (nd_pool ?n) = contents (nd_pool n) - set (blk_Transactions ?b)" by (simp add: mine_block_fields)
  moreover have "Node_mine env n = ((201, BlockBody ?b), ?n)" by (simp add: Node_mine_def Let_def n1(1))
  moreover have "Repo_VerifyChain (nd_repo ?n) = None"
    using chain_invD(1,2) [OF bs'] by (auto simp: VerifyChain_None mine_remove_def)
  moreover have "hdr_StateRoot (blk_Header ?b) = state_root ?n"
    using State_Root_state_root [of _ ?n] assms(4) n1(4) by (simp add: mine_block_fields mine_remove_def)
  moreover have "hdr_Height (blk_Header ?b) = latest_height env n + 1" "set (blk_Transactions ?b) = set ?txs"
    by (simp_all add: mine_block_fields)
  ultimately show ?thesis using fetch txs by blast
qed

text \<open>How a transaction can leave the pool in one step.\<close>

lemma Add_loss:
  assumes "pool_inv p0" and add: "Pool_Add p0 u = (e, p)" and "t \<in> contents p0" and "t \<notin> contents p"
  shows "\<exists>u \<in> contents p. same_slot u t \<and> tx_Fee u > tx_Fee t"
proof (cases e)
  case None
  with Pool_Add_ok [OF assms(1)] add have c: "contents p = insert (with_id u) {v \<in> contents p0. \<not> same_slot v (with_id u)}"
    by simp
  with assms(3,4) have slot: "same_slot t (with_id u)" by auto
  have "\<not> (\<exists>v \<in> contents p0. same_slot v (with_id u) \<and> tx_Fee (with_id u) \<le> tx_Fee v)"
    using Pool_Add_spec [OF assms(1), of u] add None by (auto simp: spec_Add_def split: if_splits)
  then have "tx_Fee (with_id u) > tx_Fee t" using assms(3) slot by (simp add: not_le)
  moreover have "same_slot (with_id u) t" using slot by (simp add: same_slot_def)
  ultimately show ?thesis using c by blast
next
  case (Some err)
  then have "contents p = contents p0" using Pool_Add_error [of p0 u err p] add by auto
  with assms(3,4) show ?thesis by simp
qed

text \<open>C4: no accepted transaction is lost: in any interleaving, a transaction leaves the pool only when a
  transaction of the same sender and nonce with a higher fee takes its place, or when the latest block
  holds a transaction with its identifier.\<close>

theorem accepted_tx_not_lost:
  assumes "node_step\<^sup>*\<^sup>* (NewNode started now c, Idle, {#}) (n, m, ps)" and "node_step (n, m, ps) (n', m', ps')"
    and "t \<in> contents (nd_pool n)" and "t \<notin> contents (nd_pool n')"
    and "iterates ord (rp_blocks (nd_repo n'))"
  shows "(\<exists>u \<in> contents (nd_pool n'). same_slot u t \<and> tx_Fee u > tx_Fee t) \<or>
         tx_ID t \<in> tx_ID ` set (blk_Transactions (Repo_Latest ord (nd_repo n')))"
proof -
  have inv: "node_inv (n, m, ps)" by (rule node.reachable_inv [OF _ assms(1)]) blast
  note pool = node_invD(1) [OF inv]
  from assms(2) show ?thesis
  proof (cases rule: node_step.cases)
    case (step_tx_add u u0 env e p)
    then show ?thesis using Add_loss [OF pool _ assms(3)] assms(4) by simp
  next
    case (step_mine_remove txs h)
    then have m: "m = Committed txs h" and n': "n' = drop_mined n txs" by simp_all
    from node_invE [OF inv] obtain bs where bs: "chain_inv bs n m" .
    have "bs \<noteq> []" and txs: "blk_Transactions (last bs) = txs" using chain_invD(5) [OF bs] by (simp_all add: m)
    then have "Repo_Latest ord (nd_repo n') = last bs"
      using Latest_chain [OF node_invD(2) [OF inv] _ chain_invD(1,4) [OF bs]] assms(5) by (simp add: n')
    moreover have "tx_ID t \<in> tx_ID ` set txs"
      using assms(3,4) contents_Remove [OF pool] by (auto simp: n')
    ultimately show ?thesis using txs by simp
  qed (use assms(3,4) in \<open>simp_all add: peerH_simps(1)\<close>)
qed

text \<open>A transaction handler without interruption is its steps one after another.\<close>

lemma txH_steps: "node_step\<^sup>*\<^sup>* (n, m, ps) (snd (Node_txH env n meth b), m, ps)"
proof (cases "meth = ''POST'' \<and> b \<noteq> None")
  case True
  then obtain t0 where b: "b = Some t0" by auto
  define t where "t = (if tx_ID t0 = '''' then t0\<lparr>tx_ID := EncodeToString (env_rand env)\<rparr> else t0)"
  obtain e p where add: "Pool_Add (nd_pool n) t = (e, p)" by fastforce
  let ?p = "if e = None then Accepted (tx_ID t) else Refused"
  have "node_step (n, m, ps) (n\<lparr>nd_pool := p\<rparr>, m, add_mset ?p ps)"
    by (rule step_tx_add [OF t_def add])
  moreover have "node_step (n\<lparr>nd_pool := p\<rparr>, m, add_mset ?p ps) (tx_finish env (n\<lparr>nd_pool := p\<rparr>) ?p, m, ps)"
    using step_tx_finish [of ?p "add_mset ?p ps"] by simp
  moreover have "snd (Node_txH env n meth b) = tx_finish env (n\<lparr>nd_pool := p\<rparr>) ?p"
    using True by (simp add: Node_txH_def b Let_def tx_finish_def add split: option.splits flip: t_def)
  ultimately show ?thesis by (metis r_into_rtranclp rtranclp_trans)
qed (auto simp: Node_txH_def)

definition pooled :: "Tx \<Rightarrow> Node" where
  "pooled t = snd (Node_txH example_env fresh ''POST'' (Some t))"

lemma pooled_facts:
  "node_step\<^sup>*\<^sup>* (fresh, Idle, {#}) (pooled (pool_tx ''a'' ''alice'' 1 5), Idle, {#})"
  "nd_pool (pooled (pool_tx ''a'' ''alice'' 1 5)) = snd (Pool_Add (Pool_New 1000) (pool_tx ''a'' ''alice'' 1 5))"
  "pl_tx (nd_pool (pooled (pool_tx ''a'' ''alice'' 1 5))) = fmupd ''a'' (pool_tx ''a'' ''alice'' 1 5) fmempty"
  "nd_repo (pooled (pool_tx ''a'' ''alice'' 1 5)) = Repo_New"
proof -
  show "node_step\<^sup>*\<^sup>* (fresh, Idle, {#}) (pooled (pool_tx ''a'' ''alice'' 1 5), Idle, {#})"
    unfolding pooled_def by (rule txH_steps)
  show "nd_pool (pooled (pool_tx ''a'' ''alice'' 1 5)) = snd (Pool_Add (Pool_New 1000) (pool_tx ''a'' ''alice'' 1 5))"
    "pl_tx (nd_pool (pooled (pool_tx ''a'' ''alice'' 1 5))) = fmupd ''a'' (pool_tx ''a'' ''alice'' 1 5) fmempty"
    "nd_repo (pooled (pool_tx ''a'' ''alice'' 1 5)) = Repo_New"
    by (simp_all add: pooled_def Node_txH_def NewNode_def Pool_Add_def Pool_New_def pool_tx_def with_id_def mapget0_def Let_def)
qed

text \<open>The choices of the runtime when it mines that transaction; the order of the state is left open.\<close>

abbreviation pooled_env :: "string list \<Rightarrow> Env" where
  "pooled_env sord \<equiv> example_env\<lparr>env_pool_ord := [''a''], env_state_ord := sord\<rparr>"

lemma pooled_mining:
  "mine_list (pooled_env sord) (pooled (pool_tx ''a'' ''alice'' 1 5)) = [pool_tx ''a'' ''alice'' 1 5]"
  "iterates (env_pool_ord (pooled_env sord)) (pl_tx (nd_pool (pooled (pool_tx ''a'' ''alice'' 1 5))))"
  "iterates (env_block_ord (pooled_env sord)) (rp_blocks (nd_repo (pooled (pool_tx ''a'' ''alice'' 1 5))))"
  "maplen (rp_blocks (nd_repo (pooled (pool_tx ''a'' ''alice'' 1 5)))) < 2 ^ 63 - 1"
  unfolding mine_list_def Pool_List_def pooled_facts(3,4)
  by (simp_all add: example_env_def pool_tx_def example_tx_def expired_unix_def iterates_def Repo_New_def)

lemma pooled_contents: "contents (nd_pool (pooled (pool_tx ''a'' ''alice'' 1 5))) = {pool_tx ''a'' ''alice'' 1 5}"
  unfolding contents_image pooled_facts(3) by simp

theorem mine_commits_block_witness:
  "\<exists>env b n'. Node_mine env (pooled (pool_tx ''a'' ''alice'' 1 5)) = ((201, BlockBody b), n') \<and>
     Repo_VerifyChain (nd_repo n') = None \<and> set (blk_Transactions b) = {pool_tx ''a'' ''alice'' 1 5} \<and> contents (nd_pool n') = {}"
proof -
  let ?n = "pooled (pool_tx ''a'' ''alice'' 1 5)"
  obtain sord where "iterates sord (st_data (apply_all (nd_state ?n) [pool_tx ''a'' ''alice'' 1 5]))" using iterates_exists by blast
  then have "iterates (env_state_ord (pooled_env sord)) (st_data (apply_all (nd_state ?n) (mine_list (pooled_env sord) ?n)))"
    by (simp add: pooled_mining(1))
  from mine_commits_block [OF pooled_facts(1) pooled_mining(2,3) this pooled_mining(4)] show ?thesis
    unfolding pooled_contents by (intro exI [of _ "pooled_env sord"]) (auto simp: pool_tx_def example_tx_def expired_unix_def)
qed

theorem accepted_tx_not_lost_witness:
  "\<exists>n'. node_step (pooled (pool_tx ''a'' ''alice'' 1 5), Idle, {#}) (n', Idle, {#Accepted ''b''#}) \<and>
     pool_tx ''a'' ''alice'' 1 5 \<notin> contents (nd_pool n') \<and>
     (\<exists>u \<in> contents (nd_pool n'). same_slot u (pool_tx ''a'' ''alice'' 1 5) \<and> tx_Fee u > 5)"
proof -
  let ?t = "pool_tx ''a'' ''alice'' 1 5" and ?u = "pool_tx ''b'' ''alice'' 1 9"
  let ?n = "pooled ?t"
  let ?add = "Pool_Add (nd_pool ?n) ?u"
  let ?n' = "?n\<lparr>nd_pool := snd ?add\<rparr>"
  have add: "fst ?add = None" and txs: "pl_tx (snd ?add) = fmupd ''b'' ?u fmempty"
    by (simp_all add: pooled_facts(2))
       (simp_all add: Pool_Add_def Pool_New_def pool_tx_def with_id_def mapget0_def fee_of_def maplen_upd fmdrop_fmupd Let_def)
  have step: "node_step (?n, Idle, {#}) (?n', Idle, {#Accepted ''b''#})"
    using step_tx_add [of ?u ?u example_env ?n "fst ?add" "snd ?add" Idle "{#}"] add by (simp add: pool_tx_def)
  have inv: "node_inv (?n, Idle, {#})" by (rule node.reachable_inv [OF _ pooled_facts(1)]) blast
  note inv' = node_inv_step [OF inv step]
  have gone: "?t \<notin> contents (nd_pool ?n')"
    unfolding contents_iff [OF node_invD(1) [OF inv']] by (simp add: txs) (simp add: pool_tx_def)
  have "?t \<in> contents (nd_pool ?n)" by (simp add: pooled_contents)
  moreover have "iterates [] (rp_blocks (nd_repo ?n'))" by (simp add: pooled_facts(4) Repo_New_def iterates_def)
  ultimately have "(\<exists>u \<in> contents (nd_pool ?n'). same_slot u ?t \<and> tx_Fee u > tx_Fee ?t) \<or>
      tx_ID ?t \<in> tx_ID ` set (blk_Transactions (Repo_Latest [] (nd_repo ?n')))"
    using accepted_tx_not_lost [OF pooled_facts(1) step _ gone] by blast
  then have "\<exists>u \<in> contents (nd_pool ?n'). same_slot u ?t \<and> tx_Fee u > 5"
    by (simp add: Repo_Latest_def zero_Block_def pool_tx_def)
  with step gone show ?thesis by blast
qed

section \<open>Snapshots\<close>

text \<open>\<open>snapVerify\<close> of a stored snapshot, asked for by its path.\<close>

lemma snapVerify_stored:
  assumes "mapget (rp_snaps (nd_repo n)) i = Some s" and "i \<noteq> ''''"
  shows "fst (Node_snapVerify env n (''/api/v1/snapshots/'' @ i @ ''/verify'')) =
         (200, VerifiedBody i (snap_Root s = State_Root (env_state_ord env) (nd_state n)))"
  unfolding Node_snapVerify_def TrimPrefix_append TrimSuffix_append using assms
  by (simp add: Repo_Snapshot_def mapget0_def Let_def)

lemma snapH_stored:
  "\<exists>s. mapget (rp_snaps (nd_repo (snd (Node_snapH env n ''POST'')))) (snap_id env) = Some s \<and>
       snap_Root s = State_Root (env_state_ord env) (nd_state n) \<and> snap_Data s = st_data (nd_state n) \<and>
       snap_Height s = latest_height env n"
  and snapH_state: "st_data (nd_state (snd (Node_snapH env n ''POST''))) = st_data (nd_state n)"
  by (simp_all add: Node_snapH_def snap_id_def Let_def Repo_PutSnapshot_def State_Data_def State_Snapshot_def)

text \<open>a snapshot that has just been taken verifies: its \<open>verify\<close> request answers that it is verified, for
  any iteration orders of the two calls; and the state machine can roll back to its height.\<close>

theorem snapshot_verifies:
  assumes "iterates (env_state_ord env) (st_data (nd_state n))" and "iterates (env_state_ord env') (st_data (nd_state n))"
  shows "let n' = snd (Node_snapH env n ''POST'')
         in fst (Node_snapVerify env' n' (''/api/v1/snapshots/'' @ snap_id env @ ''/verify'')) = (200, VerifiedBody (snap_id env) True) \<and>
            (\<exists>s. State_Rollback (nd_state n') (latest_height env n) = Inr s \<and> st_data s = st_data (nd_state n))"
proof -
  let ?n = "snd (Node_snapH env n ''POST'')"
  obtain s where s: "mapget (rp_snaps (nd_repo ?n)) (snap_id env) = Some s"
    "snap_Root s = State_Root (env_state_ord env) (nd_state n)"
    using snapH_stored [of env n] by blast
  have same: "snap_Root s = State_Root (env_state_ord env') (nd_state ?n)"
    using assms by (simp add: s(2) State_Root_def snapH_state root_eq)
  have "snap_id env \<noteq> ''''" by (simp add: snap_id_def)
  note verify = snapVerify_stored [OF s(1) this, of env']
  have "fst (Node_snapVerify env' ?n (''/api/v1/snapshots/'' @ snap_id env @ ''/verify'')) = (200, VerifiedBody (snap_id env) True)"
    unfolding verify by (simp add: same)
  moreover have "\<exists>s. State_Rollback (nd_state ?n) (latest_height env n) = Inr s \<and> st_data s = st_data (nd_state n)"
    by (simp add: Node_snapH_def Let_def State_Snapshot_def State_Rollback_def)
  ultimately show ?thesis by (simp only: Let_def)
qed

theorem snapshot_verifies_witness:
  "fst (Node_snapVerify example_env (snd (Node_snapH example_env fresh ''POST''))
     (''/api/v1/snapshots/'' @ snap_id example_env @ ''/verify'')) = (200, VerifiedBody (snap_id example_env) True)"
  using snapshot_verifies [of example_env fresh example_env] fresh_facts(3) by (simp only: Let_def) (simp add: example_env_def)

text \<open>\<open>verify\<close> compares the snapshot's root with the root of the current state and never looks at the
  snapshot's data: a snapshot whose data were replaced still verifies, and an intact one of an earlier
  state does not.\<close>

theorem snapVerify_ignores_data:
  assumes "mapget (rp_snaps (nd_repo n)) i = Some s" and "i \<noteq> ''''" and "iterates (env_state_ord env) (st_data (nd_state n))"
  shows "fst (Node_snapVerify env n (''/api/v1/snapshots/'' @ i @ ''/verify'')) = (200, VerifiedBody i (snap_Root s = state_root n)) \<and>
         fst (Node_snapVerify env (n\<lparr>nd_repo := (nd_repo n)\<lparr>rp_snaps := fmupd i (s\<lparr>snap_Data := d\<rparr>) (rp_snaps (nd_repo n))\<rparr>\<rparr>)
           (''/api/v1/snapshots/'' @ i @ ''/verify'')) = (200, VerifiedBody i (snap_Root s = state_root n))"
proof -
  let ?n = "n\<lparr>nd_repo := (nd_repo n)\<lparr>rp_snaps := fmupd i (s\<lparr>snap_Data := d\<rparr>) (rp_snaps (nd_repo n))\<rparr>\<rparr>"
  have "mapget (rp_snaps (nd_repo ?n)) i = Some (s\<lparr>snap_Data := d\<rparr>)" by simp
  note verify = snapVerify_stored [OF this assms(2), of env] snapVerify_stored [OF assms(1,2), of env]
  show ?thesis unfolding verify by (simp add: State_Root_state_root [OF assms(3)])
qed

theorem snapVerify_ignores_data_witness:
  "\<exists>s. mapget (rp_snaps (nd_repo (snd (Node_snapH example_env fresh ''POST'')))) (snap_id example_env) = Some s \<and>
     fst (Node_snapVerify example_env (snd (Node_snapH example_env fresh ''POST'')) (''/api/v1/snapshots/'' @ snap_id example_env @ ''/verify'')) =
     (200, VerifiedBody (snap_id example_env) (snap_Root s = state_root (snd (Node_snapH example_env fresh ''POST''))))"
proof -
  let ?n = "snd (Node_snapH example_env fresh ''POST'')"
  obtain s where s: "mapget (rp_snaps (nd_repo ?n)) (snap_id example_env) = Some s"
    using snapH_stored [of example_env fresh] by blast
  have ord: "iterates (env_state_ord example_env) (st_data (nd_state ?n))"
    using fresh_facts(3) unfolding snapH_state by (simp add: example_env_def)
  have "snap_id example_env \<noteq> ''''" by (simp add: snap_id_def)
  from snapVerify_ignores_data [OF s this ord] s show ?thesis by blast
qed

section \<open>Admission\<close>

text \<open>
  The handler of transactions does not validate them, and the chain is not consulted: what \<open>mine\<close>
  cannot apply still enters the block, and a transaction that is in the chain is accepted again.
\<close>

lemma mine_includes_unapplied:
  assumes "pool_inv (nd_pool n)" and "iterates (env_pool_ord env) (pl_tx (nd_pool n))" and "t \<in> contents (nd_pool n)"
    and "\<not> expired_unix (Time_Unix (env_pool_now env (tx_ID t))) t" and "tx_Gas t = 0"
  shows "t \<in> set (blk_Transactions (mine_block env n (mine_list env n))) \<and> State_Apply s t = Inl GasRequired"
proof -
  have "t \<in> set (mine_list env n)" unfolding mine_list_def List_listed [OF assms(1,2)] using assms(3,4) by simp
  with assms(5) show ?thesis by (simp add: mine_block_fields State_Apply_def)
qed

text \<open>there is no replay protection: a transaction that has been mined is accepted again as soon as it has
  left the pool, whatever its nonce.\<close>

theorem mined_tx_accepted_again:
  assumes "pool_inv (nd_pool n)" and "tx_ID t \<noteq> ''''" and "int (maplen (pl_tx (nd_pool n))) < pl_max (nd_pool n)"
    and "t \<in> set txs" and "t \<in> contents (nd_pool n)"
  shows "fst (Node_txH env' (mine_remove env n txs h) ''POST'' (Some t)) = (202, TxBody t)"
proof -
  let ?p = "Pool_Remove (nd_pool n) (map tx_ID txs)"
  have inv: "pool_inv ?p" by (rule pool_inv_Remove [OF assms(1)])
  have c: "contents ?p = {u \<in> contents (nd_pool n). tx_ID u \<notin> tx_ID ` set txs}" by (simp add: contents_Remove [OF assms(1)])
  have "card (contents ?p) \<le> card (contents (nd_pool n))" unfolding c by (rule card_mono) auto
  then have room: "int (card (contents ?p)) < pl_max (nd_pool n)"
    using assms(3) by (simp add: card_contents [OF assms(1)])
  have "\<not> (\<exists>u \<in> contents ?p. same_slot u t)"
    using slot_unique [OF assms(1) _ assms(5)] assms(4) unfolding c by blast
  moreover have "\<not> (\<exists>u \<in> contents ?p. tx_ID u = tx_ID t)" using assms(4) unfolding c by auto
  moreover have "with_id t = t" using assms(2) by (simp add: with_id_def)
  moreover have "pl_max ?p = pl_max (nd_pool n)" by (rule pl_max_Remove)
  ultimately have "fst (Pool_Add ?p t) = None"
    using Pool_Add_spec [OF inv, of t] room by (cases "Pool_Add ?p t") (auto simp: spec_Add_def split: if_splits)
  then show ?thesis
    using assms(2) by (cases "Pool_Add ?p t") (simp add: Node_txH_def mine_remove_def Let_def)
qed

theorem mined_tx_accepted_again_witness:
  "fst (Node_txH example_env (mine_remove example_env (pooled (pool_tx ''a'' ''alice'' 1 5)) [pool_tx ''a'' ''alice'' 1 5] 1) ''POST''
     (Some (pool_tx ''a'' ''alice'' 1 5))) = (202, TxBody (pool_tx ''a'' ''alice'' 1 5))"
proof (rule mined_tx_accepted_again)
  show inv: "pool_inv (nd_pool (pooled (pool_tx ''a'' ''alice'' 1 5)))"
    unfolding pooled_facts(2) by (intro inv_intros)
  show "pool_tx ''a'' ''alice'' 1 5 \<in> contents (nd_pool (pooled (pool_tx ''a'' ''alice'' 1 5)))"
    unfolding contents_iff [OF inv] pooled_facts(3) by (simp add: pool_tx_def)
  show "int (maplen (pl_tx (nd_pool (pooled (pool_tx ''a'' ''alice'' 1 5))))) < pl_max (nd_pool (pooled (pool_tx ''a'' ''alice'' 1 5)))"
    unfolding pooled_facts(3)
    by (simp add: maplen_upd pooled_facts(2)) (simp add: Pool_Add_def Pool_New_def pool_tx_def with_id_def mapget0_def Let_def)
qed (simp_all add: pool_tx_def)

section \<open>Whole requests\<close>

text \<open>The runtime's choices for a request on \<open>n\<close> are ones it can make.\<close>

definition env_ok :: "Env \<Rightarrow> Node \<Rightarrow> http_request \<Rightarrow> bool" where
  "env_ok env n req \<longleftrightarrow>
     iterates (env_pool_ord env) (pl_tx (nd_pool n)) \<and> iterates (env_block_ord env) (rp_blocks (nd_repo n)) \<and>
     maplen (rp_blocks (nd_repo n)) < 2 ^ 63 - 1 \<and>
     iterates (env_state_ord env)
       (st_data (if dispatch (http_Method req) (http_Path req) = Serve H_mine then apply_all (nd_state n) (mine_list env n) else nd_state n))"

lemma mine_is_steps:
  assumes "iterates (env_pool_ord env) (pl_tx (nd_pool n))" and "iterates (env_block_ord env) (rp_blocks (nd_repo n))"
    and "iterates (env_state_ord env) (st_data (apply_all (nd_state n) (mine_list env n)))"
    and "maplen (rp_blocks (nd_repo n)) < 2 ^ 63 - 1"
  shows "node_step\<^sup>*\<^sup>* (n, Idle, ps) (snd (Node_mine env n), Idle, ps)"
proof -
  let ?txs = "mine_list env n" and ?h = "latest_height env n + 1"
  obtain e n1 where c: "mine_commit env n ?txs = (e, n1)" by fastforce
  note commit = mine_commit_steps [OF assms c, of ps]
  show ?thesis
  proof (cases e)
    case None
    then have "node_step\<^sup>*\<^sup>* (n, Idle, ps) (n1, Committed ?txs ?h, ps)" using commit by simp
    also have "node_step (n1, Committed ?txs ?h, ps) (drop_mined n1 ?txs, Removed ?h, ps)" by (rule step_mine_remove)
    also have "node_step (drop_mined n1 ?txs, Removed ?h, ps) (count_block (drop_mined n1 ?txs), Counted ?h, ps)"
      by (rule step_mine_count)
    also have "node_step (count_block (drop_mined n1 ?txs), Counted ?h, ps) (mine_remove env n1 ?txs ?h, Idle, ps)"
      unfolding mine_remove_def by (rule step_mine_log)
    finally show ?thesis by (simp add: Node_mine_def Let_def c None mine_block_fields(3))
  next
    case (Some err)
    then show ?thesis using commit by (cases err) (simp add: Node_mine_def Let_def c)
  qed
qed

lemma snapH_is_steps:
  assumes "iterates (env_block_ord env) (rp_blocks (nd_repo n))" and "iterates (env_state_ord env) (st_data (nd_state n))"
  shows "node_step\<^sup>*\<^sup>* (n, Idle, ps) (snd (Node_snapH env n meth), Idle, ps)"
proof (cases "meth = ''GET''")
  case False
  let ?i = "snap_id env" and ?h = "latest_height env n" and ?r = "State_Root (env_state_ord env) (nd_state n)"
  let ?s = "\<lparr>snap_ID = ?i, snap_Height = ?h, snap_Root = ?r, snap_Data = State_Data (nd_state n), snap_CreatedAt = env_now env,
    snap_Verified = False\<rparr>"
  let ?n1 = "n\<lparr>nd_repo := Repo_PutSnapshot (nd_repo n) ?s\<rparr>"
  let ?n2 = "?n1\<lparr>nd_state := snd (State_Snapshot (nd_state ?n1) ?h)\<rparr>"
  have "node_step\<^sup>*\<^sup>* (n, Idle, ps) (n, SnapAt ?i ?h, ps)" by (rule r_into_rtranclp, rule step_snap_latest [OF assms(1)])
  also have "node_step (n, SnapAt ?i ?h, ps) (n, SnapRooted ?i ?h ?r, ps)" by (rule step_snap_root [OF assms(2)])
  also have "node_step (n, SnapRooted ?i ?h ?r, ps) (n, SnapMade ?s, ps)" by (rule step_snap_data)
  also have "node_step (n, SnapMade ?s, ps) (?n1, SnapStored ?s, ps)" by (rule step_snap_put)
  also have "node_step (?n1, SnapStored ?s, ps) (?n2, SnapKept ?i, ps)" using step_snap_keep [of ?n1 ?s ps] by simp
  also have "node_step (?n2, SnapKept ?i, ps) (audit_append env ?n2 ''snapshot.create'' ?i, Idle, ps)" by (rule step_snap_log)
  finally show ?thesis using False by (simp add: Node_snapH_def Let_def snap_id_def)
qed (simp add: Node_snapH_def)

lemma snapVerify_is_steps:
  assumes "iterates (env_state_ord env) (st_data (nd_state n))"
  shows "node_step\<^sup>*\<^sup>* (n, Idle, ps) (snd (Node_snapVerify env n path), Idle, ps)"
proof -
  let ?i = "TrimSuffix (TrimPrefix path ''/api/v1/snapshots/'') ''/verify''"
  obtain s ok where get: "Repo_Snapshot (nd_repo n) ?i = (s, ok)" by fastforce
  let ?s = "s\<lparr>snap_Verified := (snap_Root s = State_Root (env_state_ord env) (nd_state n))\<rparr>"
  show ?thesis
  proof (cases "?i \<noteq> '''' \<and> ok")
    case True
    have "node_step\<^sup>*\<^sup>* (n, Idle, ps) (n, Verifying s, ps)"
      by (rule r_into_rtranclp, rule step_verify_get [of n ?i]) (use get True in simp_all)
    also have "node_step (n, Verifying s, ps) (n, Verified ?s, ps)" by (rule step_verify_root [OF assms])
    also have "node_step (n, Verified ?s, ps) (n\<lparr>nd_repo := Repo_PutSnapshot (nd_repo n) ?s\<rparr>, Idle, ps)" by (rule step_verify_put)
    finally show ?thesis using True get by (simp add: Node_snapVerify_def Let_def)
  qed (use get in \<open>auto simp: Node_snapVerify_def Let_def\<close>)
qed

text \<open>Every request is a sequence of steps of the transition system, whatever its method, path and body:
  so what holds of the reachable states holds after any sequence of requests.\<close>

lemma serve_steps:
  assumes "env_ok env n req"
  shows "node_step\<^sup>*\<^sup>* (n, Idle, ps) (snd (Node_serve dp dt env n req), Idle, ps)"
proof -
  let ?n = "middleware n"
  have first: "node_step\<^sup>*\<^sup>* (n, Idle, ps) (?n, Idle, ps)" by (rule r_into_rtranclp, rule step_middleware)
  have "node_step\<^sup>*\<^sup>* (?n, Idle, ps) (snd (Node_serve dp dt env n req), Idle, ps)"
  proof (cases "dispatch (http_Method req) (http_Path req)")
    case (Serve h)
    note ok = assms [unfolded env_ok_def Serve]
    have peer: "node_step\<^sup>*\<^sup>* (?n, Idle, ps) (snd (Node_peerH env ?n m p), Idle, ps)" for m p
      by (rule r_into_rtranclp, rule step_peerH, rule surjective_pairing)
    show ?thesis
    proof (cases h)
      case H_mine
      then show ?thesis using mine_is_steps [of env ?n] ok Serve by (simp add: Node_serve_def Let_def)
    next
      case H_snap
      then show ?thesis using snapH_is_steps [of env ?n] ok Serve by (simp add: Node_serve_def Let_def)
    next
      case H_snapVerify
      then show ?thesis using snapVerify_is_steps [of env ?n] ok Serve by (simp add: Node_serve_def Let_def)
    qed (simp_all add: Node_serve_def Let_def Serve peer txH_steps)
  qed (simp_all add: Node_serve_def Let_def)
  with first show ?thesis by (rule rtranclp_trans)
qed

lemma dispatch_examples:
  "dispatch m ''/api/v1/blocks/mine'' = Serve H_mine" "dispatch m ''/api/v1/blocks/7'' = Serve H_block"
  "dispatch m ''/api/v1/snapshots'' = Serve H_snap" "dispatch m ''/api/v1/snapshots/x/verify'' = Serve H_snapVerify"
  "dispatch m ''/'' = NotFound" "dispatch m ''/api/v1/proofs'' = Redirect ''/api/v1/proofs/''"
  "dispatch ''GET'' ''/api/v1//blocks/../sync'' = Redirect ''/api/v1/sync''"
  by (simp_all add: dispatch_def cleanPath_def path_Clean_def slash_redirect_def route_def routes_def pattern_matches_def)

definition mine_request :: http_request where
  "mine_request = \<lparr>http_Method = ''POST'', http_Path = ''/api/v1/blocks/mine'', http_Body = []\<rparr>"

end
