(* ===== verification/Node_Runs.thy ===== *)
theory Node_Runs
  imports Chain_Node
begin

text \<open>
  Runs of the node that count the blocks they commit, sequences of whole requests, and what other requests
  can see while a block is formed.  The lemmas here carry the properties of the root theory.
\<close>

section \<open>Which steps change the chain\<close>

definition commits :: "op_phase \<Rightarrow> op_phase \<Rightarrow> bool" where
  "commits m m' \<longleftrightarrow> (case (m, m') of (Rooted txs prev r, Committed txs' h) \<Rightarrow> True | _ \<Rightarrow> False)"

lemma commits_simps [simp]:
  "commits (Rooted txs prev r) (Committed txs' h)" "\<not> commits m m" "\<not> commits m Idle" "\<not> commits Idle m"
  "\<not> commits m (Listed txs)" "\<not> commits m (Applying txs prev dn todo)" "\<not> commits m (Rooted txs prev r)"
  by (cases m; simp add: commits_def)+

lemma maplen_PutBlock:
  "Repo_PutBlock r b = (e, r') \<Longrightarrow>
   maplen (rp_blocks r') = (if e = None then Suc (maplen (rp_blocks r)) else maplen (rp_blocks r))"
  by (auto simp: Repo_PutBlock_def maplen_upd split: if_splits)

lemma step_blocks:
  assumes "node_step (n, m, ps) (n', m', ps')"
  shows "maplen (rp_blocks (nd_repo n')) = maplen (rp_blocks (nd_repo n)) + (if commits m m' then 1 else 0)"
  using assms
proof (cases rule: node_step.cases)
  case (step_mine_put now prev r txs e rp)
  then show ?thesis using maplen_PutBlock [of _ _ e rp] by simp
qed (simp_all add: peerH_simps commits_def)

section \<open>Runs that count their blocks\<close>

inductive run :: "config \<Rightarrow> nat \<Rightarrow> config \<Rightarrow> bool" for s where
  run_start: "run s 0 s"
| run_commit: "run s k (n, m, ps) \<Longrightarrow> node_step (n, m, ps) (n', m', ps') \<Longrightarrow> commits m m' \<Longrightarrow> run s (Suc k) (n', m', ps')"
| run_other: "run s k (n, m, ps) \<Longrightarrow> node_step (n, m, ps) (n', m', ps') \<Longrightarrow> \<not> commits m m' \<Longrightarrow> run s k (n', m', ps')"

lemma run_steps: "run s k s' \<Longrightarrow> node_step\<^sup>*\<^sup>* s s'"
  by (induction rule: run.induct) (auto intro: rtranclp.rtrancl_into_rtrancl)

lemma steps_run: "node_step\<^sup>*\<^sup>* s s' \<Longrightarrow> \<exists>k. run s k s'"
proof (induction rule: rtranclp_induct)
  case (step s1 s2)
  obtain n m ps n' m' ps' where "s1 = (n, m, ps)" "s2 = (n', m', ps')" by (metis prod_cases3)
  with step show ?case by (cases "commits m m'") (auto intro: run_commit run_other)
qed (auto intro: run_start)

lemma run_blocks:
  assumes "run (NewNode started now c, Idle, {#}) k s"
  shows "maplen (rp_blocks (nd_repo (fst s))) = k"
  using assms
proof (induction rule: run.induct)
  case run_start
  show ?case by (simp add: NewNode_def Repo_New_def)
next
  case (run_commit k n m ps n' m' ps')
  then show ?case using step_blocks [OF run_commit.hyps(2)] by simp
next
  case (run_other k n m ps n' m' ps')
  then show ?case using step_blocks [OF run_other.hyps(2)] by simp
qed

text \<open>The heights of a reachable node: the blocks stand at 1 to their number, the latest at that number.\<close>

lemma reachable_heights:
  assumes "node_inv (n, m, ps)" and "iterates ord (rp_blocks (nd_repo n))"
  shows "unat (hdr_Height (blk_Header (Repo_Latest ord (nd_repo n)))) = maplen (rp_blocks (nd_repo n))"
    and "snd (Repo_Block (nd_repo n) h) \<longleftrightarrow> 1 \<le> unat h \<and> unat h \<le> maplen (rp_blocks (nd_repo n))"
proof -
  from node_invE [OF assms(1)] obtain bs where inv: "chain_inv bs n m" .
  note bs = chain_invD(1) [OF inv] and lt = chain_invD(4) [OF inv]
  note latest = Latest_chain [OF node_invD(2) [OF assms(1)] assms(2) bs lt]
  have "unat (of_nat (length bs) :: Height) = length bs" unfolding unat_of_nat using lt by simp
  moreover have "maplen (rp_blocks (nd_repo n)) = length bs" using bs by (simp add: chain_def)
  ultimately show "unat (hdr_Height (blk_Header (Repo_Latest ord (nd_repo n)))) = maplen (rp_blocks (nd_repo n))"
    using chain_last_height [OF node_invD(2) [OF assms(1)] bs lt] by (simp add: latest zero_Block_def zero_Header_def)
  have "snd (Repo_Block (nd_repo n) h) \<longleftrightarrow> mapget (rp_blocks (nd_repo n)) h \<noteq> None"
    by (auto simp: Repo_Block_def split: option.splits)
  also have "\<dots> \<longleftrightarrow> 0 < h \<and> unat h \<le> length bs" by (rule chain_dom [OF bs lt])
  finally show "snd (Repo_Block (nd_repo n) h) \<longleftrightarrow> 1 \<le> unat h \<and> unat h \<le> maplen (rp_blocks (nd_repo n))"
    using bs by (simp add: chain_def word_less_iff_unat Suc_le_eq)
qed

section \<open>Sequences of requests\<close>

definition mines :: "http_request \<Rightarrow> nat" where
  "mines req = (if dispatch (http_Method req) (http_Path req) = Serve H_mine then 1 else 0)"

text \<open>What a request does to the counters: it counts as a request, and as a block when it mines.\<close>

lemma serve_counts:
  assumes "node_inv (n, Idle, ps)" and "env_ok env n req"
    and n'_def: "n' = snd (Node_serve dp dt env n req)"
  shows "mt_Requests (nd_metrics n') = mt_Requests (nd_metrics n) + 1 \<and>
         mt_Blocks (nd_metrics n') = mt_Blocks (nd_metrics n) + of_nat (mines req) \<and>
         maplen (rp_blocks (nd_repo n')) = maplen (rp_blocks (nd_repo n)) + mines req"
proof (cases "dispatch (http_Method req) (http_Path req) = Serve H_mine")
  case True
  let ?n = "middleware n" and ?txs = "mine_list env n"
  let ?b = "mine_block env ?n ?txs"
  have inv: "node_inv (?n, Idle, ps)" by (rule node_inv_step [OF assms(1) step_middleware])
  from node_inv_mine_commit [OF inv, of env ?txs 0] assms(2) True obtain n1 bs where
    n1: "mine_commit env ?n ?txs = (None, n1)" "chain (nd_repo n1) (bs @ [?b])"
    by (auto simp: env_ok_def)
  have "nd_metrics n1 = nd_metrics ?n" using n1(1) by (auto simp: mine_commit_def split: prod.splits)
  moreover have "n' = mine_remove env n1 ?txs (hdr_Height (blk_Header ?b))"
    by (simp add: n'_def Node_serve_def True Node_mine_def n1(1) Let_def)
  moreover have "maplen (rp_blocks (nd_repo n1)) = Suc (maplen (rp_blocks (nd_repo n)))"
    using maplen_PutBlock [of "nd_repo n" ?b] n1(1) by (auto simp: mine_commit_def split: prod.splits)
  ultimately show ?thesis using True by (simp add: mine_remove_def middleware_def mines_def count_block_def)
next
  case False
  then show ?thesis
    by (auto simp: n'_def mines_def Node_serve_def middleware_def Node_peerH_def Node_txH_def Node_snapH_def Node_snapVerify_def
        Repo_PutSnapshot_def Let_def split: routed.splits handler.splits option.splits prod.splits)
qed

text \<open>
  Requests served one after another, each with the runtime's choices for it; \<open>envs_ok\<close> says that these
  are choices the runtime can make.
\<close>

fun serve_all :: "(bytes \<Rightarrow> Peer option) \<Rightarrow> (bytes \<Rightarrow> Tx option) \<Rightarrow> Node \<Rightarrow> (Env \<times> http_request) list \<Rightarrow> Node" where
  "serve_all dp dt n [] = n"
| "serve_all dp dt n ((env, req) # rs) = serve_all dp dt (snd (Node_serve dp dt env n req)) rs"

fun envs_ok :: "(bytes \<Rightarrow> Peer option) \<Rightarrow> (bytes \<Rightarrow> Tx option) \<Rightarrow> Node \<Rightarrow> (Env \<times> http_request) list \<Rightarrow> bool" where
  "envs_ok dp dt n [] \<longleftrightarrow> True"
| "envs_ok dp dt n ((env, req) # rs) \<longleftrightarrow> env_ok env n req \<and> envs_ok dp dt (snd (Node_serve dp dt env n req)) rs"

lemma serve_all_steps:
  "envs_ok dp dt n rs \<Longrightarrow> node_step\<^sup>*\<^sup>* (n, Idle, ps) (serve_all dp dt n rs, Idle, ps)"
  by (induction rs arbitrary: n) (auto, blast intro: rtranclp_trans serve_steps)

lemma serve_all_counts:
  assumes "node_inv (n, Idle, ps)" and "envs_ok dp dt n rs"
  defines "k \<equiv> sum_list (map (mines \<circ> snd) rs)"
  shows "mt_Requests (nd_metrics (serve_all dp dt n rs)) = mt_Requests (nd_metrics n) + of_nat (length rs) \<and>
         mt_Blocks (nd_metrics (serve_all dp dt n rs)) = mt_Blocks (nd_metrics n) + of_nat k \<and>
         maplen (rp_blocks (nd_repo (serve_all dp dt n rs))) = maplen (rp_blocks (nd_repo n)) + k"
  using assms(1,2) unfolding k_def
proof (induction rs arbitrary: n)
  case (Cons er rs)
  obtain env req where er: "er = (env, req)" by fastforce
  let ?n = "snd (Node_serve dp dt env n req)"
  have ok: "env_ok env n req" "envs_ok dp dt ?n rs" using Cons.prems(2) er by simp_all
  have "node_inv (?n, Idle, ps)" by (rule node.steps_inv [OF serve_steps [OF ok(1)] Cons.prems(1)])
  from Cons.IH [OF this ok(2)] serve_counts [OF Cons.prems(1) ok(1) refl, of dp dt] show ?case by (simp add: er algebra_simps)
qed simp

section \<open>An example run\<close>

text \<open>A transaction is posted to a new node and mined.\<close>

lemma mined_run: "\<exists>n h. run (fresh, Idle, {#}) 1 (n, Committed [pool_tx ''a'' ''alice'' 1 5] h, {#})"
proof -
  let ?t = "pool_tx ''a'' ''alice'' 1 5"
  let ?n = "pooled ?t"
  obtain sord where sord: "iterates sord (st_data (apply_all (nd_state ?n) [?t]))" using iterates_exists by blast
  let ?env = "pooled_env sord"
  have ord: "iterates (env_state_ord ?env) (st_data (apply_all (nd_state ?n) (mine_list ?env ?n)))"
    unfolding pooled_mining(1) using sord by simp
  have inv: "node_inv (?n, Idle, {#})" by (rule node.reachable_inv [OF _ pooled_facts(1)]) blast
  from node_inv_mine_commit [OF inv pooled_mining(3) ord pooled_mining(4)] obtain n' where
    n': "mine_commit ?env ?n (mine_list ?env ?n) = (None, n')" by blast
  have "node_step\<^sup>*\<^sup>* (?n, Idle, {#}) (n', Committed [?t] (latest_height ?env ?n + 1), {#})"
    using mine_commit_steps [OF pooled_mining(2,3) ord pooled_mining(4) n'] unfolding pooled_mining(1) by simp
  then obtain k where run: "run (fresh, Idle, {#}) k (n', Committed [?t] (latest_height ?env ?n + 1), {#})"
    using steps_run [OF rtranclp_trans [OF pooled_facts(1)]] by blast
  have "maplen (rp_blocks (nd_repo n')) = Suc (maplen (rp_blocks (nd_repo ?n)))"
    using maplen_PutBlock [of "nd_repo ?n" _ None "nd_repo n'"] n' by (auto simp: mine_commit_def split: prod.splits)
  then have "k = 1" using run_blocks [OF run] by (simp add: pooled_facts(4) Repo_New_def)
  with run show ?thesis by blast
qed

text \<open>
  Between the application of the transactions and the storing of the block other requests are served, and
  a proof request reads the state without \<open>opMu\<close>: here it is answered with an entry while the store has no
  block at all.
\<close>

lemma uncommitted_state_visible:
  "\<exists>n m item. node_step\<^sup>*\<^sup>* (fresh, Idle, {#}) (n, m, {#}) \<and> rp_blocks (nd_repo n) = fmempty \<and>
     Node_proofH env n (''/api/v1/proofs/'' @ ''demo'') = (200, ProofBody item) \<and> it_Value item = ''ok''"
proof -
  let ?t = "pool_tx ''a'' ''alice'' 1 5"
  let ?n = "pooled ?t"
  let ?m = "?n\<lparr>nd_state := apply_one (nd_state ?n) ?t\<rparr>"
  have list: "node_step (?n, Idle, {#}) (?n, Listed [?t], {#})"
    using step_mine_list [OF pooled_mining(2)] by (simp only: pooled_mining(1))
  have "iterates [] (rp_blocks (nd_repo ?n))" by (simp add: pooled_facts(4) Repo_New_def iterates_def)
  then have latest: "node_step (?n, Listed [?t], {#}) (?n, Applying [?t] (Repo_Latest [] (nd_repo ?n)) [] [?t], {#})"
    by (rule step_mine_latest)
  have one: "node_step (?n, Applying [?t] (Repo_Latest [] (nd_repo ?n)) [] [?t], {#})
      (?m, Applying [?t] (Repo_Latest [] (nd_repo ?n)) ([] @ [?t]) [], {#})" by (rule step_mine_apply)
  from pooled_facts(1) list have "node_step\<^sup>*\<^sup>* (fresh, Idle, {#}) (?n, Listed [?t], {#})" ..
  from this latest have "node_step\<^sup>*\<^sup>* (fresh, Idle, {#}) (?n, Applying [?t] (Repo_Latest [] (nd_repo ?n)) [] [?t], {#})" ..
  from this one have "node_step\<^sup>*\<^sup>* (fresh, Idle, {#}) (?m, Applying [?t] (Repo_Latest [] (nd_repo ?n)) ([] @ [?t]) [], {#})" ..
  moreover have "rp_blocks (nd_repo ?m) = fmempty" by (simp add: pooled_facts(4) Repo_New_def)
  moreover have "\<exists>item. Node_proofH env ?m (''/api/v1/proofs/'' @ ''demo'') = (200, ProofBody item) \<and> it_Value item = ''ok''"
    unfolding Node_proofH_def TrimPrefix_append
    by (simp add: Build_def State_Get_def apply_one_def State_Apply_def pool_tx_def example_tx_def Let_def)
  ultimately show ?thesis by blast
qed

section \<open>What no request does\<close>

text \<open>No handler writes the checkpoints, the voting engine or the configuration: the light-client endpoint answers
  with the empty list forever, and the consensus endpoint with height, view and votes zero.\<close>

lemma unused_simps [simp]:
  "nd_checkpoints (audit_append env n a d) = nd_checkpoints n" "nd_bft (audit_append env n a d) = nd_bft n"
  "nd_cfg (audit_append env n a d) = nd_cfg n"
  by (simp_all add: audit_append_def)

lemma step_unused:
  "node_step s s' \<Longrightarrow> nd_checkpoints (fst s') = nd_checkpoints (fst s) \<and> nd_bft (fst s') = nd_bft (fst s) \<and> nd_cfg (fst s') = nd_cfg (fst s)"
proof (induction rule: node_step.induct)
  case (step_peerH env n meth b r n' m ps)
  then show ?case by (auto simp: Node_peerH_def split: if_splits option.splits)
next
  case (step_tx_finish p ps n m env)
  show ?case by (simp add: tx_finish_def split: pending.splits)
qed (simp_all add: middleware_def drop_mined_def count_block_def log_block_def)

interpretation unused: invariant_system "\<lambda>s. \<exists>started now c. s = (NewNode started now c, Idle, {#})" node_step
  "\<lambda>s. nd_checkpoints (fst s) = [] \<and> nd_bft (fst s) = Engine_New (net_Validators (cfg_Network (nd_cfg (fst s))))"
  by unfold_locales (auto simp: NewNode_def dest: step_unused)

lemma checkpoints_empty:
  assumes "node_step\<^sup>*\<^sup>* (NewNode started now c, Idle, {#}) (n, m, ps)"
  shows "Node_checkpointsH n = (200, BlocksBody [])"
    and "Node_consensusH n = (200, ConsensusBody (0, 0, Proposal, 0))"
  using unused.reachable_inv [OF _ assms] by (force simp: Node_checkpointsH_def Node_consensusH_def Engine_Status_def Engine_New_def)+

text \<open>\<open>mine\<close> does not look at the method: a request of any method to its path commits a block.\<close>

lemma mine_any_method:
  "mines \<lparr>http_Method = meth, http_Path = ''/api/v1/blocks/mine'', http_Body = b\<rparr> = 1"
  by (simp add: mines_def dispatch_examples(1))

end
