(* ===== verification/Sync_Worker.thy ===== *)
theory Sync_Worker
  imports Repository
begin

text \<open>
  \<open>internal/sync_worker/worker.go\<close>.  \<open>Start\<close> runs outside the worker's lock: it takes the lock to mark the
  worker active, counts through the range, and takes the lock again to store its result and to clear
  the mark.  The loop may not end, so its result is an option.  What the loop sees of the outside is an
  argument: \<open>cancel k\<close> is the context's error at turn \<open>k\<close>, if it is done, and \<open>repo k\<close> the store then.
\<close>

section \<open>Worker\<close>

datatype Status = StatusIdle | StatusRunning | StatusFailed | StatusComplete

record Request =
  rq_From :: Height
  rq_To :: Height
  rq_Peer :: string
  rq_MaxBytes :: i64

record Result =
  res_Status :: "Status option"
  res_Downloaded :: i64
  res_Verified :: i64
  res_Rejected :: i64
  res_Error :: string
  res_StartedAt :: time
  res_FinishedAt :: time

text \<open>The zero value of a status is the empty string, none of the constants.\<close>

definition zero_Result :: Result where
  "zero_Result = \<lparr>res_Status = None, res_Downloaded = 0, res_Verified = 0, res_Rejected = 0, res_Error = '''',
     res_StartedAt = 0, res_FinishedAt = 0\<rparr>"

record Worker =
  wk_active :: bool
  wk_last :: Result

definition Worker_New :: Worker where
  "Worker_New = \<lparr>wk_active = False, wk_last = zero_Result\<rparr>"

definition start_enter :: "time \<Rightarrow> Worker \<Rightarrow> Result + Worker" where
  "start_enter now w =
     (if wk_active w then Inl (zero_Result\<lparr>res_Status := Some StatusFailed, res_Error := ''sync already running''\<rparr>)
      else Inr (w\<lparr>wk_active := True, wk_last := zero_Result\<lparr>res_Status := Some StatusRunning, res_StartedAt := now\<rparr>\<rparr>))"

definition quota_exceeded :: "Request \<Rightarrow> Result \<Rightarrow> bool" where
  "quota_exceeded req res \<longleftrightarrow> sint (rq_MaxBytes req) > 0 \<and> sint (res_Downloaded res * 1024) > sint (rq_MaxBytes req)"

partial_function (option) sync_loop ::
  "(nat \<Rightarrow> string option) \<Rightarrow> (nat \<Rightarrow> Repo) \<Rightarrow> Request \<Rightarrow> nat \<Rightarrow> Height \<Rightarrow> Result \<Rightarrow> Result option" where
  "sync_loop cancel repo req k h res =
     (if h \<le> rq_To req then
        (case cancel k of
           Some e \<Rightarrow> Some (res\<lparr>res_Status := Some StatusFailed, res_Error := e\<rparr>)
         | None \<Rightarrow>
             if quota_exceeded req res
             then Some (res\<lparr>res_Status := Some StatusFailed, res_Error := ''download quota exceeded''\<rparr>)
             else if snd (Repo_Block (repo k) h)
             then sync_loop cancel repo req (Suc k) (h + 1) (res\<lparr>res_Verified := res_Verified res + 1\<rparr>)
             else sync_loop cancel repo req (Suc k) (h + 1) (res\<lparr>res_Downloaded := res_Downloaded res + 1\<rparr>))
      else Some (res\<lparr>res_Status := Some StatusComplete\<rparr>))"

definition start_body :: "(nat \<Rightarrow> string option) \<Rightarrow> (nat \<Rightarrow> Repo) \<Rightarrow> Request \<Rightarrow> Worker \<Rightarrow> Result option" where
  "start_body cancel repo req w =
     (if rq_To req < rq_From req
      then Some (zero_Result\<lparr>res_Status := Some StatusFailed, res_Error := ''invalid range''\<rparr>)
      else sync_loop cancel repo req 0 (rq_From req) (wk_last w))"

definition Worker_finish :: "time \<Rightarrow> Worker \<Rightarrow> Result \<Rightarrow> Result \<times> Worker" where
  "Worker_finish now w r = (r\<lparr>res_FinishedAt := now\<rparr>, w\<lparr>wk_last := r\<lparr>res_FinishedAt := now\<rparr>\<rparr>)"

definition start_exit :: "Worker \<Rightarrow> Worker" where
  "start_exit w = w\<lparr>wk_active := False\<rparr>"

definition Worker_Start ::
  "time \<Rightarrow> time \<Rightarrow> (nat \<Rightarrow> string option) \<Rightarrow> (nat \<Rightarrow> Repo) \<Rightarrow> Worker \<Rightarrow> Request \<Rightarrow> (Result \<times> Worker) option" where
  "Worker_Start now now' cancel repo w req =
     (case start_enter now w of
        Inl r \<Rightarrow> Some (r, w)
      | Inr w1 \<Rightarrow>
          (case start_body cancel repo req w1 of
             None \<Rightarrow> None
           | Some r \<Rightarrow> (case Worker_finish now' w1 r of (r', w2) \<Rightarrow> Some (r', start_exit w2))))"

definition Worker_Last :: "Worker \<Rightarrow> Result" where
  "Worker_Last w = wk_last w"

datatype range_error = RangeTooLarge | PeerRequired

definition ValidateRange :: "Request \<Rightarrow> range_error option" where
  "ValidateRange req =
     (if rq_To req - rq_From req > 100000 then Some RangeTooLarge
      else if rq_Peer req = '''' then Some PeerRequired
      else None)"

definition Explain :: "Result \<Rightarrow> string" where
  "Explain r =
     (if res_Status r = Some StatusComplete then ''verified '' @ fmt_d (sint (res_Verified r)) @ '' blocks''
      else res_Error r)"

section \<open>Termination and result of the loop\<close>

definition heights_between :: "Height \<Rightarrow> Height \<Rightarrow> Height list" where
  "heights_between a b = map of_nat [unat a..<Suc (unat b)]"

text \<open>The heights of the range that the store holds when the loop comes to them.\<close>

fun stored_count :: "(nat \<Rightarrow> Repo) \<Rightarrow> nat \<Rightarrow> Height list \<Rightarrow> nat" where
  "stored_count repo k [] = 0"
| "stored_count repo k (h # hs) = (if mapget (rp_blocks (repo k)) h \<noteq> None then 1 else 0) + stored_count repo (Suc k) hs"

lemma stored_count_le: "stored_count repo k hs \<le> length hs"
  by (induction hs arbitrary: k) (auto intro: le_SucI)

lemma heights_between_Nil: "\<not> h \<le> to \<Longrightarrow> heights_between h to = []"
  by (simp add: heights_between_def word_le_nat_alt)

lemma heights_between_Cons:
  assumes "h \<le> to" and "unat to < 2 ^ 64 - 1"
  shows "heights_between h to = h # heights_between (h + 1) to" and "unat (h + 1) = Suc (unat h)"
proof -
  have le: "unat h \<le> unat to" using assms(1) by (simp add: word_le_nat_alt)
  then show s: "unat (h + 1) = Suc (unat h)" using assms(2) by (simp add: unat_word_ariths)
  have "[unat h..<Suc (unat to)] = unat h # [Suc (unat h)..<Suc (unat to)]"
    using le by (simp add: upt_conv_Cons del: upt_Suc)
  then show "heights_between h to = h # heights_between (h + 1) to"
    by (simp add: heights_between_def s del: upt_Suc)
qed

text \<open>The loop returns whenever the range does not end at the largest height, with a final status.\<close>

lemma sync_loop_status:
  assumes "unat (rq_To req) < 2 ^ 64 - 1"
  shows "\<exists>r. sync_loop cancel repo req k h res = Some r \<and> (res_Status r = Some StatusComplete \<or> res_Status r = Some StatusFailed)"
proof (induction "length (heights_between h (rq_To req))" arbitrary: k h res)
  case 0
  then have "\<not> h \<le> rq_To req" using heights_between_Cons(1) [OF _ assms] by fastforce
  then show ?case by (simp add: sync_loop.simps [of cancel repo req k h])
next
  case (Suc l)
  then have le: "h \<le> rq_To req" using heights_between_Nil by fastforce
  have "l = length (heights_between (h + 1) (rq_To req))" using Suc(2) heights_between_Cons(1) [OF le assms] by simp
  note IH = Suc(1) [OF this]
  show ?case
    unfolding sync_loop.simps [of cancel repo req k h] using le IH by (simp split: option.splits)
qed

lemma sync_loop_counts:
  assumes "unat (rq_To req) < 2 ^ 64 - 1" and "\<And>k. cancel k = None" and "sint (rq_MaxBytes req) \<le> 0"
  shows "sync_loop cancel repo req k h res =
     Some (res\<lparr>res_Status := Some StatusComplete,
               res_Verified := res_Verified res + of_nat (stored_count repo k (heights_between h (rq_To req))),
               res_Downloaded := res_Downloaded res +
                 of_nat (length (heights_between h (rq_To req)) - stored_count repo k (heights_between h (rq_To req)))\<rparr>)"
proof (induction "length (heights_between h (rq_To req))" arbitrary: k h res)
  case 0
  then have "\<not> h \<le> rq_To req" using heights_between_Cons(1) [OF _ assms(1)] by fastforce
  with 0 show ?case by (simp add: sync_loop.simps [of cancel repo req k h])
next
  case (Suc l)
  then have le: "h \<le> rq_To req" using heights_between_Nil by fastforce
  note cons = heights_between_Cons(1) [OF le assms(1)]
  have "l = length (heights_between (h + 1) (rq_To req))" using Suc(2) cons by simp
  note IH = Suc(1) [OF this]
  have "\<not> quota_exceeded req res" for res using assms(3) by (simp add: quota_exceeded_def)
  then show ?case
    unfolding sync_loop.simps [of cancel repo req k h] cons
    using le IH stored_count_le [of repo "Suc k" "heights_between (h + 1) (rq_To req)"]
    by (simp add: assms(2) Repo_Block_def Suc_diff_le)
qed

lemma length_heights_between: "a \<le> b \<Longrightarrow> length (heights_between a b) = unat (b - a) + 1"
  by (simp add: heights_between_def unat_sub word_le_nat_alt del: upt_Suc)

lemma Start_returns:
  assumes "\<not> wk_active w" and "unat (rq_To req) < 2 ^ 64 - 1"
  shows "\<exists>r w'. Worker_Start now now' cancel repo w req = Some (r, w') \<and> \<not> wk_active w' \<and> Worker_Last w' = r \<and>
           (res_Status r = Some StatusComplete \<or> res_Status r = Some StatusFailed) \<and>
           (rq_To req < rq_From req \<longrightarrow> res_Status r = Some StatusFailed \<and> res_Error r = ''invalid range'')"
proof -
  obtain w1 where w1: "start_enter now w = Inr w1" using assms(1) by (simp add: start_enter_def)
  obtain r where "start_body cancel repo req w1 = Some r" "res_Status r = Some StatusComplete \<or> res_Status r = Some StatusFailed"
    "rq_To req < rq_From req \<longrightarrow> res_Status r = Some StatusFailed \<and> res_Error r = ''invalid range''"
    using sync_loop_status [OF assms(2), of cancel repo 0 "rq_From req" "wk_last w1"]
    by (cases "rq_To req < rq_From req") (auto simp: start_body_def)
  with w1 show ?thesis by (simp add: Worker_Start_def Worker_finish_def start_exit_def Worker_Last_def)
qed

lemma Start_counts:
  assumes "\<not> wk_active w" and "unat (rq_To req) < 2 ^ 64 - 1" and "rq_From req \<le> rq_To req"
    and "\<forall>k. cancel k = None" and "sint (rq_MaxBytes req) \<le> 0"
  shows "\<exists>r w'. Worker_Start now now' cancel repo w req = Some (r, w') \<and> res_Status r = Some StatusComplete \<and>
           unat (res_Verified r) = stored_count repo 0 (heights_between (rq_From req) (rq_To req)) \<and>
           unat (res_Verified r) + unat (res_Downloaded r) = unat (rq_To req - rq_From req) + 1"
proof -
  let ?hs = "heights_between (rq_From req) (rq_To req)"
  let ?c = "stored_count repo 0 ?hs"
  have len: "length ?hs = unat (rq_To req - rq_From req) + 1" by (rule length_heights_between [OF assms(3)])
  have le: "?c \<le> length ?hs" by (rule stored_count_le)
  have "unat (rq_To req - rq_From req) \<le> unat (rq_To req)" using assms(3) by (simp add: unat_sub word_le_nat_alt)
  then have lt: "length ?hs < 2 ^ 64" using len assms(2) by simp
  have u: "unat (of_nat ?c :: i64) = ?c" "unat (of_nat (length ?hs - ?c) :: i64) = length ?hs - ?c"
    using le lt by (simp_all only: unat_of_nat) simp_all
  have "\<not> rq_To req < rq_From req" using assms(3) by simp
  then show ?thesis
    using assms(1,4) u le len
    by (simp add: Worker_Start_def start_enter_def start_body_def sync_loop_counts [OF assms(2) _ assms(5)]
        Worker_finish_def start_exit_def Worker_Last_def zero_Result_def)
qed

text \<open>C31: \<open>Start\<close> on an idle worker returns for every request that does not end at the largest height, whatever
  the quota, the cancellations and the contents of the store; afterwards the worker is idle and \<open>Last\<close> is
  the result, which is complete or failed.  An inverted range fails.  A valid range without a quota and a
  cancellation completes, having counted each height once, as verified when the store held its block at
  that moment and as downloaded otherwise.\<close>

theorem Start_completes:
  assumes "\<not> wk_active w" and "unat (rq_To req) < 2 ^ 64 - 1"
  shows "\<exists>r w'. Worker_Start now now' cancel repo w req = Some (r, w') \<and> \<not> wk_active w' \<and> Worker_Last w' = r \<and>
           (res_Status r = Some StatusComplete \<or> res_Status r = Some StatusFailed) \<and>
           (rq_To req < rq_From req \<longrightarrow> res_Status r = Some StatusFailed \<and> res_Error r = ''invalid range'') \<and>
           (rq_From req \<le> rq_To req \<and> (\<forall>k. cancel k = None) \<and> sint (rq_MaxBytes req) \<le> 0 \<longrightarrow>
             res_Status r = Some StatusComplete \<and>
             unat (res_Verified r) = stored_count repo 0 (heights_between (rq_From req) (rq_To req)) \<and>
             unat (res_Verified r) + unat (res_Downloaded r) = unat (rq_To req - rq_From req) + 1)"
proof -
  obtain r w' where w: "Worker_Start now now' cancel repo w req = Some (r, w')" "\<not> wk_active w'" "Worker_Last w' = r"
    "res_Status r = Some StatusComplete \<or> res_Status r = Some StatusFailed"
    "rq_To req < rq_From req \<longrightarrow> res_Status r = Some StatusFailed \<and> res_Error r = ''invalid range''"
    using Start_returns [OF assms] by blast
  have "res_Status r = Some StatusComplete \<and>
      unat (res_Verified r) = stored_count repo 0 (heights_between (rq_From req) (rq_To req)) \<and>
      unat (res_Verified r) + unat (res_Downloaded r) = unat (rq_To req - rq_From req) + 1"
    if "rq_From req \<le> rq_To req \<and> (\<forall>k. cancel k = None) \<and> sint (rq_MaxBytes req) \<le> 0"
    using Start_counts [OF assms, of cancel now now' repo] that w(1) by auto
  with w show ?thesis by blast
qed

definition example_request :: Request where
  "example_request = \<lparr>rq_From = 1, rq_To = 3, rq_Peer = ''p'', rq_MaxBytes = 0\<rparr>"

theorem Start_completes_witness:
  "(\<exists>r w'. Worker_Start 0 0 (\<lambda>k. None) (\<lambda>k. example_repo) Worker_New example_request = Some (r, w') \<and>
     res_Status r = Some StatusComplete \<and> unat (res_Verified r) + unat (res_Downloaded r) = 3) \<and>
   (\<exists>r w'. Worker_Start 0 0 (\<lambda>k. Some ''context canceled'') (\<lambda>k. example_repo) Worker_New example_request = Some (r, w') \<and> \<not> wk_active w')"
proof -
  have facts: "\<not> wk_active Worker_New" "unat (rq_To example_request) < 2 ^ 64 - 1" "rq_From example_request \<le> rq_To example_request"
    "\<forall>k. (\<lambda>k. None :: string option) k = None" "sint (rq_MaxBytes example_request) \<le> 0"
    "unat (rq_To example_request - rq_From example_request) = 2"
    by (simp_all add: Worker_New_def example_request_def)
  from Start_completes [OF facts(1,2), of 0 0 "\<lambda>k. None" "\<lambda>k. example_repo"] facts(3,5,6)
    Start_completes [OF facts(1,2), of 0 0 "\<lambda>k. Some ''context canceled''" "\<lambda>k. example_repo"]
  show ?thesis by auto
qed

text \<open>Up to the largest height, without a cancellation and a quota, \<open>Start\<close> never returns and the worker stays active.\<close>

lemma sync_loop_diverges:
  assumes "\<And>k. cancel k = None" and "sint (rq_MaxBytes req) \<le> 0" and "rq_To req = - 1"
  shows "sync_loop cancel repo req k h res = None"
proof -
  have "cancel' = cancel \<and> req' = req \<longrightarrow> False" if "sync_loop cancel' repo' req' k' h' res' = Some r" for cancel' repo' req' k' h' res' r
  proof (rule sync_loop.raw_induct [where P = "\<lambda>cancel' repo' req' k' h' res' r. cancel' = cancel \<and> req' = req \<longrightarrow> False", OF _ that])
    fix loop cancel' repo' req' k' h' res' r
    assume IH: "\<And>cancel' repo' req' k' h' res' r. loop cancel' repo' req' k' h' res' = Some r \<Longrightarrow> cancel' = cancel \<and> req' = req \<longrightarrow> False"
      and step: "(if h' \<le> rq_To req' then
        (case cancel' k' of
           Some e \<Rightarrow> Some (res'\<lparr>res_Status := Some StatusFailed, res_Error := e\<rparr>)
         | None \<Rightarrow>
             if quota_exceeded req' res'
             then Some (res'\<lparr>res_Status := Some StatusFailed, res_Error := ''download quota exceeded''\<rparr>)
             else if snd (Repo_Block (repo' k') h')
             then loop cancel' repo' req' (Suc k') (h' + 1) (res'\<lparr>res_Verified := res_Verified res' + 1\<rparr>)
             else loop cancel' repo' req' (Suc k') (h' + 1) (res'\<lparr>res_Downloaded := res_Downloaded res' + 1\<rparr>))
      else Some (res'\<lparr>res_Status := Some StatusComplete\<rparr>)) = Some r"
    have "\<not> quota_exceeded req res'" using assms(2) by (simp add: quota_exceeded_def)
    then show "cancel' = cancel \<and> req' = req \<longrightarrow> False"
      using step assms(1,3) by (auto split: if_splits dest: IH)
  qed
  then show ?thesis by (metis not_Some_eq)
qed

text \<open>The subtraction of \<open>ValidateRange\<close> wraps around: an inverted range of nearly all heights passes.\<close>

lemma ValidateRange_accepts_inverted:
  "ValidateRange \<lparr>rq_From = 18446744073709551615, rq_To = 99, rq_Peer = ''p'', rq_MaxBytes = 0\<rparr> = None"
  by (simp add: ValidateRange_def)

section \<open>One sync at a time\<close>

text \<open>Calls of \<open>Start\<close> by several goroutines: the set of those that are between entering and leaving.\<close>

inductive sync_step :: "Worker \<times> nat set \<Rightarrow> Worker \<times> nat set \<Rightarrow> bool" where
  sync_enter: "i \<notin> R \<Longrightarrow> start_enter now w = Inr w' \<Longrightarrow> sync_step (w, R) (w', insert i R)"
| sync_refused: "start_enter now w = Inl r \<Longrightarrow> sync_step (w, R) (w, R)"
| sync_finish: "i \<in> R \<Longrightarrow> Worker_finish now w r = (r', w') \<Longrightarrow> sync_step (w, R) (w', R)"
| sync_exit: "i \<in> R \<Longrightarrow> sync_step (w, R) (start_exit w, R - {i})"

definition sync_inv :: "Worker \<times> nat set \<Rightarrow> bool" where
  "sync_inv s \<longleftrightarrow> (case s of (w, R) \<Rightarrow> if wk_active w then \<exists>i. R = {i} else R = {})"

interpretation sync: invariant_system "\<lambda>s. s = (Worker_New, {})" sync_step sync_inv
proof
  fix s s' assume "sync_inv s" and "sync_step s s'"
  then show "sync_inv s'"
    by (cases rule: sync_step.cases [OF \<open>sync_step s s'\<close>])
      (auto simp: sync_inv_def start_enter_def Worker_finish_def start_exit_def split: if_splits)
qed (simp add: sync_inv_def Worker_New_def)

text \<open>C32: at most one sync runs at any time, whatever calls of \<open>Start\<close> overlap, and a call is refused exactly
  while one runs.\<close>

theorem one_sync_at_a_time:
  assumes "sync_step\<^sup>*\<^sup>* (Worker_New, {}) (w, R)"
  shows "(\<forall>i j. i \<in> R \<and> j \<in> R \<longrightarrow> i = j) \<and> (R \<noteq> {} \<longleftrightarrow> (\<exists>r. start_enter now w = Inl r))"
proof -
  have "sync_inv (w, R)" by (rule sync.reachable_inv [OF refl assms])
  then show ?thesis by (auto simp: sync_inv_def start_enter_def split: if_splits)
qed

theorem one_sync_at_a_time_witness:
  "\<exists>w. sync_step (Worker_New, {}) (w, {0}) \<and> (\<exists>r. start_enter 0 w = Inl r)"
proof -
  obtain w where w: "start_enter 0 Worker_New = Inr w" by (simp add: start_enter_def Worker_New_def)
  have step: "sync_step (Worker_New, {}) (w, {0})" using sync_enter [OF _ w, of 0 "{}"] by simp
  then have "sync_step\<^sup>*\<^sup>* (Worker_New, {}) (w, {0})" by blast
  from one_sync_at_a_time [OF this, of 0] step show ?thesis by blast
qed

end
