(* ===== verification/Transport.thy ===== *)
theory Transport
  imports Prelude
begin

text \<open>
  \<open>internal/transport/http_helpers.go\<close>: JSON bodies, path parameters and the handler wrappers.  A
  \<open>http.ResponseWriter\<close> is a record with the headers as they are set, the status and headers as they were
  sent, and the bytes written; a handler changes it and may panic.  The JSON encoder and decoder of the
  standard library are arguments.
\<close>

record ErrorBody =
  eb_Code :: string
  eb_Message :: string
  eb_RequestID :: string

datatype path_error = InvalidID | InvalidNumber

definition PathID :: "string \<Rightarrow> string \<Rightarrow> path_error + string" where
  "PathID path prefix =
     (let i = TrimPrefix path prefix
      in if i = '''' \<or> CHR ''/'' \<in> set i then Inl InvalidID else Inr i)"

definition HeightParam :: "string \<Rightarrow> string \<Rightarrow> path_error + u64" where
  "HeightParam path prefix =
     (case PathID path prefix of
        Inl e \<Rightarrow> Inl e
      | Inr i \<Rightarrow> (case ParseUint i of None \<Rightarrow> Inl InvalidNumber | Some h \<Rightarrow> Inr h))"

section \<open>Responses and handlers\<close>

text \<open>
  \<open>WriteHeader\<close> sends the status and the headers once, a second call does nothing; \<open>Write\<close> sends the
  status 200 when none was sent.  Headers set later are not sent.
\<close>

record ResponseWriter =
  rw_header :: "(string, string) fmap"
  rw_sent :: "(nat \<times> (string, string) fmap) option"
  rw_body :: bytes

definition new_writer :: ResponseWriter where
  "new_writer = \<lparr>rw_header = fmempty, rw_sent = None, rw_body = []\<rparr>"

definition Header_Set :: "string \<Rightarrow> string \<Rightarrow> ResponseWriter \<Rightarrow> ResponseWriter" where
  "Header_Set k v w = w\<lparr>rw_header := fmupd k v (rw_header w)\<rparr>"

definition WriteHeader :: "nat \<Rightarrow> ResponseWriter \<Rightarrow> ResponseWriter" where
  "WriteHeader code w = (case rw_sent w of None \<Rightarrow> w\<lparr>rw_sent := Some (code, rw_header w)\<rparr> | Some _ \<Rightarrow> w)"

definition Write :: "bytes \<Rightarrow> ResponseWriter \<Rightarrow> ResponseWriter" where
  "Write b w = (let w' = WriteHeader 200 w in w'\<lparr>rw_body := rw_body w' @ b\<rparr>)"

definition status_of :: "ResponseWriter \<Rightarrow> nat option" where
  "status_of w = map_option fst (rw_sent w)"

text \<open>The request's parts that the helpers read.\<close>

record Request =
  req_Method :: string
  req_ContentLength :: i64
  req_Body :: bytes

datatype outcome = Returned ResponseWriter | Panicked ResponseWriter

fun written :: "outcome \<Rightarrow> ResponseWriter" where
  "written (Returned w) = w"
| "written (Panicked w) = w"

type_synonym Handler = "ResponseWriter \<Rightarrow> Request \<Rightarrow> outcome"

definition WriteJSON :: "('v \<Rightarrow> bytes option) \<Rightarrow> ResponseWriter \<Rightarrow> nat \<Rightarrow> 'v \<Rightarrow> ResponseWriter" where
  "WriteJSON encode w status v =
     (let w1 = WriteHeader status (Header_Set ''Content-Type'' ''application/json'' w)
      in case encode v of None \<Rightarrow> w1 | Some b \<Rightarrow> Write b w1)"

text \<open>
  \<open>http.MaxBytesReader\<close> hands out at most its limit and then fails where the body would go on.  The
  decoder gets the bytes it can read and whether the stream ends in that failure.
\<close>

datatype 'e read_error = BodyTooLarge | DecodeError 'e

definition MaxBody :: nat where
  "MaxBody = 2 * 2 ^ 20"

definition MaxBytesReader :: "bytes \<Rightarrow> nat \<Rightarrow> bytes \<times> bool" where
  "MaxBytesReader b limit = (take limit b, limit < length b)"

definition ReadJSON :: "(bytes \<times> bool \<Rightarrow> 'e + 'v) \<Rightarrow> Request \<Rightarrow> 'e read_error + 'v" where
  "ReadJSON decode r =
     (if sint (req_ContentLength r) > int MaxBody then Inl BodyTooLarge
      else case decode (MaxBytesReader (req_Body r) MaxBody) of Inl e \<Rightarrow> Inl (DecodeError e) | Inr v \<Rightarrow> Inr v)"

text \<open>
  \<open>http.TimeoutHandler\<close> runs the handler on a writer of its own and copies the result when the handler
  was in time (a panic goes on to the caller); otherwise it answers 503, with the message when the
  deadline passed and without one when the request was cancelled.  Which of these happens is the
  runtime's choice.
\<close>

datatype race = InTime | DeadlineExceeded | Canceled

definition copy_response :: "ResponseWriter \<Rightarrow> ResponseWriter \<Rightarrow> ResponseWriter" where
  "copy_response w tw =
     Write (rw_body tw) (WriteHeader (case status_of tw of None \<Rightarrow> 200 | Some c \<Rightarrow> c) (w\<lparr>rw_header := rw_header w ++\<^sub>f rw_header tw\<rparr>))"

definition Timeout :: "race \<Rightarrow> Handler \<Rightarrow> Handler" where
  "Timeout rc nxt w r =
     (case rc of
        InTime \<Rightarrow> (case nxt new_writer r of Returned tw \<Rightarrow> Returned (copy_response w tw) | Panicked tw \<Rightarrow> Panicked w)
      | DeadlineExceeded \<Rightarrow> Returned (Write ''request timeout'' (WriteHeader 503 w))
      | Canceled \<Rightarrow> Returned (WriteHeader 503 w))"

definition CORS :: "Handler \<Rightarrow> Handler" where
  "CORS nxt w r =
     (let w1 = Header_Set ''Access-Control-Allow-Origin'' ''*'' w
      in if req_Method r = ''OPTIONS'' then Returned (WriteHeader 204 w1) else nxt w1 r)"

definition internal_error :: ErrorBody where
  "internal_error = \<lparr>eb_Code = ''internal'', eb_Message = ''internal error'', eb_RequestID = ''''\<rparr>"

definition Recovery :: "(ErrorBody \<Rightarrow> bytes option) \<Rightarrow> Handler \<Rightarrow> Handler" where
  "Recovery encode nxt w r =
     (case nxt w r of
        Returned w' \<Rightarrow> Returned w'
      | Panicked w' \<Rightarrow> Returned (WriteJSON encode w' 500 internal_error))"

section \<open>Paths\<close>

lemma slash_notin_fmt_d: "CHR ''/'' \<notin> set (fmt_d n)"
proof
  assume "CHR ''/'' \<in> set (fmt_d n)"
  then have "is_digit CHR ''/''" using fmt_d_chars by fastforce
  then show False by (simp add: is_digit_def digit_val_def)
qed

text \<open>a height written into a path is read back from it, and a path that gives a height names that number
  in decimal digits, with no further segment.\<close>

theorem HeightParam_path:
  "HeightParam (prefix @ fmt_d (uint h)) prefix = Inr h \<and>
   (HeightParam (prefix @ s) prefix = Inr h' \<longrightarrow> s \<noteq> '''' \<and> list_all is_digit s \<and> dec_val s = uint h')"
proof
  show "HeightParam (prefix @ fmt_d (uint h)) prefix = Inr h"
    by (simp add: HeightParam_def PathID_def slash_notin_fmt_d TrimPrefix_append)
  have "dec_val s = uint h'" if "ParseUint s = Some h'"
  proof -
    have "dec_val s \<le> 18446744073709551615" "list_all is_digit s" "h' = word_of_int (dec_val s)"
      using that by (auto simp: ParseUint_def split: if_splits)
    moreover have "0 \<le> dec_val s"
      using \<open>list_all is_digit s\<close> by (induction s rule: rev_induct) (auto simp: dec_val_def [of "[]"] is_digit_def)
    ultimately show ?thesis by (simp add: uint_word_of_int)
  qed
  then show "HeightParam (prefix @ s) prefix = Inr h' \<longrightarrow> s \<noteq> '''' \<and> list_all is_digit s \<and> dec_val s = uint h'"
    by (auto simp: HeightParam_def PathID_def ParseUint_def TrimPrefix_append Let_def split: if_splits option.splits)
qed

section \<open>Wrappers\<close>

lemma status_simps [simp]:
  "status_of (WriteHeader c w) = (case status_of w of None \<Rightarrow> Some c | Some d \<Rightarrow> Some d)"
  "status_of (Write b w) = (case status_of w of None \<Rightarrow> Some 200 | Some d \<Rightarrow> Some d)"
  "status_of (Header_Set k v w) = status_of w"
  by (simp_all add: status_of_def WriteHeader_def Write_def Header_Set_def Let_def split: option.splits)

lemma body_simps [simp]:
  "rw_body (WriteHeader c w) = rw_body w" "rw_body (Write b w) = rw_body w @ b" "rw_body (Header_Set k v w) = rw_body w"
  by (simp_all add: WriteHeader_def Write_def Header_Set_def Let_def split: option.splits)

lemma status_of_new [simp]: "status_of new_writer = None"
  by (simp add: status_of_def new_writer_def)

text \<open>Under \<open>Recovery\<close> no request panics.  A handler that panics before it has sent a status gets the answer
  500 and the error as JSON; a panic after that keeps the status and appends the error to what was written.\<close>

lemma Recovery_answers:
  "\<exists>w'. Recovery encode nxt w r = Returned w' \<and>
        (case nxt w r of
           Returned v \<Rightarrow> w' = v
         | Panicked v \<Rightarrow> status_of w' = (case status_of v of None \<Rightarrow> Some 500 | Some c \<Rightarrow> Some c) \<and>
             rw_body w' = rw_body v @ (case encode internal_error of None \<Rightarrow> [] | Some b \<Rightarrow> b))"
  by (auto simp: Recovery_def WriteJSON_def Let_def split: outcome.splits option.splits)

text \<open>A preflight request never reaches the handler behind \<open>CORS\<close>.\<close>

lemma CORS_preflight:
  "req_Method r = ''OPTIONS'' \<Longrightarrow>
   CORS nxt new_writer r = Returned \<lparr>rw_header = fmupd ''Access-Control-Allow-Origin'' ''*'' fmempty,
     rw_sent = Some (204, fmupd ''Access-Control-Allow-Origin'' ''*'' fmempty), rw_body = []\<rparr>"
  by (simp add: CORS_def Header_Set_def WriteHeader_def new_writer_def)

text \<open>Whatever the handler does, the timeout wrapper on a fresh writer sends one status: the handler's own, 200
  when it set none, or 503.\<close>

lemma Timeout_status:
  assumes "Timeout rc nxt new_writer r = Returned w"
  shows "status_of w = Some (case rc of
           InTime \<Rightarrow> (case status_of (written (nxt new_writer r)) of None \<Rightarrow> 200 | Some c \<Rightarrow> c)
         | DeadlineExceeded \<Rightarrow> 503 | Canceled \<Rightarrow> 503)"
proof -
  have "status_of (new_writer\<lparr>rw_header := h\<rparr>) = None" for h by (simp add: status_of_def new_writer_def)
  with assms show ?thesis
    by (auto simp: Timeout_def copy_response_def split: race.splits outcome.splits option.splits)
qed

lemma Timeout_body:
  "nxt new_writer r = Returned tw \<Longrightarrow>
   Timeout InTime nxt w r = Returned (copy_response w tw) \<and> rw_body (copy_response w tw) = rw_body w @ rw_body tw"
  by (simp add: Timeout_def copy_response_def)

text \<open>The decoder never sees more than two mebibytes, whatever length the request declares.\<close>

lemma ReadJSON_bounded:
  assumes "\<And>b cut. length b \<le> MaxBody \<Longrightarrow> d (b, cut) = d' (b, cut)"
  shows "ReadJSON d r = ReadJSON d' r"
  using assms [of "take MaxBody (req_Body r)"] by (simp add: ReadJSON_def MaxBytesReader_def)

end
