(* ===== verification/Spec2Isabelle.thy ===== *)
theory Spec2Isabelle
  imports Sha256_Vectors Chain_Records Codec Node_Runs Sync_Worker Transport
begin

text \<open>
  A verification development for the verifiable chain node, a blockchain node in Go whose
  transactions set keys of a key/value state.

  \<^bold>\<open>The program.\<close>  A client posts transactions to the node (\<open>internal/app/node.go\<close>).  They wait in
  the pool (\<open>internal/mempool\<close>), ordered by fee, until a request to mine takes the unexpired ones, applies
  them to the state (\<open>internal/state_machine\<close>), forms and hashes a block on top of the latest one
  (\<open>internal/chain_domain\<close>) and stores it (\<open>internal/repository\<close>).  The node serves blocks, snapshots of
  the state and proofs of its entries (\<open>internal/proof\<close>), counts its requests
  (\<open>internal/observability\<close>), logs events (\<open>internal/audit\<close>), knows peers (\<open>internal/p2p\<close>) and holds a
  voting engine (\<open>internal/consensus\<close>).  A binary encoding (\<open>internal/codec\<close>), the synchronisation
  worker (\<open>internal/sync_worker\<close>) and HTTP helpers (\<open>internal/transport\<close>) stand beside the node.

  \<^bold>\<open>How the code is modelled.\<close>  A struct is a record whose fields carry the source's names behind a
  prefix, a method \<open>T.M\<close> is a function \<open>T_M\<close> from the receiver to the result and the new receiver, an
  error is a value of a datatype (\<open>None\<close> for \<open>nil\<close>, or the left side of a sum), a panic is \<open>None\<close>.  The
  methods lock their component for their whole body, so a method call is one step; where the code releases
  the lock in between (\<open>Worker.Start\<close>, the event bus, the handlers of the node) the parts are separate
  definitions and separate steps of a transition system.  Integers keep their width, 64-bit words
  for \<open>uint64\<close> and for an \<open>int\<close> that is computed with; a count that is bounded by the length of a slice or
  map is a natural number.  A map is a finite map, and a loop over a map takes the order of the keys as an argument:
  theorems quantify over all of them (\<open>iterates\<close>).  The clock, the loop orders and the random parts a
  method reads are arguments.  A handler gets the decoded JSON body or \<open>None\<close>; in a
  whole request the decoder is a parameter.

  \<^bold>\<open>The theories.\<close>
  \<^item> \<open>Prelude\<close>: Go's integers, strings, maps, \<open>sort.Slice\<close>, decimal texts and times, and the
    interfaces shared by the components as locales: \<open>invariant_system\<close> (a step relation with a kept
    invariant; interpreted for the pool, the reservations, the audit chain, the bus, the engine, the
    bans, the sync worker and the node), \<open>bounded_store\<close> (a keyed store that refuses when full;
    the snapshot catalogue and the evidence pool) and \<open>slice_less\<close> (a comparison that sorts; all
    callers of \<open>sort.Slice\<close>).
  \<^item> \<open>Sha256\<close>, \<open>Sha256_Vectors\<close>: SHA-256 itself, with a published vector.
  \<^item> \<open>Merkle\<close>: pairwise hashing, which the transaction root and the state proofs share; locale
    \<open>fixed_digest\<close> shows that equal roots give equal leaves or a collision.
  \<^item> \<open>Chain_Domain\<close>, \<open>Chain_Records\<close>: \<open>internal/chain_domain\<close>.  Hashes bind their contents; the quorum
    rule makes any two quorums overlap (locale \<open>quorum_rule\<close>); validation accepts exactly the valid data.
  \<^item> \<open>Codec\<close>: \<open>internal/codec\<close>.  Round trips of transactions and frames, injectivity for blocks,
    exact checked arithmetic.
  \<^item> \<open>State_Machine\<close>: \<open>internal/state_machine\<close>.  The root is deterministic and binds the state, batches
    are executed as a specification over unbounded integers says, rollback restores.
  \<^item> \<open>Merkle_Proof\<close>: \<open>internal/proof\<close>.  Proofs are complete; an accepted proof whose steps are digests is of
    an entry of the map up to SHA-256 collisions, and one with other steps can be forged.
  \<^item> \<open>Mempool\<close>: \<open>internal/mempool\<close>.  The two indexes stay consistent, \<open>Add\<close> refines a specification
    on sets of transactions, lists are sorted.
  \<^item> \<open>Repository\<close>: \<open>internal/repository\<close>.  Storing a valid block and truncating keep a verified chain
    (locale \<open>truncation\<close> for the three \<open>DeleteAbove\<close>), range queries return.
  \<^item> \<open>Audit_Chain\<close>: \<open>internal/audit\<close>.  Appended chains verify, the last hash binds the chain, the bus
    delivers without panicking.
  \<^item> \<open>Consensus\<close>: \<open>internal/consensus\<close>.  One vote per validator, finality against the quorum rule, fair
    proposers, message queues (locale \<open>mailbox\<close>), the evidence pool and the validator schedule.
  \<^item> \<open>P2P\<close>, \<open>Observability\<close>, \<open>Transport\<close>: the packages of these names.
  \<^item> \<open>Sync_Worker\<close>: \<open>internal/sync_worker\<close>.  One synchronisation at a time; when it returns.
  \<^item> \<open>Chain_Node\<close>: \<open>internal/app/node.go\<close>, the composition: every handler, the routing table, the
    middleware.  A handler is given twice: as a function, its run without interruption, and, where it
    changes something, as the steps of the transition system \<open>node_step\<close>, one for each method call on a
    component, which interleave with the steps of all other requests.  The state of the system is the node,
    what the holder of \<open>opMu\<close> has done so far (\<open>op_phase\<close>) and what the handlers of transactions still have
    to do (\<open>pending\<close>).  \<open>txH_steps\<close>, \<open>mine_is_steps\<close>, \<open>snapH_is_steps\<close>, \<open>snapVerify_is_steps\<close> and \<open>serve_steps\<close>
    show that the functions are such runs.  The invariant says that the data of the state are the replay of the
    stored blocks and of the transactions that \<open>mine\<close> has applied but not stored (\<open>in_flight\<close>).
  \<^item> \<open>Node_Runs\<close>: runs of that system that count their blocks, sequences of whole requests through the
    multiplexer, and what can be seen of a block before it is stored.  The properties drawn from it
    stand in this root theory.

  \<^bold>\<open>Hash collisions.\<close>  No theorem assumes that SHA-256 has no collisions.  A binding theorem ends in a
  disjunction: the contents agree, or the inputs hashed in the two computations, listed by a definition,
  contain two different ones with the same digest.

  \<^bold>\<open>Termination.\<close>  All loops are total functions but those of \<open>Repo.Range\<close> and \<open>Worker.Start\<close>, whose
  counter wraps around at the largest height: these are partial functions into \<open>option\<close>, with theorems
  that say when they return and that they do not return at the largest height.  No definition uses fuel.

  \<^bold>\<open>Not modelled.\<close>  \<open>cmd/node/main.go\<close> (starts the server and waits for a signal); the JSON text of
  responses and log entries (where the code decodes JSON or hands encoded JSON on, the library's decoder and
  encoder are parameters); percent escapes in request paths; tests, documentation and deployment files.
\<close>

section \<open>Properties of the running node\<close>

text \<open>C1: the state of the node is the replay of its chain.  In every state the node can reach, whatever requests
  run in whatever interleaving of their calls, there is a list of the stored blocks at the heights 1, 2, and so
  on, such that applying their transactions in order to the empty state, and after them those that \<open>mine\<close> has
  applied but not stored yet, gives the data of the node, and every block carries the root of the state that the
  blocks up to it give.\<close>

theorem replay_reproduces_state:
  assumes "node_step\<^sup>*\<^sup>* (NewNode started now c, Idle, {#}) (n, m, ps)"
  shows "\<exists>bs. maplen (rp_blocks (nd_repo n)) = length bs \<and>
           (\<forall>i < length bs. Repo_Block (nd_repo n) (of_nat (Suc i)) = (bs ! i, True)) \<and>
           st_data (nd_state n) = st_data (apply_all State_New (concat (map blk_Transactions bs) @ in_flight m)) \<and>
           (\<forall>i < length bs. \<forall>ord. let s = apply_all State_New (concat (map blk_Transactions (take (Suc i) bs)))
              in iterates ord (st_data s) \<longrightarrow> hdr_StateRoot (blk_Header (bs ! i)) = State_Root ord s)"
proof -
  have "node_inv (n, m, ps)" by (rule node.reachable_inv [OF _ assms]) blast
  then obtain bs where bs: "chain_inv bs n m" by (rule node_invE)
  have "Repo_Block (nd_repo n) (of_nat (Suc i)) = (bs ! i, True)" if "i < length bs" for i
    using chain_lookup [OF chain_invD(1,4) [OF bs] that] by (simp add: Repo_Block_def mapget0_def)
  moreover have "maplen (rp_blocks (nd_repo n)) = length bs" using chain_invD(1) [OF bs] by (simp add: chain_def)
  ultimately show ?thesis using bs roots_replayD [of bs]
    by (intro exI [of _ bs]) (simp add: chain_inv_def chain_txs_def State_Root_data_root Let_def)
qed

theorem replay_reproduces_state_witness:
  "\<exists>(n :: Node) bs. length bs = 1 \<and> Repo_Block (nd_repo n) 1 = (bs ! 0, True) \<and>
     st_data (nd_state n) = st_data (apply_all State_New (concat (map blk_Transactions bs)))"
proof -
  obtain n h where run: "run (fresh, Idle, {#}) 1 (n, Committed [pool_tx ''a'' ''alice'' 1 5] h, {#})" using mined_run by blast
  from replay_reproduces_state [OF run_steps [OF this]] run_blocks [OF run] show ?thesis by fastforce
qed

text \<open>C6: every block that is committed raises the height by one, in every interleaving: after \<open>k\<close> commits the
  store has \<open>k\<close> blocks, the latest has height \<open>k\<close>, and there is a block exactly at the heights 1 to \<open>k\<close>.\<close>

theorem commits_raise_height:
  assumes "run (NewNode started now c, Idle, {#}) k (n, m, ps)" and "iterates ord (rp_blocks (nd_repo n))"
  shows "maplen (rp_blocks (nd_repo n)) = k \<and> unat (hdr_Height (blk_Header (Repo_Latest ord (nd_repo n)))) = k \<and>
         (\<forall>h. snd (Repo_Block (nd_repo n) h) \<longleftrightarrow> 1 \<le> unat h \<and> unat h \<le> k)"
proof -
  have "node_inv (n, m, ps)" by (rule node.reachable_inv [OF _ run_steps [OF assms(1)]]) blast
  from reachable_heights [OF this assms(2)] run_blocks [OF assms(1)] show ?thesis by simp
qed

theorem commits_raise_height_witness:
  "\<exists>(n :: Node) ord. unat (hdr_Height (blk_Header (Repo_Latest ord (nd_repo n)))) = 1 \<and> snd (Repo_Block (nd_repo n) 1)"
proof -
  obtain n h ord where run: "run (fresh, Idle, {#}) 1 (n, Committed [pool_tx ''a'' ''alice'' 1 5] h, {#})"
    and ord: "iterates ord (rp_blocks (nd_repo n))"
    using mined_run iterates_exists by metis
  from commits_raise_height [OF run ord] show ?thesis by (intro exI [of _ n] exI [of _ ord]) simp
qed

text \<open>C5: any sequence of requests, with any methods, paths and bodies, served one after another by a new node,
  leaves a chain that verifies, whose latest height and whose number of blocks in the metrics are the number
  of requests that the multiplexer sent to \<open>mine\<close>; the metrics count every request.\<close>

theorem requests_served:
  assumes "envs_ok dp dt (NewNode started now c) rs" and "n = serve_all dp dt (NewNode started now c) rs"
    and "iterates ord (rp_blocks (nd_repo n))"
  shows "Repo_VerifyChain (nd_repo n) = None \<and>
         unat (hdr_Height (blk_Header (Repo_Latest ord (nd_repo n)))) = sum_list (map (mines \<circ> snd) rs) \<and>
         mt_Blocks (nd_metrics n) = of_nat (sum_list (map (mines \<circ> snd) rs)) \<and>
         mt_Requests (nd_metrics n) = of_nat (length rs)"
proof -
  let ?n = "NewNode started now c"
  have inv: "node_inv (n, Idle, {#})"
    unfolding assms(2) by (rule node.reachable_inv [OF _ serve_all_steps [OF assms(1)]]) blast
  from node_invE [OF inv] obtain bs where bs: "chain_inv bs n Idle" .
  have "Repo_VerifyChain (nd_repo n) = None" using chain_invD(1,2) [OF bs] by (auto simp: VerifyChain_None)
  moreover have "mt_Requests (nd_metrics ?n) = 0" "mt_Blocks (nd_metrics ?n) = 0" "maplen (rp_blocks (nd_repo ?n)) = 0"
    by (simp_all add: NewNode_def Metrics_New_def Repo_New_def)
  ultimately show ?thesis
    using reachable_heights(1) [OF inv assms(3)] serve_all_counts [OF node_inv_New assms(1)] assms(2) by simp
qed

theorem requests_served_witness:
  "Repo_VerifyChain (nd_repo (serve_all (\<lambda>b. None) (\<lambda>b. None) fresh [(example_env, mine_request)])) = None \<and>
   mt_Blocks (nd_metrics (serve_all (\<lambda>b. None) (\<lambda>b. None) fresh [(example_env, mine_request)])) = 1"
proof -
  let ?rs = "[(example_env, mine_request)]"
  have "env_ok example_env fresh mine_request"
    using fresh_facts by (simp add: env_ok_def mine_request_def dispatch_examples(1)) (simp add: example_env_def)
  then have ok: "envs_ok (\<lambda>b. None) (\<lambda>b. None) fresh ?rs" by simp
  obtain ord where "iterates ord (rp_blocks (nd_repo (serve_all (\<lambda>b. None) (\<lambda>b. None) fresh ?rs)))" using iterates_exists by blast
  from requests_served [OF ok refl this] show ?thesis by (simp add: mines_def mine_request_def dispatch_examples(1))
qed

end
